(* ===== verification/Prelude.thy ===== *)
theory Prelude
  imports Main "HOL-Library.Word"
begin

text \<open>
  Shared vocabulary of the development: bytes and C strings, the result type that tells the
  ordinary failure of a C function (it returned \<open>-1\<close>) from an access outside an object, the
  checked memory accesses built on it, and the facts about the two top bits of a byte that all of
  the DNS name code tests with \<open>n & NS_CMPRSFLGS\<close>.
\<close>

unbundle bit_operations_syntax

section \<open>Bytes, C strings and results\<close>

type_synonym byte = "8 word"

text \<open>A C string is the list of its bytes before the terminating NUL.\<close>

type_synonym cstr = "byte list"

text \<open>
  How a C call can end without a value: \<open>Fail\<close> is the error return (\<open>-1\<close> or \<open>NULL\<close>), \<open>Oob\<close> a
  read or write outside the object the pointer points into, \<open>Uaf\<close> an access to memory that was
  freed or never allocated, \<open>Abort\<close> a failed \<open>assert\<close>, and \<open>Diverge\<close> a loop that does not end (for
  the loop that draws random numbers: that does not end within the numbers supplied).
\<close>

datatype cerr = Fail | Oob | Uaf | Abort | Diverge

type_synonym 'a cres = "cerr + 'a"

definition bindE :: "'a cres \<Rightarrow> ('a \<Rightarrow> 'b cres) \<Rightarrow> 'b cres" where
  "bindE m f = (case m of Inl e \<Rightarrow> Inl e | Inr x \<Rightarrow> f x)"

lemma bindE_simps [simp]:
  "bindE (Inl e) f = Inl e" "bindE (Inr x) f = f x"
  by (simp_all add: bindE_def)

lemma bindE_Inr_iff: "bindE m f = Inr y \<longleftrightarrow> (\<exists>x. m = Inr x \<and> f x = Inr y)"
  by (cases m) auto

lemma bindE_Inl_iff: "bindE m f = Inl e \<longleftrightarrow> m = Inl e \<or> (\<exists>x. m = Inr x \<and> f x = Inl e)"
  by (cases m) auto

lemma bindE_assoc: "bindE (bindE m f) g = bindE m (\<lambda>x. bindE (f x) g)"
  by (cases m) auto

lemma bindE_cong [fundef_cong]:
  "m = m' \<Longrightarrow> (\<And>x. m' = Inr x \<Longrightarrow> f x = f' x) \<Longrightarrow> bindE m f = bindE m' f'"
  by (cases m') auto

text \<open>Only an ordinary failure or a value: no access outside an object, no abort.\<close>

definition safe :: "'a cres \<Rightarrow> bool" where
  "safe r \<longleftrightarrow> (\<forall>e. r = Inl e \<longrightarrow> e = Fail)"

lemma safe_simps [simp]: "safe (Inr x)" "safe (Inl e) \<longleftrightarrow> e = Fail"
  by (auto simp: safe_def)

lemma safe_bindE: "safe m \<Longrightarrow> (\<And>x. m = Inr x \<Longrightarrow> safe (f x)) \<Longrightarrow> safe (bindE m f)"
  by (cases m) auto

lemma safe_cases:
  assumes "safe r"
  obtains "r = Inl Fail" | x where "r = Inr x"
  using assms by (cases r) auto

text \<open>Every result satisfies \<open>P\<close>, and every error is one of \<open>bad\<close>.\<close>

definition outcome :: "cerr set \<Rightarrow> ('a \<Rightarrow> bool) \<Rightarrow> 'a cres \<Rightarrow> bool" where
  "outcome bad P r \<longleftrightarrow> (case r of Inl e \<Rightarrow> e \<in> bad | Inr x \<Rightarrow> P x)"

lemma outcome_simps [simp]: "outcome bad P (Inl e) \<longleftrightarrow> e \<in> bad" "outcome bad P (Inr x) \<longleftrightarrow> P x"
  by (simp_all add: outcome_def)

lemma outcome_bindE:
  "outcome bad Q m \<Longrightarrow> (\<And>x. m = Inr x \<Longrightarrow> Q x \<Longrightarrow> outcome bad P (f x)) \<Longrightarrow> outcome bad P (bindE m f)"
  by (cases m) auto

lemma outcome_weaken:
  "outcome bad Q m \<Longrightarrow> bad \<subseteq> bad' \<Longrightarrow> (\<And>x. m = Inr x \<Longrightarrow> Q x \<Longrightarrow> P x) \<Longrightarrow> outcome bad' P m"
  by (cases m) auto

lemma outcome_safe: "safe m \<longleftrightarrow> outcome {Fail} (\<lambda>_. True) m"
  by (cases m) auto

text \<open>
  \<open>if (f(...) != 0) { ... } else { ... }\<close>: an ordinary failure of \<open>f\<close> is handled, everything else
  that is not a value ends the caller as well.
\<close>

definition attempt :: "'a cres \<Rightarrow> 'b cres \<Rightarrow> ('a \<Rightarrow> 'b cres) \<Rightarrow> 'b cres" where
  "attempt r failed k = (case r of Inl e \<Rightarrow> if e = Fail then failed else Inl e | Inr x \<Rightarrow> k x)"

lemma attempt_simps [simp]:
  "attempt (Inl Fail) failed k = failed" "attempt (Inr x) failed k = k x" "e \<noteq> Fail \<Longrightarrow> attempt (Inl e) failed k = Inl e"
  by (simp_all add: attempt_def)

lemma outcome_attempt:
  "outcome (insert Fail bad) Q r \<Longrightarrow> outcome bad P failed \<Longrightarrow> (\<And>x. r = Inr x \<Longrightarrow> Q x \<Longrightarrow> outcome bad P (k x))
   \<Longrightarrow> outcome bad P (attempt r failed k)"
  by (cases r) (auto simp: attempt_def)

lemma attempt_Inr_iff: "attempt r failed k = Inr y \<longleftrightarrow> r = Inl Fail \<and> failed = Inr y \<or> (\<exists>x. r = Inr x \<and> k x = Inr y)"
  by (cases r) (auto simp: attempt_def)

lemma safe_attempt: "safe r \<Longrightarrow> safe failed \<Longrightarrow> (\<And>x. r = Inr x \<Longrightarrow> safe (k x)) \<Longrightarrow> safe (attempt r failed k)"
  by (cases r) auto

text \<open>A computation that may leave an object, but does nothing worse; so does a parser whose message fills its buffer.\<close>

definition mild :: "'a cres \<Rightarrow> bool" where
  "mild r \<longleftrightarrow> outcome {Fail, Oob} (\<lambda>_. True) r"

named_theorems mild_rules \<open>what fails or leaves an object at worst\<close>

lemma mild_simps [simp]: "mild (Inr x)" "mild (Inl e) \<longleftrightarrow> e = Fail \<or> e = Oob"
  by (simp_all add: mild_def)

lemma mild_bindE [mild_rules]: "mild m \<Longrightarrow> (\<And>x. m = Inr x \<Longrightarrow> mild (f x)) \<Longrightarrow> mild (bindE m f)"
  by (cases m) auto

lemma mild_attempt [mild_rules]: "mild r \<Longrightarrow> mild failed \<Longrightarrow> (\<And>x. mild (k x)) \<Longrightarrow> mild (attempt r failed k)"
  by (cases r) (auto simp: attempt_def)

text \<open>The same call \<open>k\<close> times in a row.\<close>

fun iter :: "nat \<Rightarrow> ('s \<Rightarrow> 's cres) \<Rightarrow> 's \<Rightarrow> 's cres" where
  "iter 0 f s = Inr s"
| "iter (Suc k) f s = bindE (f s) (iter k f)"

section \<open>Checked memory accesses\<close>

text \<open>
  An object is the list of its bytes and a pointer into it is an offset. \<open>rd\<close> is \<open>*p\<close>, \<open>rd_n\<close> the
  source side of \<open>memcpy\<close>; \<open>wr\<close> appends to the part of a buffer of \<open>cap\<close> bytes that has been
  filled so far, as the code's \<open>*dn++ = c\<close> does; \<open>wr_str\<close> is \<open>sprintf(dn, ...)\<close>, which also
  writes a NUL behind the text.
\<close>

definition rd :: "byte list \<Rightarrow> nat \<Rightarrow> byte cres" where
  "rd buf i = (if i < length buf then Inr (buf ! i) else Inl Oob)"

definition rd_n :: "byte list \<Rightarrow> nat \<Rightarrow> nat \<Rightarrow> byte list cres" where
  "rd_n buf i n = (if i + n \<le> length buf then Inr (take n (drop i buf)) else Inl Oob)"

definition wr :: "nat \<Rightarrow> byte list \<Rightarrow> byte list \<Rightarrow> byte list cres" where
  "wr cap dn bs = (if length dn + length bs \<le> cap then Inr (dn @ bs) else Inl Oob)"

definition wr_str :: "nat \<Rightarrow> byte list \<Rightarrow> cstr \<Rightarrow> byte list cres" where
  "wr_str cap dn s = (if length dn + length s + 1 \<le> cap then Inr (dn @ s) else Inl Oob)"

named_theorems mem_simps \<open>checked reads and writes decided by their bounds\<close>

lemma rd_ok [mem_simps]: "i < length buf \<Longrightarrow> rd buf i = Inr (buf ! i)"
  by (simp add: rd_def)

lemma rd_n_ok [mem_simps]: "i + n \<le> length buf \<Longrightarrow> rd_n buf i n = Inr (take n (drop i buf))"
  by (simp add: rd_n_def)

lemma wr_ok [mem_simps]: "length dn + length bs \<le> cap \<Longrightarrow> wr cap dn bs = Inr (dn @ bs)"
  by (simp add: wr_def)

lemma wr_str_ok [mem_simps]: "length dn + length s + 1 \<le> cap \<Longrightarrow> wr_str cap dn s = Inr (dn @ s)"
  by (simp add: wr_str_def)

lemma rd_Inr_iff: "rd buf i = Inr b \<longleftrightarrow> i < length buf \<and> b = buf ! i"
  by (auto simp: rd_def)

lemma rd_n_Inr_iff: "rd_n buf i n = Inr bs \<longleftrightarrow> i + n \<le> length buf \<and> bs = take n (drop i buf)"
  by (auto simp: rd_n_def)

lemma wr_Inr_iff: "wr cap dn bs = Inr r \<longleftrightarrow> length dn + length bs \<le> cap \<and> r = dn @ bs"
  by (auto simp: wr_def)

lemma wr_str_Inr_iff: "wr_str cap dn s = Inr r \<longleftrightarrow> length dn + length s + 1 \<le> cap \<and> r = dn @ s"
  by (auto simp: wr_str_def)

lemma mild_mem [mild_rules]: "mild (rd buf i)" "mild (rd_n buf i n)" "mild (wr cap dn bs)" "mild (wr_str cap dn s)"
  by (simp_all add: rd_def rd_n_def wr_def wr_str_def)

lemmas mem_Inr_iff = rd_Inr_iff rd_n_Inr_iff wr_Inr_iff wr_str_Inr_iff

lemma rd_append_left: "i < length xs \<Longrightarrow> rd (xs @ ys) i = rd xs i"
  by (simp add: rd_def nth_append)

lemma rd_append_right: "rd (xs @ ys) (length xs + i) = rd ys i"
  by (simp add: rd_def)

section \<open>Bytes standing at an offset\<close>

definition stands_at :: "'a list \<Rightarrow> nat \<Rightarrow> 'a list \<Rightarrow> bool" where
  "stands_at buf p xs \<longleftrightarrow> take (length xs) (drop p buf) = xs"

lemma stands_at_Nil [simp]: "stands_at buf p []"
  by (simp add: stands_at_def)

lemma stands_at_Cons [simp]:
  "stands_at buf p (x # xs) \<longleftrightarrow> p < length buf \<and> buf ! p = x \<and> stands_at buf (Suc p) xs"
proof (cases "p < length buf")
  case True
  then have "drop p buf = buf ! p # drop (Suc p) buf" by (rule Cons_nth_drop_Suc [symmetric])
  then show ?thesis using True by (simp add: stands_at_def)
next
  case False
  then show ?thesis by (simp add: stands_at_def)
qed

lemma stands_at_append [simp]:
  "stands_at buf p (xs @ ys) \<longleftrightarrow> stands_at buf p xs \<and> stands_at buf (p + length xs) ys"
  by (induction xs arbitrary: p) auto

lemma stands_at_nth: "stands_at buf p xs \<Longrightarrow> i < length xs \<Longrightarrow> p + i < length buf \<and> buf ! (p + i) = xs ! i"
proof (induction xs arbitrary: p i)
  case (Cons x xs)
  then show ?case by (cases i) force+
qed simp

lemma stands_at_length: "stands_at buf p xs \<Longrightarrow> xs \<noteq> [] \<Longrightarrow> p + length xs \<le> length buf"
  using stands_at_nth [of buf p xs "length xs - 1"] by (cases xs rule: rev_cases) auto

lemma stands_at_take: "p + n \<le> length buf \<Longrightarrow> stands_at buf p (take n (drop p buf))"
  by (simp add: stands_at_def)

lemma stands_at_self: "length pre = p \<Longrightarrow> stands_at (pre @ xs @ post) p xs"
  by (auto simp: stands_at_def)

lemma rd_n_stands_at: "stands_at buf p xs \<Longrightarrow> p + length xs \<le> length buf \<Longrightarrow> rd_n buf p (length xs) = Inr xs"
  by (simp add: rd_n_def stands_at_def)

lemma rd_stands_at: "stands_at buf p (x # xs) \<Longrightarrow> rd buf p = Inr x"
  by (simp add: rd_def)

section \<open>The two top bits of a byte\<close>

lemma byte_less_256: "unat (b :: byte) < 256"
  using unsigned_less [of b] by simp

lemma nat_and_3: "(x :: nat) AND 3 = x mod 4"
  using take_bit_eq_mask [of 2 x] by (simp add: mask_eq_exp_minus_1 take_bit_eq_mod)

lemma nat_and_192: "(n :: nat) AND 192 = 64 * (n div 64 mod 4)"
proof -
  have "n AND push_bit 6 3 = push_bit 6 (drop_bit 6 n AND 3)"
    by (rule bit_eqI)
      (auto simp: bit_push_bit_iff bit_and_iff bit_drop_bit_eq simp del: push_bit_numeral push_bit_of_nat)
  then show ?thesis by (simp add: push_bit_eq_mult drop_bit_eq_div nat_and_3)
qed

lemma unat_and_C0: "unat ((b :: byte) AND 0xC0) = 64 * (unat b div 64)"
proof -
  have "unat (b AND 0xC0) = unat b AND unat (0xC0 :: byte)" by (simp only: unsigned_and_eq)
  moreover have "unat (0xC0 :: byte) = 192" by simp
  ultimately show ?thesis using byte_less_256 [of b] by (simp only: nat_and_192) simp
qed

lemma and_C0_eq_iff: "(b :: byte) AND 0xC0 = c \<longleftrightarrow> 64 * (unat b div 64) = unat c"
  by (metis unat_and_C0 word_unat_eq_iff)

lemma label_byte_iff: "((b :: byte) AND 0xC0 = 0) \<longleftrightarrow> unat b < 64"
  unfolding and_C0_eq_iff using byte_less_256 [of b] by (simp add: div_eq_0_iff)

lemma elt_byte_iff: "((b :: byte) AND 0xC0 = 0x40) \<longleftrightarrow> 64 \<le> unat b \<and> unat b < 128"
  unfolding and_C0_eq_iff using byte_less_256 [of b] by auto

lemma ptr_byte_iff: "((b :: byte) AND 0xC0 = 0xC0) \<longleftrightarrow> 192 \<le> unat b"
  unfolding and_C0_eq_iff using byte_less_256 [of b] by auto

lemmas byte_class = label_byte_iff elt_byte_iff ptr_byte_iff

lemma nat_and_C0_small: "n < 256 \<Longrightarrow> (n :: nat) AND 0xC0 = 0 \<longleftrightarrow> n < 64"
  by (auto simp: nat_and_192 div_eq_0_iff)

lemma byte_zero_iff: "(b :: byte) = 0 \<longleftrightarrow> unat b = 0"
  by (simp add: unat_eq_0)

end
