(* ===== verification/Wire.thy ===== *)
theory Wire
  imports Prelude
begin

text \<open>
  The wire format primitives of resolv.h and resolv.c: big-endian 16 and 32 bit fields
  (\<open>NS_GET16\<close> to \<open>NS_PUT32\<close>), the length of one label (\<open>labellen\<close>), and skipping an encoded name
  (\<open>ns_name_skip\<close>, \<open>dn_skipname\<close>). The abstract view of an encoded name, a list of labels, is
  stated here too; the theories above refine it.
\<close>

section \<open>Constants and fields\<close>

abbreviation (input) NS_CMPRSFLGS :: byte where "NS_CMPRSFLGS \<equiv> 0xC0"
abbreviation (input) NS_TYPE_ELT :: byte where "NS_TYPE_ELT \<equiv> 0x40"
abbreviation (input) DNS_LABELTYPE_BITSTRING :: byte where "DNS_LABELTYPE_BITSTRING \<equiv> 0x41"
abbreviation (input) NS_MAXCDNAME :: nat where "NS_MAXCDNAME \<equiv> 255"
abbreviation (input) NS_MAXDNAME :: nat where "NS_MAXDNAME \<equiv> 1025"

text \<open>\<open>NS_GET16\<close> and \<open>NS_GET32\<close>; the caller advances the pointer by 2 or 4.\<close>

definition NS_GET16 :: "byte list \<Rightarrow> nat \<Rightarrow> 16 word cres" where
  "NS_GET16 buf cp = bindE (rd buf cp) (\<lambda>b0. bindE (rd buf (cp + 1)) (\<lambda>b1.
     Inr (push_bit 8 (ucast b0) OR ucast b1)))"

definition NS_GET32 :: "byte list \<Rightarrow> nat \<Rightarrow> 32 word cres" where
  "NS_GET32 buf cp = bindE (rd buf cp) (\<lambda>b0. bindE (rd buf (cp + 1)) (\<lambda>b1.
     bindE (rd buf (cp + 2)) (\<lambda>b2. bindE (rd buf (cp + 3)) (\<lambda>b3.
     Inr (push_bit 24 (ucast b0) OR push_bit 16 (ucast b1) OR push_bit 8 (ucast b2) OR ucast b3)))))"

text \<open>\<open>NS_PUT16\<close> casts its \<open>int\<close> argument to 16 bits and stores the high byte first.\<close>

definition NS_PUT16 :: "int \<Rightarrow> byte list" where
  "NS_PUT16 s = (let t_s = (word_of_int s :: 16 word) in [ucast (drop_bit 8 t_s), ucast t_s])"

definition NS_PUT32 :: "int \<Rightarrow> byte list" where
  "NS_PUT32 l = (let t_l = (word_of_int l :: 32 word) in
     [ucast (drop_bit 24 t_l), ucast (drop_bit 16 t_l), ucast (drop_bit 8 t_l), ucast t_l])"

lemma NS_GET16_ok [mem_simps]:
  "cp + 1 < length buf \<Longrightarrow>
   NS_GET16 buf cp = Inr (push_bit 8 (ucast (buf ! cp)) OR ucast (buf ! (cp + 1)))"
  by (simp add: NS_GET16_def mem_simps)

lemma NS_GET16_safe: "cp + 1 < length buf \<Longrightarrow> safe (NS_GET16 buf cp)"
  by (simp add: mem_simps)

lemma NS_GET32_safe: "cp + 3 < length buf \<Longrightarrow> safe (NS_GET32 buf cp)"
  by (simp add: NS_GET32_def mem_simps)

lemma mild_fields [mild_rules]: "mild (NS_GET16 buf cp)" "mild (NS_GET32 buf cp)"
  unfolding NS_GET16_def NS_GET32_def by (intro mild_rules mild_simps)+

lemma length_NS_PUT16 [simp]: "length (NS_PUT16 s) = 2"
  by (simp add: NS_PUT16_def Let_def)

lemma bytes_of_16: "push_bit 8 (ucast (ucast (drop_bit 8 t) :: byte)) OR ucast (ucast t :: byte) = (t :: 16 word)"
  by (rule bit_word_eqI) (auto simp: bit_simps)

lemma NS_GET16_put: "stands_at buf cp (NS_PUT16 s) \<Longrightarrow> NS_GET16 buf cp = Inr (word_of_int s)"
  by (simp add: NS_GET16_ok NS_PUT16_def Let_def bytes_of_16)

section \<open>Labels\<close>

text \<open>\<open>labellen\<close> reads the length byte at \<open>lp\<close>, and for a bit string label the byte behind it.\<close>

definition labellen :: "byte list \<Rightarrow> nat \<Rightarrow> nat cres" where
  "labellen buf lp = bindE (rd buf lp) (\<lambda>l.
     if l AND NS_CMPRSFLGS = NS_CMPRSFLGS then Inl Fail
     else if l AND NS_CMPRSFLGS = NS_TYPE_ELT then
       (if l = DNS_LABELTYPE_BITSTRING then
          bindE (rd buf (lp + 1)) (\<lambda>b.
            let bitlen = (if b = 0 then 256 else unat b) in Inr ((bitlen + 7) div 8 + 1))
        else Inl Fail)
     else Inr (unat l))"

lemma labellen_plain:
  "lp < length buf \<Longrightarrow> unat (buf ! lp) < 64 \<Longrightarrow> labellen buf lp = Inr (unat (buf ! lp))"
  by (simp add: labellen_def mem_simps byte_class)

lemma labellen_elt:
  assumes "lp < length buf" "buf ! lp AND NS_CMPRSFLGS = NS_TYPE_ELT" "labellen buf lp = Inr l"
  shows "buf ! lp = DNS_LABELTYPE_BITSTRING" "lp + 1 < length buf"
    "l = ((if buf ! (lp + 1) = 0 then 256 else unat (buf ! (lp + 1))) + 7) div 8 + 1"
  using assms by (auto simp: labellen_def mem_simps byte_class rd_def Let_def split: if_splits)

lemma labellen_safe: "lp + 1 < length buf \<Longrightarrow> safe (labellen buf lp)"
  by (simp add: labellen_def mem_simps Let_def)

lemma mild_labellen [mild_rules]: "mild (labellen buf lp)"
  by (auto simp: labellen_def Let_def intro!: mild_rules)

section \<open>Skipping an encoded name\<close>

text \<open>
  The loop of \<open>ns_name_skip\<close> from pointer \<open>cp\<close>: the result is the pointer where it stops. The
  guard \<open>cp < eom\<close> is the code's; the read itself can still leave the buffer when a bit string
  label is the last byte, because \<open>labellen\<close> looks one byte ahead.
\<close>

function name_skip_loop :: "byte list \<Rightarrow> nat \<Rightarrow> nat \<Rightarrow> nat cres" where
  "name_skip_loop buf eom cp =
     (if cp < eom then
        bindE (rd buf cp) (\<lambda>n.
          if n = 0 then Inr (cp + 1)
          else if n AND NS_CMPRSFLGS = 0 then name_skip_loop buf eom (cp + 1 + unat n)
          else if n AND NS_CMPRSFLGS = NS_TYPE_ELT then
            bindE (labellen buf cp) (\<lambda>l. name_skip_loop buf eom (cp + 1 + l))
          else if n AND NS_CMPRSFLGS = NS_CMPRSFLGS then Inr (cp + 2)
          else Inl Fail)
      else Inr cp)"
  by pat_completeness auto
termination
  by (relation "measure (\<lambda>(buf, eom, cp). eom - cp)") auto

declare name_skip_loop.simps [simp del]

text \<open>\<open>ns_name_skip\<close> returns the advanced pointer (\<open>*ptrptr\<close>); \<open>dn_skipname\<close> the number of bytes.\<close>

definition ns_name_skip :: "byte list \<Rightarrow> nat \<Rightarrow> nat \<Rightarrow> nat cres" where
  "ns_name_skip buf eom ptr =
     bindE (name_skip_loop buf eom ptr) (\<lambda>cp. if cp > eom then Inl Fail else Inr cp)"

definition dn_skipname :: "byte list \<Rightarrow> nat \<Rightarrow> nat \<Rightarrow> nat cres" where
  "dn_skipname buf eom ptr = bindE (ns_name_skip buf eom ptr) (\<lambda>cp. Inr (cp - ptr))"

lemma name_skip_loop_ge: "name_skip_loop buf eom cp = Inr r \<Longrightarrow> cp \<le> r"
proof (induction buf eom cp rule: name_skip_loop.induct)
  case (1 buf eom cp)
  note IH = "1.IH" [THEN le_trans [rotated]]
  from "1.prems" show ?case
    by (subst (asm) name_skip_loop.simps) (auto simp: bindE_Inr_iff split: if_splits intro: IH)
qed

lemma name_skip_loop_safe:
  assumes "eom < length buf"
  shows "safe (name_skip_loop buf eom cp)"
  using assms
proof (induction buf eom cp rule: name_skip_loop.induct)
  case (1 buf eom cp)
  have "cp < eom \<Longrightarrow> safe (labellen buf cp)"
    using "1.prems" by (simp add: labellen_safe)
  then show ?case
    using "1" by (subst name_skip_loop.simps) (auto simp: mem_simps intro!: safe_bindE)
qed

lemma mild_skip [mild_rules]: "mild (name_skip_loop buf eom cp)" "mild (dn_skipname buf eom ptr)"
proof -
  show loop: "mild (name_skip_loop buf eom cp)" for cp
  proof (induction buf eom cp rule: name_skip_loop.induct)
    case (1 buf eom cp)
    then show ?case by (subst name_skip_loop.simps) (auto intro!: mild_rules)
  qed
  show "mild (dn_skipname buf eom ptr)"
    by (auto simp: dn_skipname_def ns_name_skip_def intro!: mild_rules loop)
qed

lemma dn_skipname_bounds: "dn_skipname buf eom ptr = Inr b \<Longrightarrow> ptr + b \<le> eom"
  by (auto simp: dn_skipname_def ns_name_skip_def bindE_Inr_iff split: if_splits
      dest!: name_skip_loop_ge)

lemma dn_skipname_safe: "eom < length buf \<Longrightarrow> safe (dn_skipname buf eom ptr)"
  by (auto simp: dn_skipname_def ns_name_skip_def intro!: safe_bindE name_skip_loop_safe)

end
