(* ===== verification/Unpack.thy ===== *)
theory Unpack
  imports Wire
begin

text \<open>
  Decompression of an encoded domain name: \<open>ns_name_unpack\<close> of resolv.c, its loop over labels and
  compression pointers with the loop check \<open>checked\<close>, and the abstract view it refines: a name is
  a list of labels, and \<open>name_at\<close> says which list the bytes at an offset of a message denote.
\<close>

section \<open>Names as lists of labels\<close>

text \<open>An ordinary label of 1 to 63 bytes, or an EDNS0 bit string label (type byte 0x41).\<close>

datatype label = Plain "byte list" | Bits byte "byte list"

definition bitlen :: "byte \<Rightarrow> nat" where
  "bitlen n = (if n = 0 then 256 else unat n)"

fun ok_label :: "label \<Rightarrow> bool" where
  "ok_label (Plain cs) = (cs \<noteq> [] \<and> length cs < 64)"
| "ok_label (Bits n d) = (length d = (bitlen n + 7) div 8)"

fun enc_label :: "label \<Rightarrow> byte list" where
  "enc_label (Plain cs) = word_of_nat (length cs) # cs"
| "enc_label (Bits n d) = DNS_LABELTYPE_BITSTRING # n # d"

definition enc_name :: "label list \<Rightarrow> byte list" where
  "enc_name ls = concat (map enc_label ls) @ [0]"

lemma enc_name_simps [simp]:
  "enc_name [] = [0]" "enc_name (l # ls) = enc_label l @ enc_name ls"
  by (simp_all add: enc_name_def)

lemma enc_name_append: "enc_name (ls @ ks) = concat (map enc_label ls) @ enc_name ks"
  by (induction ls) simp_all

lemma enc_name_not_Nil [simp]: "enc_name ls \<noteq> []"
  by (simp add: enc_name_def)

lemma unat_of_length: "length cs < 64 \<Longrightarrow> unat (word_of_nat (length cs) :: byte) = length cs"
  by (simp add: unat_of_nat)

text \<open>The first byte of an encoded label decides its kind, and \<open>labellen\<close> is the length of the rest.\<close>

lemma enc_label_Cons:
  assumes "ok_label l"
  obtains n rest where "enc_label l = n # rest" "n \<noteq> 0" "rest \<noteq> []"
    "n AND NS_CMPRSFLGS = 0 \<or> n AND NS_CMPRSFLGS = NS_TYPE_ELT"
proof (cases l)
  case (Plain cs)
  with assms have "length cs < 64" "cs \<noteq> []" by auto
  then have "(word_of_nat (length cs) :: byte) AND NS_CMPRSFLGS = 0"
    "(word_of_nat (length cs) :: byte) \<noteq> 0"
    by (simp_all only: label_byte_iff unat_of_length) (simp add: byte_zero_iff unat_of_length)
  then show ?thesis
    using that [of "word_of_nat (length cs)" cs] Plain assms by simp
next
  case (Bits n d)
  then show ?thesis using that [of "0x41" "n # d"] by simp
qed

lemma labellen_enc:
  assumes "ok_label l" "stands_at buf cp (enc_label l)"
  shows "labellen buf cp = Inr (length (enc_label l) - 1)"
proof (cases l)
  case (Plain cs)
  with assms show ?thesis
    by (auto simp: labellen_plain unat_of_length)
next
  case (Bits n d)
  with assms show ?thesis
    by (simp add: labellen_def mem_simps bitlen_def)
qed

lemma label_at:
  assumes "labellen buf cp = Inr n" "cp + n < length buf" "buf ! cp \<noteq> 0"
    "buf ! cp AND NS_CMPRSFLGS = 0 \<or> buf ! cp AND NS_CMPRSFLGS = NS_TYPE_ELT"
  obtains l where "ok_label l" "enc_label l = buf ! cp # take n (drop (Suc cp) buf)"
proof (cases "buf ! cp AND NS_CMPRSFLGS = 0")
  case True
  then have small: "unat (buf ! cp) < 64" by (simp only: label_byte_iff)
  with assms have n: "n = unat (buf ! cp)" by (simp add: labellen_plain)
  let ?cs = "take n (drop (Suc cp) buf)"
  have "length ?cs = n" using assms(2) by simp
  then have "enc_label (Plain ?cs) = buf ! cp # ?cs" using n by simp
  moreover have "ok_label (Plain ?cs)"
    using small n assms(2,3) by (auto simp: byte_zero_iff)
  ultimately show ?thesis using that by blast
next
  case False
  with assms(4) have elt: "buf ! cp AND NS_CMPRSFLGS = NS_TYPE_ELT" by simp
  from assms(2) have "cp < length buf" by simp
  note E = labellen_elt [OF this elt assms(1)]
  let ?n = "buf ! (cp + 1)"
  have n: "n = Suc ((bitlen ?n + 7) div 8)" using E(3) by (simp add: bitlen_def)
  let ?d = "take (n - 1) (drop (cp + 2) buf)"
  have "drop (Suc cp) buf = ?n # drop (cp + 2) buf"
    using E(2) by (simp add: Cons_nth_drop_Suc)
  then have "take n (drop (Suc cp) buf) = ?n # ?d" using n by simp
  then have "enc_label (Bits ?n ?d) = buf ! cp # take n (drop (Suc cp) buf)"
    using E(1) by simp
  moreover have "ok_label (Bits ?n ?d)" using n assms(2) by simp
  ultimately show ?thesis using that by blast
qed

section \<open>What the bytes at an offset denote\<close>

definition ptr_target :: "byte \<Rightarrow> byte \<Rightarrow> nat" where
  "ptr_target n b = unat (push_bit 8 (ucast (n AND 0x3F)) OR (ucast b :: 32 word))"

inductive name_at :: "byte list \<Rightarrow> nat \<Rightarrow> nat \<Rightarrow> label list \<Rightarrow> bool" for buf eom where
  root: "p < eom \<Longrightarrow> buf ! p = 0 \<Longrightarrow> name_at buf eom p []"
| label: "ok_label l \<Longrightarrow> p + length (enc_label l) < eom \<Longrightarrow>
    stands_at buf p (enc_label l) \<Longrightarrow>
    name_at buf eom (p + length (enc_label l)) ls \<Longrightarrow> name_at buf eom p (l # ls)"
| pointer: "p + 1 < eom \<Longrightarrow> buf ! p AND NS_CMPRSFLGS = NS_CMPRSFLGS \<Longrightarrow>
    t = ptr_target (buf ! p) (buf ! (p + 1)) \<Longrightarrow> t < eom \<Longrightarrow>
    name_at buf eom t ls \<Longrightarrow> name_at buf eom p ls"

text \<open>The bytes at an offset denote at most one list of labels.\<close>

lemma stands_at_unique: "stands_at buf p xs \<Longrightarrow> stands_at buf p ys \<Longrightarrow> length xs = length ys \<Longrightarrow> xs = ys"
  by (metis stands_at_def)

lemma label_at_unique:
  assumes "ok_label l" "stands_at buf p (enc_label l)" "ok_label k" "stands_at buf p (enc_label k)"
  shows "l = k"
proof -
  have plain: "unat (buf ! p) < 64" if "ok_label (Plain cs)" "stands_at buf p (enc_label (Plain cs))" for cs
    using that by (auto simp: unat_of_length)
  have bits: "buf ! p = 0x41" if "stands_at buf p (enc_label (Bits n d))" for n d
    using that by auto
  have eq: "length (enc_label l) = length (enc_label k) \<Longrightarrow> enc_label l = enc_label k"
    using stands_at_unique [OF assms(2,4)] .
  show ?thesis
  proof (cases l)
    case (Plain cs)
    then have "unat (buf ! p) < 64" using plain assms by blast
    then obtain ds where ds: "k = Plain ds" using bits assms(4) by (cases k) fastforce+
    have "buf ! p = word_of_nat (length cs)" "buf ! p = word_of_nat (length ds)"
      using assms Plain ds by auto
    moreover have "length cs < 64" "length ds < 64" using assms(1,3) Plain ds by simp_all
    ultimately have "length cs = unat (buf ! p)" "length ds = unat (buf ! p)"
      by (metis unat_of_length)+
    then show ?thesis using Plain ds eq by simp
  next
    case (Bits n d)
    then have "buf ! p = 0x41" using bits assms(2) by blast
    then obtain n' d' where "k = Bits n' d'" using plain assms(3,4) by (cases k) fastforce+
    then show ?thesis using assms Bits eq by auto
  qed
qed

lemma name_at_unique: "name_at buf eom p ls \<Longrightarrow> name_at buf eom p ks \<Longrightarrow> ls = ks"
proof (induction arbitrary: ks rule: name_at.induct)
  case (root p)
  have no: "\<not> (ok_label l \<and> stands_at buf p (enc_label l))" for l
    using root(2) by (auto elim!: enc_label_Cons)
  from root(3) show ?case
    by (cases rule: name_at.cases) (use no root(2) in auto)
next
  case (label l p ls)
  obtain n rest where n: "enc_label l = n # rest" "n \<noteq> 0"
    "n AND NS_CMPRSFLGS = 0 \<or> n AND NS_CMPRSFLGS = NS_TYPE_ELT"
    using label(1) by (rule enc_label_Cons)
  then have b: "buf ! p \<noteq> 0" "buf ! p AND NS_CMPRSFLGS \<noteq> NS_CMPRSFLGS" using label(3) by auto
  from label.prems show ?case
  proof (cases rule: name_at.cases)
    case (label k ms)
    then have "k = l" using label_at_unique label.hyps by blast
    then show ?thesis using label label.IH by simp
  qed (use b in simp_all)
next
  case (pointer p t ls)
  note t = pointer(3) and pointer_IH = pointer.IH
  have no: "\<not> (ok_label l \<and> stands_at buf p (enc_label l))" for l
    using pointer(2) by (auto elim!: enc_label_Cons)
  from pointer.prems show ?case
  proof (cases rule: name_at.cases)
    case (label l ms)
    then show ?thesis using no by blast
  next
    case pointer
    then show ?thesis using pointer_IH t by simp
  qed (use pointer(2) in simp)
qed
text \<open>An encoding without pointers denotes the labels it encodes.\<close>

lemma name_at_enc_from:
  "\<forall>l \<in> set ls. ok_label l \<Longrightarrow> stands_at buf p (enc_name ls) \<Longrightarrow> p + length (enc_name ls) \<le> eom \<Longrightarrow>
   name_at buf eom p ls"
proof (induction ls arbitrary: p)
  case (Cons l ls)
  have "0 < length (enc_name ls)" "length (enc_name (l # ls)) = length (enc_label l) + length (enc_name ls)"
    by simp_all
  then have "p + length (enc_label l) < eom" using Cons.prems(3) by linarith
  then show ?case using Cons by (intro name_at.label Cons.IH) auto
qed (auto intro: name_at.root)

lemma name_at_enc_name:
  "\<forall>l \<in> set ls. ok_label l \<Longrightarrow> name_at (enc_name ls) (length (enc_name ls)) 0 ls"
  by (rule name_at_enc_from) (simp_all add: stands_at_def)

section \<open>ns_name_unpack\<close>

text \<open>
  The \<open>while\<close> loop with its variables \<open>srcp\<close>, \<open>dst\<close> (the bytes before \<open>dstp\<close>), \<open>len\<close> and
  \<open>checked\<close>. Offsets are natural numbers, so the code's \<open>srcp < msg\<close> can not hold.
\<close>

function unpack_loop ::
  "byte list \<Rightarrow> nat \<Rightarrow> nat \<Rightarrow> nat \<Rightarrow> nat \<Rightarrow> byte list \<Rightarrow> int \<Rightarrow> nat \<Rightarrow> (int \<times> byte list) cres"
where
  "unpack_loop buf eom src dstsiz srcp dst len checked =
     bindE (rd buf srcp) (\<lambda>n.
       if n = 0 then
         bindE (wr dstsiz dst [0]) (\<lambda>dst'.
           Inr (if len < 0 then int (srcp + 1) - int src else len, dst'))
       else if n AND NS_CMPRSFLGS = 0 \<or> n AND NS_CMPRSFLGS = NS_TYPE_ELT then
         bindE (labellen buf srcp) (\<lambda>l.
           if length dst + l + 1 \<ge> dstsiz \<or> srcp + 1 + l \<ge> eom then Inl Fail
           else bindE (wr dstsiz dst [n]) (\<lambda>dst1.
                bindE (rd_n buf (srcp + 1) l) (\<lambda>bs.
                bindE (wr dstsiz dst1 bs) (\<lambda>dst2.
                  unpack_loop buf eom src dstsiz (srcp + 1 + l) dst2 len (checked + l + 1)))))
       else if n AND NS_CMPRSFLGS = NS_CMPRSFLGS then
         if srcp + 1 \<ge> eom then Inl Fail
         else bindE (rd buf (srcp + 1)) (\<lambda>b.
                let len' = (if len < 0 then int (srcp + 1) - int src + 1 else len);
                    t = ptr_target n b
                in if t \<ge> eom then Inl Fail
                   else if checked + 2 \<ge> eom then Inl Fail
                   else unpack_loop buf eom src dstsiz t dst len' (checked + 2))
       else Inl Fail)"
  by pat_completeness auto
termination
  by (relation "measure (\<lambda>(buf, eom, src, dstsiz, srcp, dst, len, checked).
        (dstsiz - length dst) + (eom - checked))")
    (auto simp: mem_Inr_iff)

declare unpack_loop.simps [simp del]

definition ns_name_unpack :: "byte list \<Rightarrow> nat \<Rightarrow> nat \<Rightarrow> nat \<Rightarrow> (int \<times> byte list) cres" where
  "ns_name_unpack buf eom src dstsiz =
     (if src \<ge> eom then Inl Fail else unpack_loop buf eom src dstsiz src [] (- 1) 0)"

inductive_cases name_at_rootE: "name_at buf eom p []"
inductive_cases name_at_consE: "name_at buf eom p (l # ls)"

text \<open>How one round of the loop can end in a result: the root, a label, or a compression pointer.\<close>

lemma unpack_loop_InrE:
  assumes "unpack_loop buf eom src dstsiz srcp dst len checked = Inr (r, out)"
    "srcp < eom" "eom \<le> length buf"
  obtains (zero) "buf ! srcp = 0" "out = dst @ [0]" "length out \<le> dstsiz"
      "r = (if len < 0 then int (srcp + 1) - int src else len)"
  | (lab) l dst1 dst2 where "buf ! srcp \<noteq> 0"
      "buf ! srcp AND NS_CMPRSFLGS = 0 \<or> buf ! srcp AND NS_CMPRSFLGS = NS_TYPE_ELT"
      "labellen buf srcp = Inr l" "\<not> (length dst + l + 1 \<ge> dstsiz \<or> srcp + 1 + l \<ge> eom)"
      "wr dstsiz dst [buf ! srcp] = Inr dst1"
      "rd_n buf (srcp + 1) l = Inr (take l (drop (Suc srcp) buf))"
      "wr dstsiz dst1 (take l (drop (Suc srcp) buf)) = Inr dst2"
      "dst2 = dst @ buf ! srcp # take l (drop (Suc srcp) buf)"
      "unpack_loop buf eom src dstsiz (srcp + 1 + l) dst2 len (checked + l + 1) = Inr (r, out)"
  | (ptr) len' where "buf ! srcp \<noteq> 0" "\<not> (buf ! srcp AND NS_CMPRSFLGS = 0 \<or> buf ! srcp AND NS_CMPRSFLGS = NS_TYPE_ELT)"
      "buf ! srcp AND NS_CMPRSFLGS = NS_CMPRSFLGS" "\<not> srcp + 1 \<ge> eom"
      "rd buf (srcp + 1) = Inr (buf ! (srcp + 1))"
      "len' = (if len < 0 then int (srcp + 1) - int src + 1 else len)"
      "\<not> ptr_target (buf ! srcp) (buf ! (srcp + 1)) \<ge> eom" "\<not> checked + 2 \<ge> eom"
      "unpack_loop buf eom src dstsiz (ptr_target (buf ! srcp) (buf ! (srcp + 1))) dst len' (checked + 2)
         = Inr (r, out)"
proof -
  have rd: "rd buf srcp = Inr (buf ! srcp)" using assms(2,3) by (simp add: mem_simps)
  note step = assms(1) [unfolded unpack_loop.simps [of buf eom src dstsiz srcp] rd bindE_simps]
  consider (a) "buf ! srcp = 0"
    | (b) "buf ! srcp \<noteq> 0" "buf ! srcp AND NS_CMPRSFLGS = 0 \<or> buf ! srcp AND NS_CMPRSFLGS = NS_TYPE_ELT"
    | (c) "buf ! srcp \<noteq> 0" "buf ! srcp AND NS_CMPRSFLGS = NS_CMPRSFLGS"
    using step by (auto split: if_splits)
  then show ?thesis
  proof cases
    case a
    with step show ?thesis by (auto simp: bindE_Inr_iff mem_Inr_iff intro: zero)
  next
    case b
    from b step obtain l where l: "labellen buf srcp = Inr l" "\<not> (length dst + l + 1 \<ge> dstsiz \<or> srcp + 1 + l \<ge> eom)"
      by (auto simp: bindE_Inr_iff split: if_splits)
    with b step show ?thesis
      by (intro lab [OF b l]) (auto simp: bindE_Inr_iff mem_Inr_iff)
  next
    case c
    with step have "\<not> srcp + 1 \<ge> eom" by (auto split: if_splits)
    moreover from this have "rd buf (srcp + 1) = Inr (buf ! (srcp + 1))"
      using assms(3) by (simp add: mem_simps)
    ultimately show ?thesis
      using c step by (intro ptr [OF c(1) _ c(2) _ _ refl]) (auto simp: Let_def split: if_splits)
  qed
qed

text \<open>
  Refinement: whatever the loop returns, the bytes it appended encode a list of labels that the
  message denotes at \<open>srcp\<close>.
\<close>

lemma unpack_loop_sound:
  assumes "unpack_loop buf eom src dstsiz srcp dst len checked = Inr (r, out)"
    "srcp < eom" "eom \<le> length buf"
  shows "\<exists>ls. name_at buf eom srcp ls \<and> (\<forall>l \<in> set ls. ok_label l) \<and> out = dst @ enc_name ls
    \<and> length out \<le> dstsiz"
  using assms
proof (induction buf eom src dstsiz srcp dst len checked rule: unpack_loop.induct)
  case (1 buf eom src dstsiz srcp dst len checked)
  have rd: "rd buf srcp = Inr (buf ! srcp)" using "1.prems"(2,3) by (simp add: mem_simps)
  from "1.prems" show ?case
  proof (cases rule: unpack_loop_InrE)
    case zero
    with "1.prems"(2) show ?thesis
      by (intro exI [of _ "[]"]) (simp add: name_at.root)
  next
    case (lab l dst1 dst2)
    have len: "srcp + l < length buf" using lab(4) "1.prems"(3) by simp
    obtain k where k: "ok_label k" "enc_label k = buf ! srcp # take l (drop (Suc srcp) buf)"
      using lab(3) len lab(1,2) by (rule label_at)
    have size: "length (enc_label k) = Suc l" using k(2) len by simp
    obtain ls where ls: "name_at buf eom (srcp + Suc l) ls" "\<forall>l \<in> set ls. ok_label l"
        "out = dst2 @ enc_name ls" "length out \<le> dstsiz"
      using "1.IH"(1) [OF rd lab(1-7,9)] lab(4) "1.prems"(3) by auto
    have "stands_at buf srcp (enc_label k)"
      using k(2) len stands_at_take [of "Suc srcp" l buf] by simp
    then have "name_at buf eom srcp (k # ls)"
      using k(1) ls(1) lab(4) by (intro name_at.label) (simp_all add: size)
    then show ?thesis
      using ls k lab(8) by (intro exI [of _ "k # ls"]) simp
  next
    case (ptr len')
    then show ?thesis
      using "1.IH"(2) [OF rd ptr(1-6) refl ptr(7-9)] "1.prems"(3) name_at.pointer [of srcp eom buf]
      by auto
  qed
qed

text \<open>
  The consumed length agrees with \<open>ns_name_skip\<close>: skipping the encoded name stops exactly where
  unpacking says the name ends. \<open>len\<close> is fixed by the first compression pointer.
\<close>

lemma name_skip_loop_label:
  assumes "cp < eom" "eom \<le> length buf" "buf ! cp \<noteq> 0" "labellen buf cp = Inr l"
    "buf ! cp AND NS_CMPRSFLGS = 0 \<or> buf ! cp AND NS_CMPRSFLGS = NS_TYPE_ELT"
  shows "name_skip_loop buf eom cp = name_skip_loop buf eom (cp + 1 + l)"
  using assms
  by (subst name_skip_loop.simps) (auto simp: mem_simps labellen_def byte_class)

lemma unpack_loop_skip:
  assumes "unpack_loop buf eom src dstsiz srcp dst len checked = Inr (r, out)"
    "srcp < eom" "eom \<le> length buf"
  shows "(len \<ge> 0 \<longrightarrow> r = len) \<and> (len < 0 \<longrightarrow> src \<le> srcp \<longrightarrow>
    (\<exists>cp. name_skip_loop buf eom srcp = Inr cp \<and> src < cp \<and> cp \<le> eom \<and> r = int cp - int src))"
  using assms
proof (induction buf eom src dstsiz srcp dst len checked rule: unpack_loop.induct)
  case (1 buf eom src dstsiz srcp dst len checked)
  have rd: "rd buf srcp = Inr (buf ! srcp)" using "1.prems"(2,3) by (simp add: mem_simps)
  from "1.prems" show ?case
  proof (cases rule: unpack_loop_InrE)
    case zero
    then show ?thesis
      using rd "1.prems"(2) by (auto simp: name_skip_loop.simps [of buf eom srcp])
  next
    case (lab l dst1 dst2)
    then show ?thesis
      using "1.IH"(1) [OF rd lab(1-7,9)] "1.prems"(2,3)
        name_skip_loop_label [of srcp eom buf l] by auto
  next
    case (ptr len')
    moreover have "name_skip_loop buf eom srcp = Inr (srcp + 2)"
      using rd ptr "1.prems"(2) by (subst name_skip_loop.simps) simp
    ultimately show ?thesis
      using "1.IH"(2) [OF rd ptr(1-6) refl ptr(7-9)] "1.prems"(3) by auto
  qed
qed

text \<open>
  Memory safety. The reads of the message stay below \<open>eom + 1\<close> (one byte more than the message,
  because of \<open>labellen\<close>), and every write stays inside the \<open>dstsiz\<close> bytes of the result.
\<close>

lemma unpack_loop_safe:
  assumes "eom < length buf" "srcp < eom" "length dst < dstsiz"
  shows "safe (unpack_loop buf eom src dstsiz srcp dst len checked)"
  using assms
proof (induction buf eom src dstsiz srcp dst len checked rule: unpack_loop.induct)
  case (1 buf eom src dstsiz srcp dst len checked)
  have rd: "rd buf srcp = Inr (buf ! srcp)"
    using "1.prems" by (simp add: mem_simps)
  have rd1: "\<not> eom \<le> Suc srcp \<Longrightarrow> rd buf (Suc srcp) = Inr (buf ! Suc srcp)"
    using "1.prems" by (simp add: mem_simps)
  have lab: "safe (labellen buf srcp)" using "1.prems" by (simp add: labellen_safe)
  have rdn: "\<not> eom \<le> Suc (srcp + l) \<Longrightarrow> rd_n buf (Suc srcp) l = Inr (take l (drop (Suc srcp) buf))"
    "\<not> eom \<le> Suc (srcp + l) \<Longrightarrow> length (take l (drop (Suc srcp) buf)) = l" for l
    using "1.prems" by (simp_all add: mem_simps)
  note IH = "1.IH" [OF rd, simplified]
  show ?case
    using "1.prems"
    by (subst unpack_loop.simps)
      (auto simp: rd rd1 Let_def rdn mem_simps simp del: length_take intro!: safe_bindE lab IH)
qed

lemma ns_name_unpack_safe: "eom < length buf \<Longrightarrow> 0 < dstsiz \<Longrightarrow> safe (ns_name_unpack buf eom src dstsiz)"
  by (simp add: ns_name_unpack_def unpack_loop_safe)

lemma mild_unpack [mild_rules]: "mild (ns_name_unpack buf eom src dstsiz)"
proof -
  have "mild (unpack_loop buf eom src dstsiz srcp dst len checked)" for srcp dst len checked
  proof (induction buf eom src dstsiz srcp dst len checked rule: unpack_loop.induct)
    case (1 buf eom src dstsiz srcp dst len checked)
    then show ?case by (subst unpack_loop.simps) (auto simp: Let_def intro!: mild_rules)
  qed
  then show ?thesis by (simp add: ns_name_unpack_def)
qed

text \<open>An uncompressed name that fits is unpacked to itself.\<close>

lemma unpack_loop_label:
  assumes "ok_label l" "stands_at buf srcp (enc_label l)" "srcp + length (enc_label l) < eom"
    "eom \<le> length buf" "length dst + length (enc_label l) < dstsiz"
  shows "unpack_loop buf eom src dstsiz srcp dst len checked =
    unpack_loop buf eom src dstsiz (srcp + length (enc_label l)) (dst @ enc_label l) len
      (checked + length (enc_label l))"
proof -
  obtain n rest where l: "enc_label l = n # rest" "n \<noteq> 0"
    "n AND NS_CMPRSFLGS = 0 \<or> n AND NS_CMPRSFLGS = NS_TYPE_ELT"
    using assms(1) by (rule enc_label_Cons)
  have lab: "labellen buf srcp = Inr (length rest)" using labellen_enc [OF assms(1,2)] l(1) by simp
  have "stands_at buf (Suc srcp) rest" "rd buf srcp = Inr n"
    using assms(2-4) l(1) by (auto simp: mem_simps)
  moreover from this have "rd_n buf (Suc srcp) (length rest) = Inr rest"
    using assms(3,4) l(1) by (intro rd_n_stands_at) simp_all
  ultimately show ?thesis
    using assms l lab by (subst unpack_loop.simps) (auto simp: mem_simps)
qed

lemma unpack_loop_plain:
  assumes "\<forall>l \<in> set ls. ok_label l" "stands_at buf srcp (enc_name ls)"
    "srcp + length (enc_name ls) \<le> eom" "eom \<le> length buf"
    "length dst + length (enc_name ls) \<le> dstsiz"
  shows "unpack_loop buf eom src dstsiz srcp dst (- 1) checked =
    Inr (int (srcp + length (enc_name ls)) - int src, dst @ enc_name ls)"
  using assms
proof (induction ls arbitrary: srcp dst checked)
  case Nil
  then show ?case by (subst unpack_loop.simps) (simp add: mem_simps)
next
  case (Cons l ls)
  have pos: "0 < length (enc_name ls)" by simp
  have "unpack_loop buf eom src dstsiz srcp dst (- 1) checked =
    unpack_loop buf eom src dstsiz (srcp + length (enc_label l)) (dst @ enc_label l) (- 1)
      (checked + length (enc_label l))"
    using Cons.prems pos by (intro unpack_loop_label) (auto simp del: length_greater_0_conv)
  also have "\<dots> = Inr (int (srcp + length (enc_name (l # ls))) - int src, dst @ enc_name (l # ls))"
    using Cons.prems by (subst Cons.IH) (auto simp: add.assoc)
  finally show ?case .
qed

lemma ns_name_unpack_plain:
  assumes "\<forall>l \<in> set ls. ok_label l" "stands_at buf src (enc_name ls)"
    "src + length (enc_name ls) \<le> eom" "eom \<le> length buf" "length (enc_name ls) \<le> dstsiz"
  shows "ns_name_unpack buf eom src dstsiz = Inr (int (length (enc_name ls)), enc_name ls)"
proof -
  have "0 < length (enc_name ls)" by simp
  then have "src < eom" using assms(3) by linarith
  then show ?thesis
    using assms unpack_loop_plain [of ls buf src eom "[]" dstsiz src 0]
    by (simp add: ns_name_unpack_def)
qed

lemma ns_name_unpack_InrE:
  assumes "ns_name_unpack buf eom src dstsiz = Inr (n, out)" "eom \<le> length buf"
  obtains ls where "name_at buf eom src ls" "\<forall>l \<in> set ls. ok_label l" "out = enc_name ls"
    "length out \<le> dstsiz" "dn_skipname buf eom src = Inr (nat n)" "0 < n" "src + nat n \<le> eom"
proof -
  have src: "src < eom" and run: "unpack_loop buf eom src dstsiz src [] (- 1) 0 = Inr (n, out)"
    using assms(1) by (auto simp: ns_name_unpack_def split: if_splits)
  obtain cp where "name_skip_loop buf eom src = Inr cp" "src < cp" "cp \<le> eom" "n = int cp - int src"
    using unpack_loop_skip [OF run src assms(2)] by auto
  then show ?thesis
    using unpack_loop_sound [OF run src assms(2)] that
    by (auto simp: dn_skipname_def ns_name_skip_def)
qed

section \<open>Properties\<close>

text \<open>
  C20. Decompression is right: what \<open>ns_name_unpack\<close> produces is the uncompressed encoding of the
  labels the message denotes at the offset, through any number of compression pointers, and the
  number it returns is the number of bytes \<open>dn_skipname\<close> skips there, inside the message.
\<close>

theorem ns_name_unpack_sound:
  assumes "ns_name_unpack buf eom src dstsiz = Inr (n, out)" "eom \<le> length buf"
  shows "\<exists>ls. name_at buf eom src ls \<and> (\<forall>l \<in> set ls. ok_label l) \<and> out = enc_name ls
    \<and> length out \<le> dstsiz \<and> dn_skipname buf eom src = Inr (nat n) \<and> 0 < n \<and> src + nat n \<le> eom"
  using assms by (rule ns_name_unpack_InrE) blast

text \<open>The name \<open>a.b\<close> whose second label is behind a compression pointer to offset 2.\<close>

lemma ns_name_unpack_sound_witness:
  "ns_name_unpack [1, 0x62, 1, 0x62, 0, 1, 0x61, 0xC0, 2] 9 5 255 = Inr (4, [1, 0x61, 1, 0x62, 0]) \<and>
   name_at [1, 0x62, 1, 0x62, 0, 1, 0x61, 0xC0, 2] 9 5 [Plain [0x61], Plain [0x62]]"
proof -
  let ?buf = "[1, 0x62, 1, 0x62, 0, 1, 0x61, 0xC0, 2] :: byte list"
  have u: "ns_name_unpack ?buf 9 5 255 = Inr (4, [1, 0x61, 1, 0x62, 0])"
    by code_simp
  then obtain ls where ls: "name_at ?buf 9 5 ls" "enc_name ls = [1, 0x61, 1, 0x62, 0]" "\<forall>l \<in> set ls. ok_label l"
    using ns_name_unpack_sound [OF u] by auto
  have "ls = [Plain [0x61], Plain [0x62]]"
  proof (rule name_at_unique)
    show "name_at (enc_name ls) 5 0 [Plain [0x61], Plain [0x62]]"
      unfolding ls(2) by (intro name_at.intros) simp_all
    have "name_at (enc_name ls) (length (enc_name ls)) 0 ls" by (rule name_at_enc_name) (rule ls(3))
    then show "name_at (enc_name ls) 5 0 ls" using ls(2) by (simp add: eval_nat_numeral)
  qed
  with u ls show ?thesis by simp
qed

text \<open>
  C25. Decompression is safe and ends: for every message, hostile or not, with at least one byte of
  the buffer behind it, \<open>ns_name_unpack\<close> returns \<open>-1\<close> or a name; it neither loops on compression
  pointers nor writes behind the destination nor reads outside the buffer.
\<close>

theorem ns_name_unpack_total:
  assumes "eom < length buf" "0 < dstsiz"
  shows "ns_name_unpack buf eom src dstsiz = Inl Fail
    \<or> (\<exists>n out. ns_name_unpack buf eom src dstsiz = Inr (n, out) \<and> length out \<le> dstsiz)"
proof (cases rule: safe_cases [OF ns_name_unpack_safe [OF assms, of src]])
  case (2 r)
  obtain n out where r: "r = (n, out)" by (cases r)
  with 2 have "ns_name_unpack buf eom src dstsiz = Inr (n, out)" by simp
  moreover from this have "length out \<le> dstsiz"
    by (rule ns_name_unpack_InrE) (use assms in auto)
  ultimately show ?thesis by blast
qed blast

text \<open>The witness is a pointer that points at itself.\<close>

lemma ns_name_unpack_total_witness:
  "ns_name_unpack [0xC0, 0, 0] 2 0 255 = Inl Fail
    \<or> (\<exists>n out. ns_name_unpack [0xC0, 0, 0] 2 0 255 = Inr (n, out) \<and> length out \<le> 255)"
  by (rule ns_name_unpack_total) simp_all

end
