(* ===== verification/Names.thy ===== *)
theory Names
  imports Unpack
begin

text \<open>
  From the encoded name to text: \<open>ns_name_ntop\<close> and its helper for bit string labels,
  \<open>decode_bitstring\<close>, of resolv.c, and the text of a list of labels that they print. The
  destination buffer of \<open>ntop\<close> is the list of bytes written so far (\<open>dn - dst\<close> is its length) and
  every \<open>*dn++\<close> is a checked write, so staying inside \<open>dstsiz\<close> bytes is a theorem about the
  guards, not an assumption.
\<close>

section \<open>Characters\<close>

abbreviation (input) CH_dot :: byte where "CH_dot \<equiv> 0x2E"
abbreviation (input) CH_bslash :: byte where "CH_bslash \<equiv> 0x5C"
abbreviation (input) CH_lbrack :: byte where "CH_lbrack \<equiv> 0x5B"
abbreviation (input) CH_rbrack :: byte where "CH_rbrack \<equiv> 0x5D"
abbreviation (input) CH_slash :: byte where "CH_slash \<equiv> 0x2F"
abbreviation (input) CH_x :: byte where "CH_x \<equiv> 0x78"
abbreviation (input) CH_0 :: byte where "CH_0 \<equiv> 0x30"

text \<open>The characters that need quoting: \<open>"\<close>, \<open>.\<close>, \<open>;\<close>, \<open>\\<close>, \<open>(\<close>, \<open>)\<close>, \<open>@\<close>, \<open>$\<close>.\<close>

definition special :: "byte \<Rightarrow> bool" where
  "special ch \<longleftrightarrow> ch \<in> {0x22, CH_dot, 0x3B, CH_bslash, 0x28, 0x29, 0x40, 0x24}"

definition printable :: "byte \<Rightarrow> bool" where
  "printable ch \<longleftrightarrow> 0x20 < unat ch \<and> unat ch < 0x7F"

text \<open>\<open>digits[k]\<close>, and \<open>strchr(digits, c) - digits\<close> for a character that is found.\<close>

definition digits :: "nat \<Rightarrow> byte" where
  "digits k = CH_0 + word_of_nat k"

definition isdigit :: "byte \<Rightarrow> bool" where
  "isdigit c \<longleftrightarrow> 0x30 \<le> unat c \<and> unat c \<le> 0x39"

definition digit_index :: "byte \<Rightarrow> nat" where
  "digit_index c = unat c - 0x30"

text \<open>The table \<open>digitvalue\<close>, and \<open>isxdigit\<close> of the C locale.\<close>

definition digitvalue :: "byte \<Rightarrow> int" where
  "digitvalue c =
     (if isdigit c then int (unat c) - 0x30
      else if 0x41 \<le> unat c \<and> unat c \<le> 0x46 then int (unat c) - 0x41 + 10
      else if 0x61 \<le> unat c \<and> unat c \<le> 0x66 then int (unat c) - 0x61 + 10
      else - 1)"

definition isxdigit :: "byte \<Rightarrow> bool" where
  "isxdigit c \<longleftrightarrow> digitvalue c \<ge> 0"

text \<open>The conversions \<open>%d\<close>, \<open>%x\<close> and \<open>%02x\<close> of \<open>sprintf\<close> for a non-negative argument.\<close>

fun dec_text :: "nat \<Rightarrow> cstr" where
  "dec_text n = (if n < 10 then [digits n] else dec_text (n div 10) @ [digits (n mod 10)])"

definition hexdigit :: "nat \<Rightarrow> byte" where
  "hexdigit k = (if k < 10 then digits k else 0x61 + word_of_nat (k - 10))"

fun hex_text :: "nat \<Rightarrow> cstr" where
  "hex_text n = (if n < 16 then [hexdigit n] else hex_text (n div 16) @ [hexdigit (n mod 16)])"

declare dec_text.simps [simp del] hex_text.simps [simp del]

definition sprintf_02x :: "nat \<Rightarrow> cstr" where
  "sprintf_02x v = (if v < 16 then CH_0 # hex_text v else hex_text v)"

section \<open>decode_bitstring\<close>

text \<open>
  The last byte of the bit data. In the branch \<open>b > 4\<close> the byte is read into a plain \<open>char\<close>, which
  is signed on the platforms sans is built for first (x86), and promoted to \<open>int\<close> before the mask
  is applied: bits above the byte survive. In the branch \<open>b > 0\<close> the value is cut to a nibble first.
\<close>

definition tail_byte :: "byte \<Rightarrow> nat \<Rightarrow> nat" where
  "tail_byte tc b = unat ((scast tc :: 32 word) AND push_bit (8 - b) 0xFF)"

definition tail_nibble :: "byte \<Rightarrow> nat \<Rightarrow> nat" where
  "tail_nibble tc b = unat ((signed_drop_bit 4 (scast tc :: 32 word) AND 0x0F) AND push_bit (4 - b) 0x0F)"

text \<open>The \<open>for\<close> loop over whole bytes: what is left of \<open>b\<close>, \<open>cp\<close> and \<open>dn\<close>.\<close>

fun decode_bytes :: "byte list \<Rightarrow> nat \<Rightarrow> nat \<Rightarrow> nat \<Rightarrow> cstr \<Rightarrow> (nat \<times> nat \<times> cstr) cres" where
  "decode_bytes src dstsiz b cp dn =
     (if b > 7 then
        bindE (rd src cp) (\<lambda>c. bindE (wr_str dstsiz dn (sprintf_02x (unat c))) (\<lambda>dn'.
          decode_bytes src dstsiz (b - 8) (cp + 1) dn'))
      else Inr (b, cp, dn))"

declare decode_bytes.simps [simp del]

text \<open>The rest of the last byte: two hex digits if more than four bits are left, else one.\<close>

definition decode_tail :: "byte list \<Rightarrow> nat \<Rightarrow> nat \<Rightarrow> nat \<Rightarrow> cstr \<Rightarrow> (nat \<times> cstr) cres" where
  "decode_tail src dstsiz b cp dn =
     (if b > 4 then
        bindE (rd src cp) (\<lambda>tc. bindE (wr_str dstsiz dn (sprintf_02x (tail_byte tc b))) (\<lambda>dn'.
          Inr (cp + 1, dn')))
      else if b > 0 then
        bindE (rd src cp) (\<lambda>tc. bindE (wr_str dstsiz dn (hex_text (tail_nibble tc b))) (\<lambda>dn'.
          Inr (cp + 1, dn')))
      else Inr (cp, dn))"

text \<open>The room \<open>plen\<close> the code asks for before it writes anything; \<open>sizeof("\[x/]")\<close> is 6.\<close>

definition bits_plen :: "nat \<Rightarrow> nat" where
  "bits_plen blen = (blen + 3) div 4 + (6 + (if blen > 99 then 3 else if blen > 9 then 2 else 1))"

definition decode_bitstring :: "byte list \<Rightarrow> nat \<Rightarrow> nat \<Rightarrow> cstr \<Rightarrow> (nat \<times> cstr) cres" where
  "decode_bitstring src dstsiz cp dn = bindE (rd src cp) (\<lambda>c.
     let blen = bitlen c in
     if length dn + bits_plen blen \<ge> dstsiz then Inl Fail
     else bindE (wr_str dstsiz dn [CH_bslash, CH_lbrack, CH_x]) (\<lambda>dn1.
          bindE (decode_bytes src dstsiz blen (cp + 1) dn1) (\<lambda>(b, cp2, dn2).
          bindE (decode_tail src dstsiz b cp2 dn2) (\<lambda>(cp3, dn3).
          bindE (wr_str dstsiz dn3 (CH_slash # dec_text blen @ [CH_rbrack])) (\<lambda>dn4.
            Inr (cp3, dn4))))))"

section \<open>ns_name_ntop\<close>

text \<open>The inner \<open>for\<close> loop over the \<open>l\<close> bytes of an ordinary label.\<close>

fun ntop_label :: "byte list \<Rightarrow> nat \<Rightarrow> nat \<Rightarrow> nat \<Rightarrow> cstr \<Rightarrow> (nat \<times> cstr) cres" where
  "ntop_label src dstsiz 0 cp dn = Inr (cp, dn)"
| "ntop_label src dstsiz (Suc l) cp dn = bindE (rd src cp) (\<lambda>c.
     if special c then
       if length dn + 1 \<ge> dstsiz then Inl Fail
       else bindE (wr dstsiz dn [CH_bslash, c]) (\<lambda>dn'. ntop_label src dstsiz l (cp + 1) dn')
     else if \<not> printable c then
       if length dn + 3 \<ge> dstsiz then Inl Fail
       else bindE (wr dstsiz dn [CH_bslash, digits (unat c div 100),
              digits ((unat c mod 100) div 10), digits (unat c mod 10)])
              (\<lambda>dn'. ntop_label src dstsiz l (cp + 1) dn')
     else
       if length dn \<ge> dstsiz then Inl Fail
       else bindE (wr dstsiz dn [c]) (\<lambda>dn'. ntop_label src dstsiz l (cp + 1) dn'))"

lemma ntop_label_cp: "ntop_label src dstsiz l cp dn = Inr (cp', dn') \<Longrightarrow> cp' = cp + l"
  by (induction l arbitrary: cp dn) (fastforce simp: bindE_Inr_iff split: if_splits)+

lemma decode_bytes_cp: "decode_bytes src dstsiz b cp dn = Inr (b', cp', dn') \<Longrightarrow> cp' = cp + b div 8 \<and> b' = b mod 8"
proof (induction src dstsiz b cp dn rule: decode_bytes.induct)
  case (1 src dstsiz b cp dn)
  show ?case
  proof (cases "b > 7")
    case True
    with "1.prems" obtain c dn1 where c: "rd src cp = Inr c"
      "wr_str dstsiz dn (sprintf_02x (unat c)) = Inr dn1"
      "decode_bytes src dstsiz (b - 8) (cp + 1) dn1 = Inr (b', cp', dn')"
      by (subst (asm) decode_bytes.simps) (auto simp: bindE_Inr_iff)
    have "cp' = cp + 1 + (b - 8) div 8 \<and> b' = (b - 8) mod 8" by (rule "1.IH" [OF True c])
    moreover obtain m where "b = m + 8" using that [of "b - 8"] True by simp
    ultimately show ?thesis by simp
  next
    case False
    with "1.prems" show ?thesis by (subst (asm) decode_bytes.simps) simp
  qed
qed

lemma decode_tail_cp: "decode_tail src dstsiz b cp dn = Inr (cp', dn') \<Longrightarrow> cp' = cp + (if b > 0 then 1 else 0)"
  by (auto simp: decode_tail_def bindE_Inr_iff split: if_splits)

lemma decode_bitstring_cp:
  assumes "decode_bitstring src dstsiz cp dn = Inr (cp', dn')"
  shows "cp < length src" "cp' = cp + 1 + (bitlen (src ! cp) + 7) div 8"
proof -
  have "(n + 7) div 8 = n div 8 + (if n mod 8 > 0 then 1 else 0)" for n :: nat by presburger
  then show "cp' = cp + 1 + (bitlen (src ! cp) + 7) div 8"
    using assms
    by (auto simp: decode_bitstring_def bindE_Inr_iff rd_Inr_iff Let_def
        split: if_splits prod.splits dest!: decode_bytes_cp decode_tail_cp)
  show "cp < length src"
    using assms by (auto simp: decode_bitstring_def bindE_Inr_iff rd_Inr_iff)
qed

text \<open>The outer loop; it ends at the zero byte with the text written so far.\<close>

function ntop_loop :: "byte list \<Rightarrow> nat \<Rightarrow> nat \<Rightarrow> cstr \<Rightarrow> cstr cres" where
  "ntop_loop src dstsiz cp dn = bindE (rd src cp) (\<lambda>n.
     if n = 0 then Inr dn
     else if n AND NS_CMPRSFLGS = NS_CMPRSFLGS then Inl Fail
     else bindE (if dn \<noteq> [] then
                   if length dn \<ge> dstsiz then Inl Fail else wr dstsiz dn [CH_dot]
                 else Inr dn) (\<lambda>dn1.
          bindE (labellen src cp) (\<lambda>l.
            if length dn1 + l \<ge> dstsiz then Inl Fail
            else if n AND NS_CMPRSFLGS = NS_TYPE_ELT then
              if n \<noteq> DNS_LABELTYPE_BITSTRING then Inl Fail
              else bindE (decode_bitstring src dstsiz (cp + 1) dn1) (\<lambda>(cp', dn').
                     ntop_loop src dstsiz cp' dn')
            else bindE (ntop_label src dstsiz l (cp + 1) dn1) (\<lambda>(cp', dn').
                   ntop_loop src dstsiz cp' dn'))))"
  by pat_completeness auto
termination
  by (relation "measure (\<lambda>(src, dstsiz, cp, dn). length src - cp)")
    (auto simp: rd_Inr_iff dest!: ntop_label_cp decode_bitstring_cp)

declare ntop_loop.simps [simp del]

text \<open>
  \<open>ns_name_ntop\<close> returns the number of bytes written, the length of the text plus one for the NUL;
  the model returns the text.
\<close>

definition ns_name_ntop :: "byte list \<Rightarrow> nat \<Rightarrow> cstr cres" where
  "ns_name_ntop src dstsiz = bindE (ntop_loop src dstsiz 0 []) (\<lambda>dn.
     bindE (if dn = [] then if length dn \<ge> dstsiz then Inl Fail else wr dstsiz dn [CH_dot]
            else Inr dn) (\<lambda>dn1.
     if length dn1 \<ge> dstsiz then Inl Fail
     else bindE (wr dstsiz dn1 [0]) (\<lambda>_. Inr dn1)))"

lemma mild_ntop_label [mild_rules]: "mild (ntop_label src dstsiz l cp dn)"
  by (induction l arbitrary: cp dn) (auto intro!: mild_rules)

lemma mild_decode [mild_rules]: "mild (decode_bitstring src dstsiz cp dn)"
proof -
  have "mild (decode_bytes src dstsiz b cp dn)" for b cp dn
  proof (induction src dstsiz b cp dn rule: decode_bytes.induct)
    case (1 src dstsiz b cp dn)
    then show ?case by (subst decode_bytes.simps) (auto intro!: mild_rules)
  qed
  moreover have "mild (decode_tail src dstsiz b cp dn)" for b cp dn
    by (auto simp: decode_tail_def intro!: mild_rules)
  ultimately show ?thesis by (auto simp: decode_bitstring_def Let_def intro!: mild_rules split: prod.split)
qed

lemma mild_ntop [mild_rules]: "mild (ns_name_ntop src dstsiz)"
proof -
  have "mild (ntop_loop src dstsiz cp dn)" for cp dn
  proof (induction src dstsiz cp dn rule: ntop_loop.induct)
    case (1 src dstsiz cp dn)
    then show ?case by (subst ntop_loop.simps) (auto intro!: mild_rules split: prod.split)
  qed
  then show ?thesis by (auto simp: ns_name_ntop_def intro!: mild_rules)
qed

section \<open>The text the code prints for a name\<close>

text \<open>
  What the loops above write for a list of labels, with the code's own conversions, the wide digits of
  \<open>tail_byte\<close> included. It is not the text a name should have: that is \<open>rfc_name\<close> of theory Nametext, which
  also shows for which labels the two agree.
\<close>

definition text_char :: "byte \<Rightarrow> cstr" where
  "text_char c =
     (if special c then [CH_bslash, c]
      else if \<not> printable c then
        [CH_bslash, digits (unat c div 100), digits ((unat c mod 100) div 10), digits (unat c mod 10)]
      else [c])"

definition text_bits :: "byte \<Rightarrow> byte list \<Rightarrow> cstr" where
  "text_bits n d =
     (let q = bitlen n div 8; r = bitlen n mod 8 in
      [CH_bslash, CH_lbrack, CH_x] @ concat (map (\<lambda>c. sprintf_02x (unat c)) (take q d))
      @ (if r > 4 then sprintf_02x (tail_byte (d ! q) r)
         else if r > 0 then hex_text (tail_nibble (d ! q) r) else [])
      @ CH_slash # dec_text (bitlen n) @ [CH_rbrack])"

fun text_label :: "label \<Rightarrow> cstr" where
  "text_label (Plain cs) = concat (map text_char cs)"
| "text_label (Bits n d) = text_bits n d"

text \<open>The labels are written one after the other, with a dot before each that does not come first.\<close>

fun text_from :: "cstr \<Rightarrow> label list \<Rightarrow> cstr" where
  "text_from dn [] = dn"
| "text_from dn (l # ls) = text_from ((if dn \<noteq> [] then dn @ [CH_dot] else dn) @ text_label l) ls"

definition text_name :: "label list \<Rightarrow> cstr" where
  "text_name ls = (if ls = [] then [CH_dot] else text_from [] ls)"

lemma text_char_not_Nil [simp]: "text_char c \<noteq> []"
  by (simp add: text_char_def)

lemma length_text_char: "1 \<le> length (text_char c)" "length (text_char c) \<le> 4"
  by (simp_all add: text_char_def)

lemma text_label_not_Nil: "ok_label l \<Longrightarrow> text_label l \<noteq> []"
  by (cases l) (auto simp: text_bits_def Let_def)

lemma text_from_not_Nil: "dn \<noteq> [] \<Longrightarrow> text_from dn ls \<noteq> []"
  by (induction ls arbitrary: dn) auto

lemma text_from_length: "length dn \<le> length (text_from dn ls)"
proof (induction ls arbitrary: dn)
  case (Cons l ls)
  show ?case
    using Cons.IH [of "(if dn \<noteq> [] then dn @ [CH_dot] else dn) @ text_label l"] by (auto split: if_splits)
qed simp

subsection \<open>Lengths of the converted numbers\<close>

lemma length_hex_text: "n < 16 \<Longrightarrow> length (hex_text n) = 1"
  "n < 256 \<Longrightarrow> length (hex_text n) \<le> 2" "n < 4096 \<Longrightarrow> length (hex_text n) \<le> 3"
proof -
  show 1: "n < 16 \<Longrightarrow> length (hex_text n) = 1" for n
    by (simp add: hex_text.simps)
  show 2: "n < 256 \<Longrightarrow> length (hex_text n) \<le> 2" for n
    using 1 [of "n div 16"] by (simp add: hex_text.simps [of n] less_mult_imp_div_less)
  show "n < 4096 \<Longrightarrow> length (hex_text n) \<le> 3"
    using 2 [of "n div 16"] by (simp add: hex_text.simps [of n] less_mult_imp_div_less)
qed

lemma length_sprintf_02x: "length (sprintf_02x (unat (c :: byte))) = 2"
proof -
  have "16 \<le> unat c \<Longrightarrow> length (hex_text (unat c)) = 2"
    using byte_less_256 [of c]
    by (simp add: hex_text.simps [of "unat c"] length_hex_text(1) less_mult_imp_div_less)
  then show ?thesis by (simp add: sprintf_02x_def length_hex_text(1))
qed

lemma length_sprintf_02x_le: "n < 4096 \<Longrightarrow> length (sprintf_02x n) \<le> 3"
  by (simp add: sprintf_02x_def length_hex_text)

lemma length_dec_text:
  assumes "n < 1000"
  shows "length (dec_text n) = (if n > 99 then 3 else if n > 9 then 2 else 1)"
proof -
  have 1: "n < 10 \<Longrightarrow> length (dec_text n) = 1" for n
    by (simp add: dec_text.simps)
  have 2: "10 \<le> n \<Longrightarrow> n < 100 \<Longrightarrow> length (dec_text n) = 2" for n
    using 1 [of "n div 10"] by (simp add: dec_text.simps [of n] less_mult_imp_div_less)
  have "100 \<le> n \<Longrightarrow> length (dec_text n) = 3"
    using 2 [of "n div 10"] assms by (simp add: dec_text.simps [of n] less_mult_imp_div_less div_le_mono [of 100 n 10, simplified])
  then show ?thesis using 1 2 by auto
qed

lemma tail_byte_less: "4 < b \<Longrightarrow> b < 8 \<Longrightarrow> tail_byte tc b < 4096"
proof -
  assume "4 < b" "b < 8"
  then have b: "b \<in> {5, 6, 7}" by auto
  have "tail_byte tc b \<le> unat (push_bit (8 - b) (0xFF :: 32 word))"
    unfolding tail_byte_def by (metis word_and_le2 word_le_nat_alt and.commute)
  also have "\<dots> < 4096" using b by auto
  finally show ?thesis .
qed

lemma tail_nibble_less: "tail_nibble tc b < 16"
proof -
  have "tail_nibble tc b \<le> unat (0x0F :: 32 word)"
    unfolding tail_nibble_def word_le_nat_alt [symmetric]
    by (rule order_trans [OF word_and_le2 word_and_le1])
  then show ?thesis by simp
qed

subsection \<open>decode_bitstring writes the text of a bit string label\<close>

lemma decode_bytes_ok:
  assumes "cp + b div 8 \<le> length src" "length dn + 2 * (b div 8) + 1 \<le> dstsiz"
  shows "decode_bytes src dstsiz b cp dn =
    Inr (b mod 8, cp + b div 8, dn @ concat (map (\<lambda>c. sprintf_02x (unat c)) (take (b div 8) (drop cp src))))"
  using assms
proof (induction src dstsiz b cp dn rule: decode_bytes.induct)
  case (1 src dstsiz b cp dn)
  show ?case
  proof (cases "b > 7")
    case True
    then obtain m where m: "b = m + 8" using that [of "b - 8"] by simp
    let ?s = "sprintf_02x (unat (src ! cp))"
    have m8: "(m + 8) div 8 = Suc (m div 8)" by simp
    then have rd: "rd src cp = Inr (src ! cp)" and wr: "wr_str dstsiz dn ?s = Inr (dn @ ?s)"
      using "1.prems" m by (simp_all add: rd_ok wr_str_ok length_sprintf_02x)
    have "drop cp src = src ! cp # drop (Suc cp) src"
      using "1.prems" m by (simp add: Cons_nth_drop_Suc)
    then show ?thesis
      using "1.IH" [OF True rd wr] "1.prems" True rd wr m
      by (subst decode_bytes.simps) (simp add: m8 length_sprintf_02x)
  next
    case False
    then show ?thesis by (subst decode_bytes.simps) simp
  qed
qed

lemma length_concat_02x: "length (concat (map (\<lambda>c. sprintf_02x (unat (c :: byte))) cs)) = 2 * length cs"
  by (induction cs) (simp_all add: length_sprintf_02x)

lemma bitlen_bounds: "0 < bitlen n" "bitlen n \<le> 256"
  using byte_less_256 [of n] by (auto simp: bitlen_def byte_zero_iff)

lemma decode_tail_ok:
  assumes "b < 8" "b > 0 \<Longrightarrow> cp < length src \<and> src ! cp = tc" "length dn + 4 \<le> dstsiz"
  shows "decode_tail src dstsiz b cp dn = Inr (cp + (if b > 0 then 1 else 0),
    dn @ (if b > 4 then sprintf_02x (tail_byte tc b) else if b > 0 then hex_text (tail_nibble tc b) else []))"
proof -
  have "b > 4 \<Longrightarrow> length (sprintf_02x (tail_byte tc b)) \<le> 3"
    using assms(1) by (intro length_sprintf_02x_le tail_byte_less) auto
  moreover have "length (hex_text (tail_nibble tc b)) = 1"
    by (rule length_hex_text(1) [OF tail_nibble_less])
  ultimately show ?thesis
    using assms(2,3) by (auto simp: decode_tail_def mem_simps)
qed

lemma length_text_bits: "length d = (bitlen n + 7) div 8 \<Longrightarrow> length (text_bits n d) \<le> bits_plen (bitlen n)"
proof -
  assume d: "length d = (bitlen n + 7) div 8"
  define q r where "q = bitlen n div 8" and "r = bitlen n mod 8"
  have bl: "bitlen n = 8 * q + r" "r < 8" by (simp_all add: q_def r_def)
  have "length (concat (map (\<lambda>c. sprintf_02x (unat c)) (take q d))) = 2 * q"
    using d bl by (simp only: length_concat_02x) auto
  moreover have "r > 4 \<Longrightarrow> length (sprintf_02x (tail_byte (d ! q) r)) \<le> 3"
    using bl(2) by (intro length_sprintf_02x_le tail_byte_less)
  moreover have "length (hex_text (tail_nibble (d ! q) r)) = 1"
    by (rule length_hex_text(1) [OF tail_nibble_less])
  ultimately show ?thesis
    using bl bitlen_bounds(2) [of n]
    by (auto simp: text_bits_def bits_plen_def length_dec_text Let_def simp flip: q_def r_def)
qed

text \<open>
  On the bytes of a bit string label, \<open>decode_bitstring\<close> either has too little room or writes
  exactly \<open>text_bits\<close>; it never reads past the label nor writes past the buffer.
\<close>

lemma decode_bitstring_ok:
  assumes "stands_at src cp (n # d)" "length d = (bitlen n + 7) div 8"
  shows "decode_bitstring src dstsiz cp dn =
    (if length dn + bits_plen (bitlen n) \<ge> dstsiz then Inl Fail else Inr (cp + 1 + length d, dn @ text_bits n d))"
proof (cases "length dn + bits_plen (bitlen n) \<ge> dstsiz")
  case True
  then show ?thesis
    using assms(1) by (auto simp: decode_bitstring_def mem_simps)
next
  case False
  define q r where "q = bitlen n div 8" and "r = bitlen n mod 8"
  have bl: "bitlen n = 8 * q + r" "r < 8" by (simp_all add: q_def r_def)
  have lend: "length d = q + (if r > 0 then 1 else 0)"
    using assms(2) bl by auto
  have room: "length dn + (2 * q + (if r > 4 then 2 else if r > 0 then 1 else 0)
      + (6 + length (dec_text (bitlen n)))) < dstsiz"
    using False bl bitlen_bounds(2) [of n] by (auto simp: bits_plen_def length_dec_text)
  have st: "stands_at src (Suc cp) d" using assms(1) by simp
  have dq: "r > 0 \<Longrightarrow> cp + 1 + q < length src \<and> src ! (cp + 1 + q) = d ! q"
    using stands_at_nth [OF st, of q] lend by simp
  have dlen: "cp + 1 + q \<le> length src"
    using stands_at_length [OF st] assms(1) lend by (cases "d = []") auto
  have take: "take q (drop (Suc cp) src) = take q d"
    using st lend by (metis le_add1 min_absorb1 stands_at_def take_take)
  let ?w = "dn @ [CH_bslash, CH_lbrack, CH_x]"
  let ?h = "concat (map (\<lambda>c. sprintf_02x (unat c)) (take q d))"
  have lh: "length ?h = 2 * q" using lend by (simp only: length_concat_02x) simp
  let ?t = "if r > 4 then sprintf_02x (tail_byte (d ! q) r)
    else if r > 0 then hex_text (tail_nibble (d ! q) r) else []"
  have lt: "length ?t \<le> (if r > 4 then 3 else if r > 0 then 1 else 0)"
    using bl(2) length_sprintf_02x_le [OF tail_byte_less, of r "d ! q"]
      length_hex_text(1) [OF tail_nibble_less, of "d ! q" r] by auto
  have "wr_str dstsiz dn [CH_bslash, CH_lbrack, CH_x] = Inr ?w"
    using room by (simp add: mem_simps)
  moreover have "decode_bytes src dstsiz (bitlen n) (cp + 1) ?w = Inr (r, cp + 1 + q, ?w @ ?h)"
    using decode_bytes_ok [of "cp + 1" "bitlen n" src ?w dstsiz] dlen room take
    by (simp flip: q_def r_def)
  moreover have "decode_tail src dstsiz r (cp + 1 + q) (?w @ ?h) =
      Inr (cp + 1 + q + (if r > 0 then 1 else 0), ?w @ ?h @ ?t)"
    using decode_tail_ok [of r "cp + 1 + q" src "d ! q" "?w @ ?h" dstsiz] dq bl(2) room lh by simp
  moreover have "wr_str dstsiz (?w @ ?h @ ?t) (CH_slash # dec_text (bitlen n) @ [CH_rbrack]) =
      Inr (dn @ text_bits n d)"
    using room lh lt by (subst wr_str_ok) (auto simp: text_bits_def Let_def simp flip: q_def r_def)
  moreover have "rd src cp = Inr n"
    using assms(1) by (simp add: mem_simps)
  ultimately show ?thesis
    using False lend by (simp add: decode_bitstring_def)
qed

subsection \<open>ntop prints the label list\<close>

lemma ntop_label_ok:
  assumes "stands_at src cp cs"
  shows "ntop_label src dstsiz (length cs) cp dn =
    (if length dn + length (text_label (Plain cs)) \<le> dstsiz \<or> cs = []
     then Inr (cp + length cs, dn @ text_label (Plain cs)) else Inl Fail)"
  using assms
proof (induction cs arbitrary: cp dn)
  case (Cons c cs)
  have "length (concat (map text_char cs)) = 0 \<longleftrightarrow> cs = []"
    by (cases cs) auto
  with Cons show ?case
    by (auto simp: mem_simps text_char_def)
qed simp

definition is_plain :: "label \<Rightarrow> bool" where
  "is_plain l \<longleftrightarrow> (\<exists>cs. l = Plain cs)"

lemma length_text_Plain: "length cs \<le> length (text_label (Plain cs))"
proof (induction cs)
  case (Cons c cs)
  then show ?case using length_text_char(1) [of c] by simp
qed simp

text \<open>One label of the outer loop, given that the dot in front of it has been written.\<close>

lemma ntop_loop_label:
  assumes "ok_label l" "stands_at src cp (enc_label l)" "length dn \<le> dstsiz"
  defines "dn1 \<equiv> if dn \<noteq> [] then dn @ [CH_dot] else dn"
  shows "ntop_loop src dstsiz cp dn = Inl Fail
    \<or> length (dn1 @ text_label l) \<le> dstsiz \<and> ntop_loop src dstsiz cp dn =
        ntop_loop src dstsiz (cp + length (enc_label l)) (dn1 @ text_label l)"
    and "is_plain l \<Longrightarrow> length (dn1 @ text_label l) < dstsiz \<Longrightarrow> ntop_loop src dstsiz cp dn =
        ntop_loop src dstsiz (cp + length (enc_label l)) (dn1 @ text_label l)"
proof -
  obtain n rest where l: "enc_label l = n # rest" "n \<noteq> 0"
    "n AND NS_CMPRSFLGS = 0 \<or> n AND NS_CMPRSFLGS = NS_TYPE_ELT"
    using assms(1) by (rule enc_label_Cons)
  have lab: "labellen src cp = Inr (length rest)" using labellen_enc [OF assms(1,2)] l(1) by simp
  have rdn: "rd src cp = Inr n" using assms(2) l(1) by (simp add: mem_simps)
  have ptr: "n AND NS_CMPRSFLGS \<noteq> NS_CMPRSFLGS" using l(3) by auto
  have step: "ntop_loop src dstsiz cp dn =
    (if dn \<noteq> [] \<and> length dn \<ge> dstsiz then Inl Fail
     else if length dn1 + length rest \<ge> dstsiz then Inl Fail
     else if n AND NS_CMPRSFLGS = NS_TYPE_ELT then
       if n \<noteq> DNS_LABELTYPE_BITSTRING then Inl Fail
       else bindE (decode_bitstring src dstsiz (cp + 1) dn1) (\<lambda>(cp', dn'). ntop_loop src dstsiz cp' dn')
     else bindE (ntop_label src dstsiz (length rest) (cp + 1) dn1) (\<lambda>(cp', dn'). ntop_loop src dstsiz cp' dn'))"
    using l(2) ptr lab rdn by (subst ntop_loop.simps) (auto simp: mem_simps dn1_def)
  show "ntop_loop src dstsiz cp dn = Inl Fail
    \<or> length (dn1 @ text_label l) \<le> dstsiz \<and> ntop_loop src dstsiz cp dn =
        ntop_loop src dstsiz (cp + length (enc_label l)) (dn1 @ text_label l)"
  proof (cases l)
    case (Plain cs)
    with assms(1) l have "n AND NS_CMPRSFLGS = 0" "rest = cs" "stands_at src (Suc cp) cs" "cs \<noteq> []"
      using assms(2) by (auto simp: label_byte_iff unat_of_length)
    then show ?thesis
      using step Plain l(1) by (simp add: ntop_label_ok del: text_label.simps)
  next
    case (Bits m d)
    with assms(1) l have "n = DNS_LABELTYPE_BITSTRING" "rest = m # d" "stands_at src (cp + 1) (m # d)"
      "length d = (bitlen m + 7) div 8"
      using assms(2) by auto
    then show ?thesis
      using step Bits decode_bitstring_ok [of src "cp + 1" m d dstsiz dn1] length_text_bits [of d m]
      by (auto simp: dn1_def)
  qed
  show "is_plain l \<Longrightarrow> length (dn1 @ text_label l) < dstsiz \<Longrightarrow> ntop_loop src dstsiz cp dn =
        ntop_loop src dstsiz (cp + length (enc_label l)) (dn1 @ text_label l)"
  proof -
    assume "is_plain l" and fits: "length (dn1 @ text_label l) < dstsiz"
    then obtain cs where Plain: "l = Plain cs" by (auto simp: is_plain_def)
    with assms(1) l have "n AND NS_CMPRSFLGS = 0" "rest = cs" "stands_at src (Suc cp) cs" "cs \<noteq> []"
      using assms(2) by (auto simp: label_byte_iff unat_of_length)
    then show ?thesis
      using step Plain l(1) fits length_text_Plain [of cs]
      by (auto simp: ntop_label_ok dn1_def simp del: text_label.simps split: if_splits)
  qed
qed

lemma ntop_loop_sound:
  assumes "\<forall>l \<in> set ls. ok_label l" "stands_at src cp (enc_name ls)" "length dn \<le> dstsiz"
  shows "ntop_loop src dstsiz cp dn = Inl Fail
    \<or> ntop_loop src dstsiz cp dn = Inr (text_from dn ls) \<and> length (text_from dn ls) \<le> dstsiz"
  using assms
proof (induction ls arbitrary: cp dn)
  case Nil
  then show ?case by (subst (1 2) ntop_loop.simps) (simp add: mem_simps)
next
  case (Cons l ls)
  have l: "ok_label l" "stands_at src cp (enc_label l)" "stands_at src (cp + length (enc_label l)) (enc_name ls)"
    using Cons.prems by auto
  let ?dn1 = "(if dn \<noteq> [] then dn @ [CH_dot] else dn) @ text_label l"
  from ntop_loop_label(1) [OF l(1,2) Cons.prems(3)] show ?case
  proof
    assume "length ?dn1 \<le> dstsiz \<and> ntop_loop src dstsiz cp dn =
        ntop_loop src dstsiz (cp + length (enc_label l)) ?dn1"
    then show ?thesis
      using Cons.IH [of "cp + length (enc_label l)" ?dn1] Cons.prems(1) l(3) by simp
  qed simp
qed

lemma ntop_loop_plain:
  assumes "\<forall>l \<in> set ls. ok_label l \<and> is_plain l" "stands_at src cp (enc_name ls)"
    "length (text_from dn ls) < dstsiz"
  shows "ntop_loop src dstsiz cp dn = Inr (text_from dn ls)"
  using assms
proof (induction ls arbitrary: cp dn)
  case Nil
  then show ?case by (subst ntop_loop.simps) (simp add: mem_simps)
next
  case (Cons l ls)
  let ?dn1 = "(if dn \<noteq> [] then dn @ [CH_dot] else dn) @ text_label l"
  have fits: "length ?dn1 < dstsiz"
    using Cons.prems(3) text_from_length [of ?dn1 ls] by simp
  have "length dn \<le> dstsiz" using fits by (auto split: if_splits)
  then have "ntop_loop src dstsiz cp dn = ntop_loop src dstsiz (cp + length (enc_label l)) ?dn1"
    using Cons.prems fits by (intro ntop_loop_label(2)) auto
  then show ?case
    using Cons.IH [of "cp + length (enc_label l)" ?dn1] Cons.prems by simp
qed

text \<open>
  \<open>ns_name_ntop\<close> on an encoded name: it fails for lack of room or prints the labels, and the text
  with its NUL fits the buffer. For ordinary labels it fails only when the text does not fit.
\<close>

lemma text_name_from: "\<forall>l \<in> set ls. ok_label l \<Longrightarrow> text_from [] ls = [] \<longleftrightarrow> ls = []"
  using text_from_not_Nil text_label_not_Nil by (cases ls) auto

lemma ns_name_ntop_sound:
  assumes "\<forall>l \<in> set ls. ok_label l" "stands_at src 0 (enc_name ls)"
  shows "ns_name_ntop src dstsiz = Inl Fail
    \<or> ns_name_ntop src dstsiz = Inr (text_name ls) \<and> length (text_name ls) < dstsiz"
  using ntop_loop_sound [OF assms, of "[]" dstsiz] text_name_from [OF assms(1)]
  by (cases "ls = []") (auto simp: ns_name_ntop_def text_name_def mem_simps split: if_splits)

lemma ns_name_ntop_plain:
  assumes "\<forall>l \<in> set ls. ok_label l \<and> is_plain l" "stands_at src 0 (enc_name ls)"
    "length (text_name ls) < dstsiz"
  shows "ns_name_ntop src dstsiz = Inr (text_name ls)"
proof -
  have "length (text_from [] ls) < dstsiz"
    using assms(3) by (auto simp: text_name_def split: if_splits)
  then have "ntop_loop src dstsiz 0 [] = Inr (text_from [] ls)"
    using assms by (intro ntop_loop_plain) auto
  then show ?thesis
    using assms text_name_from [of ls] by (auto simp: ns_name_ntop_def text_name_def wr_def)
qed

text \<open>The text of a name of at most 255 bytes of ordinary labels fits any buffer of \<open>NS_MAXDNAME\<close> bytes.\<close>

lemma length_text_label_le: "ok_label l \<Longrightarrow> is_plain l \<Longrightarrow> length (text_label l) + 1 \<le> 4 * length (enc_label l)"
proof -
  have "length (concat (map text_char cs)) \<le> 3 + 4 * length cs" for cs
  proof (induction cs)
    case (Cons c cs)
    then show ?case using length_text_char(2) [of c] by simp
  qed simp
  then show "ok_label l \<Longrightarrow> is_plain l \<Longrightarrow> length (text_label l) + 1 \<le> 4 * length (enc_label l)"
    by (auto simp: is_plain_def)
qed

lemma length_text_from_le:
  "\<forall>l \<in> set ls. ok_label l \<and> is_plain l \<Longrightarrow>
   length (text_from dn ls) + 4 \<le> length dn + 4 * length (enc_name ls)"
proof (induction ls arbitrary: dn)
  case (Cons l ls)
  let ?dn1 = "(if dn \<noteq> [] then dn @ [CH_dot] else dn) @ text_label l"
  have "length ?dn1 \<le> length dn + 1 + length (text_label l)" by auto
  moreover have "length (text_from ?dn1 ls) + 4 \<le> length ?dn1 + 4 * length (enc_name ls)"
    using Cons.prems by (intro Cons.IH) auto
  moreover have "length (text_label l) + 1 \<le> 4 * length (enc_label l)"
    using Cons.prems by (intro length_text_label_le) auto
  ultimately show ?case by simp
qed simp

lemma length_text_name_le:
  assumes "\<forall>l \<in> set ls. ok_label l \<and> is_plain l" "length (enc_name ls) \<le> NS_MAXCDNAME"
  shows "length (text_name ls) < NS_MAXDNAME"
  using length_text_from_le [OF assms(1), of "[]"] assms(2) by (simp add: text_name_def)

text \<open>
  The sign extension in \<open>decode_bitstring\<close>: the five bits of the byte 0x80 are printed with three
  hexadecimal digits, \<open>x780/5\<close>, instead of the two of \<open>x80/5\<close>.
\<close>

theorem decode_bitstring_sign:
  "ns_name_ntop (enc_name [Bits 5 [0x80]]) NS_MAXDNAME =
     Inr [CH_bslash, CH_lbrack, CH_x, 0x37, 0x38, 0x30, CH_slash, 0x35, CH_rbrack]"
  by code_simp

end
