(* ===== verification/Nametext.thy ===== *)
theory Nametext
  imports Names
begin

text \<open>
  What a name should look like as text, independently of resolv.c: \<open>rfc_name\<close>. The theorem compares it with
  what \<open>ns_name_ntop\<close> prints; the one difference, in bit string labels, is the plain \<open>char\<close> of
  \<open>decode_bitstring\<close>.
\<close>

section \<open>The text RFC 1035 and RFC 2673 give a name\<close>

text \<open>
  Stated without the code's own helpers: a character that has a meaning in a master file is quoted with a
  backslash, another printing character stands for itself, and any other byte is a backslash and three
  decimal digits. A bit string label is its bits in hexadecimal, four to a digit, most significant first and
  filled up with zeros, and the number of bits. Labels are separated by dots, and the root is a dot.
\<close>

definition rfc_digit :: "nat \<Rightarrow> byte" where
  "rfc_digit v = [0x30, 0x31, 0x32, 0x33, 0x34, 0x35, 0x36, 0x37, 0x38, 0x39, 0x61, 0x62, 0x63, 0x64, 0x65, 0x66] ! v"

definition rfc_char :: "byte \<Rightarrow> cstr" where
  "rfc_char c =
     (let v = unat c in
      if v \<in> {34, 36, 40, 41, 46, 59, 64, 92} then [92, c]
      else if 33 \<le> v \<and> v \<le> 126 then [c]
      else [92, rfc_digit (v div 100), rfc_digit (v div 10 mod 10), rfc_digit (v mod 10)])"

definition rfc_number :: "nat \<Rightarrow> cstr" where
  "rfc_number v = (if v \<ge> 100 then [rfc_digit (v div 100)] else [])
     @ (if v \<ge> 10 then [rfc_digit (v div 10 mod 10)] else []) @ [rfc_digit (v mod 10)]"

definition byte_bits :: "byte \<Rightarrow> bool list" where
  "byte_bits c = map (\<lambda>k. bit c (7 - k)) [0..<8]"

fun rfc_hex :: "bool list \<Rightarrow> cstr" where
  "rfc_hex (a # b # c # d # bs) = rfc_digit (8 * of_bool a + 4 * of_bool b + 2 * of_bool c + of_bool d) # rfc_hex bs"
| "rfc_hex [a, b, c] = [rfc_digit (8 * of_bool a + 4 * of_bool b + 2 * of_bool c)]"
| "rfc_hex [a, b] = [rfc_digit (8 * of_bool a + 4 * of_bool b)]"
| "rfc_hex [a] = [rfc_digit (8 * of_bool a)]"
| "rfc_hex [] = []"

fun rfc_label :: "label \<Rightarrow> cstr" where
  "rfc_label (Plain cs) = concat (map rfc_char cs)"
| "rfc_label (Bits n d) = (let len = (if n = 0 then 256 else unat n) in
     [0x5C, 0x5B, 0x78] @ rfc_hex (take len (concat (map byte_bits d))) @ 0x2F # rfc_number len @ [0x5D])"

fun rfc_labels :: "label list \<Rightarrow> cstr" where
  "rfc_labels [] = []"
| "rfc_labels [l] = rfc_label l"
| "rfc_labels (l # k # ls) = rfc_label l @ 0x2E # rfc_labels (k # ls)"

definition rfc_name :: "label list \<Rightarrow> cstr" where
  "rfc_name ls = (if ls = [] then [0x2E] else rfc_labels ls)"

text \<open>Where the code departs from it: five to seven bits in the last byte, the first of them set.\<close>

definition tail_ok :: "label \<Rightarrow> bool" where
  "tail_ok l \<longleftrightarrow> (case l of Plain cs \<Rightarrow> True | Bits n d \<Rightarrow> bitlen n mod 8 \<le> 4 \<or> \<not> bit (last d) 7)"

subsection \<open>The code's digits are these digits\<close>

lemma hexdigit_rfc: "v < 16 \<Longrightarrow> hexdigit v = rfc_digit v" "v < 10 \<Longrightarrow> digits v = rfc_digit v"
proof -
  have "list_all (\<lambda>v. hexdigit v = rfc_digit v) [0..<16]" "list_all (\<lambda>v. digits v = rfc_digit v) [0..<10]"
    by code_simp+
  then show "v < 16 \<Longrightarrow> hexdigit v = rfc_digit v" "v < 10 \<Longrightarrow> digits v = rfc_digit v"
    by (simp_all add: list_all_iff)
qed

lemma hex_text_rfc: "v < 16 \<Longrightarrow> hex_text v = [rfc_digit v]"
  by (simp add: hex_text.simps hexdigit_rfc)

lemma sprintf_02x_rfc: "v < 256 \<Longrightarrow> sprintf_02x v = [rfc_digit (v div 16), rfc_digit (v mod 16)]"
proof (cases "v < 16")
  case True
  then show ?thesis by (simp add: sprintf_02x_def hex_text_rfc) (simp add: rfc_digit_def)
next
  case False
  moreover assume "v < 256"
  ultimately show ?thesis
    by (simp add: sprintf_02x_def hex_text.simps [of v] hex_text_rfc hexdigit_rfc less_mult_imp_div_less)
qed

lemma dec_text_rfc: "v < 1000 \<Longrightarrow> dec_text v = rfc_number v"
proof -
  have one: "n < 10 \<Longrightarrow> dec_text n = [rfc_digit n]" for n by (simp add: dec_text.simps hexdigit_rfc)
  have more: "\<not> n < 10 \<Longrightarrow> dec_text n = dec_text (n div 10) @ [rfc_digit (n mod 10)]" for n
    by (simp add: dec_text.simps [of n] hexdigit_rfc)
  assume v: "v < 1000"
  consider "v < 10" | "10 \<le> v" "v < 100" | "100 \<le> v" by linarith
  then show ?thesis
  proof cases
    case 3
    then have "\<not> v div 10 < 10" "\<not> v < 10" "v div 10 div 10 < 10" "v div 10 div 10 = v div 100" using v by auto
    with 3 show ?thesis
      by (simp add: more [of v] more [of "v div 10"] one rfc_number_def del: div_mult2_eq)
  qed (auto simp: one more rfc_number_def)
qed

lemma upt_8: "[0..<8] = [0, 1, 2, 3, 4, 5, 6, 7]"
  by (simp add: upt_rec)

lemma byte_bits_eq: "byte_bits c = [bit c 7, bit c 6, bit c 5, bit c 4, bit c 3, bit c 2, bit c 1, bit c 0]"
  by (simp add: byte_bits_def upt_8)

lemma byte_value:
  "unat (c :: byte) div 16 = 8 * of_bool (bit c 7) + 4 * of_bool (bit c 6) + 2 * of_bool (bit c 5) + of_bool (bit c 4)"
  "unat c mod 16 = 8 * of_bool (bit c 3) + 4 * of_bool (bit c 2) + 2 * of_bool (bit c 1) + of_bool (bit c 0)"
proof -
  let ?h = "8 * of_bool (bit c 7) + 4 * of_bool (bit c 6) + 2 * of_bool (bit c 5) + of_bool (bit c 4) :: nat"
  let ?l = "8 * of_bool (bit c 3) + 4 * of_bool (bit c 2) + 2 * of_bool (bit c 1) + of_bool (bit c 0) :: nat"
  have "horner_sum of_bool 2 (map (bit (unat c)) [0..<8]) = take_bit 8 (unat c)" by (rule horner_sum_bit_eq_take_bit)
  moreover have "take_bit 8 (unat c) = unat c" using byte_less_256 [of c] by (simp add: take_bit_nat_eq_self)
  moreover have "bit (unat c) k = bit c k" for k by (simp add: bit_unsigned_iff)
  ultimately have "unat c = ?l + 16 * ?h" by (simp add: upt_8)
  moreover have "?l < 16" by auto
  ultimately show "unat c div 16 = ?h" "unat c mod 16 = ?l" by simp_all
qed

lemma rfc_hex_byte: "rfc_hex (byte_bits c @ bs) = sprintf_02x (unat c) @ rfc_hex bs"
  by (simp add: byte_bits_eq sprintf_02x_rfc byte_value byte_less_256)

lemma rfc_hex_bytes: "rfc_hex (concat (map byte_bits cs) @ bs) = concat (map (\<lambda>c. sprintf_02x (unat c)) cs) @ rfc_hex bs"
  by (induction cs) (simp_all add: rfc_hex_byte)

lemma unat_ucast_byte: "unat (ucast (c :: byte) :: 32 word) = unat c"
  using byte_less_256 [of c] by (simp add: unsigned_ucast_eq take_bit_nat_eq_self)

text \<open>The last byte: its top \<open>r\<close> bits, the others cleared.\<close>

lemma rfc_hex_tail_byte:
  assumes "4 < r" "r < 8" "\<not> bit c 7"
  shows "sprintf_02x (tail_byte c r) = rfc_hex (take r (byte_bits c))"
proof -
  define m where "m = c AND push_bit (8 - r) (mask 8)"
  have m: "bit m k \<longleftrightarrow> 8 - r \<le> k \<and> bit c k" for k
    using assms by (auto simp: m_def bit_simps dest: bit_imp_le_length)
  have mask: "(0xFF :: 32 word) = mask 8" by (simp add: mask_eq_exp_minus_1)
  have "(scast c :: 32 word) AND push_bit (8 - r) 0xFF = ucast m" (is "?x = _")
  proof (rule bit_word_eqI)
    fix n
    assume "n < LENGTH(32)"
    then show "bit ?x n \<longleftrightarrow> bit (ucast m :: 32 word) n"
      using assms unfolding mask by (cases "n < 7"; cases "n = 7") (auto simp: bit_simps m min_def dest: bit_imp_le_length)
  qed
  then have "tail_byte c r = unat m" by (simp add: tail_byte_def unat_ucast_byte)
  then have "sprintf_02x (tail_byte c r) = rfc_hex (byte_bits m)" using rfc_hex_byte [of m "[]"] by simp
  also have "\<dots> = rfc_hex (take r (byte_bits c))"
  proof -
    consider "r = 5" | "r = 6" | "r = 7" using assms by linarith
    then show ?thesis by cases (simp_all add: byte_bits_eq m)
  qed
  finally show ?thesis .
qed

lemma rfc_hex_tail_nibble:
  assumes "0 < r" "r \<le> 4"
  shows "hex_text (tail_nibble c r) = rfc_hex (take r (byte_bits c))"
proof -
  define m where "m = drop_bit 4 c AND push_bit (4 - r) (mask 4)"
  have m: "bit m k \<longleftrightarrow> k < 4 \<and> 4 - r \<le> k \<and> bit c (4 + k)" for k
    using assms by (auto simp: m_def bit_simps dest: bit_imp_le_length)
  have mask: "(0x0F :: 32 word) = mask 4" by (simp add: mask_eq_exp_minus_1)
  have "(signed_drop_bit 4 (scast c :: 32 word) AND 0x0F) AND push_bit (4 - r) 0x0F = ucast m" (is "?x = _")
  proof (rule bit_word_eqI)
    fix n
    assume "n < LENGTH(32)"
    then show "bit ?x n \<longleftrightarrow> bit (ucast m :: 32 word) n"
      using assms unfolding mask by (cases "n < 3"; cases "n = 3") (auto simp: bit_simps m min_def)
  qed
  then have "tail_nibble c r = unat m" by (simp add: tail_nibble_def unat_ucast_byte)
  moreover have "unat m < 16" using byte_value(1) [of m] by (simp add: m div_eq_0_iff)
  ultimately have "hex_text (tail_nibble c r) = [rfc_digit (unat m mod 16)]" by (simp add: hex_text_rfc)
  also have "\<dots> = rfc_hex (take r (byte_bits c))"
  proof -
    have top: "bit m 3 = bit c 7" "bit m 2 = (2 \<le> r \<and> bit c 6)" "bit m 1 = (3 \<le> r \<and> bit c 5)" "bit m 0 = (4 \<le> r \<and> bit c 4)"
      using assms by (auto simp: m)
    consider "r = 1" | "r = 2" | "r = 3" | "r = 4" using assms by linarith
    then show ?thesis unfolding byte_value(2) byte_bits_eq top by cases simp_all
  qed
  finally show ?thesis .
qed

lemma rfc_hex_tail:
  assumes "r < 8" "r \<le> 4 \<or> \<not> bit c 7"
  shows "(if r > 4 then sprintf_02x (tail_byte c r) else if r > 0 then hex_text (tail_nibble c r) else [])
    = rfc_hex (take r (byte_bits c))"
  using assms rfc_hex_tail_byte [of r c] rfc_hex_tail_nibble [of r c] by auto

lemma length_byte_bits [simp]: "length (byte_bits c) = 8"
  by (simp add: byte_bits_def)

lemma text_bits_rfc:
  assumes "length d = (bitlen n + 7) div 8" "tail_ok (Bits n d)"
  shows "text_bits n d = rfc_label (Bits n d)"
proof -
  define q r where "q = bitlen n div 8" and "r = bitlen n mod 8"
  have bl: "bitlen n = 8 * q + r" "r < 8" by (simp_all add: q_def r_def)
  let ?bits = "concat (map byte_bits d)"
  have bits: "length (concat (map byte_bits cs)) = 8 * length cs" for cs by (induction cs) simp_all
  have split: "take (bitlen n) ?bits = concat (map byte_bits (take q d)) @ (if r > 0 then take r (byte_bits (d ! q)) else [])"
  proof (cases "r > 0")
    case True
    then have "q < length d" using assms(1) bl by auto
    then have "d = take q d @ d ! q # drop (Suc q) d" by (rule id_take_nth_drop)
    then have "?bits = concat (map byte_bits (take q d)) @ byte_bits (d ! q) @ concat (map byte_bits (drop (Suc q) d))"
      by (metis concat.simps(2) concat_append list.simps(9) map_append)
    then show ?thesis using True bl \<open>q < length d\<close> by (simp add: bits)
  next
    case False
    then have "length d = q" using assms(1) bl by simp
    then show ?thesis using False bl by (simp add: bits)
  qed
  have tail: "r \<le> 4 \<or> \<not> bit (d ! q) 7" if "r > 0"
  proof -
    have len: "length d = Suc q" using assms(1) bl that by auto
    then have "d \<noteq> []" by auto
    then have "last d = d ! q" using len by (simp add: last_conv_nth)
    then show ?thesis using assms(2) by (simp add: tail_ok_def flip: r_def)
  qed
  have hex: "rfc_hex (take (bitlen n) ?bits) = concat (map (\<lambda>c. sprintf_02x (unat c)) (take q d))
      @ (if r > 4 then sprintf_02x (tail_byte (d ! q) r) else if r > 0 then hex_text (tail_nibble (d ! q) r) else [])"
  proof (cases "r > 0")
    case True
    then have "take (bitlen n) ?bits = concat (map byte_bits (take q d)) @ take r (byte_bits (d ! q))" using split by simp
    then show ?thesis using rfc_hex_tail [OF bl(2) tail [OF True]] by (simp only: rfc_hex_bytes)
  qed (simp add: split rfc_hex_bytes [of _ "[]", simplified])
  have "rfc_label (Bits n d) = [0x5C, 0x5B, 0x78] @ rfc_hex (take (bitlen n) ?bits) @ 0x2F # rfc_number (bitlen n) @ [0x5D]"
    by (simp add: bitlen_def Let_def)
  moreover have "dec_text (bitlen n) = rfc_number (bitlen n)" using bitlen_bounds [of n] by (intro dec_text_rfc) simp
  ultimately show ?thesis by (simp add: text_bits_def Let_def hex flip: q_def r_def)
qed

lemma text_char_rfc: "text_char c = rfc_char c"
proof -
  have "special c \<longleftrightarrow> unat c \<in> {34, 36, 40, 41, 46, 59, 64, 92}" "printable c \<longleftrightarrow> 33 \<le> unat c \<and> unat c \<le> 126"
    by (auto simp: special_def printable_def word_unat_eq_iff)
  moreover have "digits (unat c div 100) = rfc_digit (unat c div 100)"
    using byte_less_256 [of c] by (intro hexdigit_rfc) (simp add: less_mult_imp_div_less)
  moreover have "(unat c mod 100) div 10 = unat c div 10 mod 10"
    using mod_mult2_eq [of "unat c" 10 10] by simp
  ultimately show ?thesis by (simp add: text_char_def rfc_char_def Let_def hexdigit_rfc)
qed

lemma text_label_rfc: "ok_label l \<Longrightarrow> tail_ok l \<Longrightarrow> text_label l = rfc_label l"
  by (cases l) (simp_all add: text_char_rfc text_bits_rfc ext [of text_char rfc_char] del: rfc_label.simps(2))

lemma text_from_rfc:
  "\<forall>l \<in> set ls. ok_label l \<and> tail_ok l \<Longrightarrow> ls \<noteq> [] \<Longrightarrow>
   text_from dn ls = (if dn = [] then [] else dn @ [CH_dot]) @ rfc_labels ls"
proof (induction ls arbitrary: dn rule: rfc_labels.induct)
  case (3 l k ls)
  have "text_label l \<noteq> []" using 3 by (simp add: text_label_not_Nil)
  moreover have "text_from dn (l # k # ls) = text_from ((if dn \<noteq> [] then dn @ [CH_dot] else dn) @ text_label l) (k # ls)"
    by (rule text_from.simps(2))
  moreover have "text_from dn' (k # ls) = (if dn' = [] then [] else dn' @ [CH_dot]) @ rfc_labels (k # ls)" for dn'
    using 3 by simp
  ultimately show ?case using 3(2) by (simp add: text_label_rfc del: text_from.simps(2))
qed (auto simp: text_label_rfc)

lemma text_name_rfc: "\<forall>l \<in> set ls. ok_label l \<and> tail_ok l \<Longrightarrow> text_name ls = rfc_name ls"
  by (simp add: text_name_def rfc_name_def text_from_rfc)

section \<open>Properties\<close>

text \<open>
  C33. \<open>ns_name_ntop\<close> prints names as the RFCs give them: on the encoding of any list of labels it returns
  \<open>rfc_name\<close> of the labels, with the text and its NUL inside the destination, or fails. For ordinary labels
  it fails only when the text does not fit; bit string labels reserve room ahead. Left out are the bit
  strings that \<open>tail_ok\<close> excludes, five to seven bits in the last byte with the first of them set: the code
  prints those with digits that are not there (\<open>decode_bitstring_sign\<close>).
\<close>

theorem ns_name_ntop_text:
  assumes "\<forall>l \<in> set ls. ok_label l \<and> tail_ok l"
  shows "ns_name_ntop (enc_name ls @ rest) dstsiz = Inl Fail \<and>
      (length (rfc_name ls) \<ge> dstsiz \<or> \<not> list_all is_plain ls)
    \<or> ns_name_ntop (enc_name ls @ rest) dstsiz = Inr (rfc_name ls) \<and> length (rfc_name ls) < dstsiz"
proof -
  have st: "stands_at (enc_name ls @ rest) 0 (enc_name ls)" by (simp add: stands_at_def)
  have ok: "\<forall>l \<in> set ls. ok_label l" using assms by blast
  from ns_name_ntop_sound [OF ok st, of dstsiz] show ?thesis
    using ns_name_ntop_plain [OF _ st, of dstsiz] ok text_name_rfc [OF assms]
    by (cases "length (rfc_name ls) < dstsiz") (auto simp: list_all_iff)
qed

text \<open>The labels \<open>a\<close> and \<open>.\<close>, and thirteen bits.\<close>

lemma ns_name_ntop_text_witness:
  "ns_name_ntop (enc_name [Plain [0x61], Plain [0x2E]] @ [7]) 5 = Inr [0x61, CH_dot, CH_bslash, 0x2E]
   \<and> ns_name_ntop (enc_name [Bits 13 [0xA5, 0x78]]) 30
      = Inr [CH_bslash, CH_lbrack, CH_x, 0x61, 0x35, 0x37, 0x38, CH_slash, 0x31, 0x33, CH_rbrack]"
proof
  let ?ls = "[Plain [0x61], Plain [0x2E]] :: label list" and ?bs = "[Bits 13 [0xA5, 0x78]] :: label list"
  have "rfc_name ?ls = [0x61, CH_dot, CH_bslash, 0x2E]" by code_simp
  then show "ns_name_ntop (enc_name ?ls @ [7]) 5 = Inr [0x61, CH_dot, CH_bslash, 0x2E]"
    using ns_name_ntop_text [of ?ls "[7]" 5] by (simp add: is_plain_def tail_ok_def)
  have "rfc_name ?bs = [CH_bslash, CH_lbrack, CH_x, 0x61, 0x35, 0x37, 0x38, CH_slash, 0x31, 0x33, CH_rbrack]"
    by code_simp
  moreover have "ns_name_ntop (enc_name ?bs) 30 \<noteq> Inl Fail" by code_simp
  moreover have "\<forall>l \<in> set ?bs. ok_label l \<and> tail_ok l" by code_simp
  ultimately show "ns_name_ntop (enc_name ?bs) 30
      = Inr [CH_bslash, CH_lbrack, CH_x, 0x61, 0x35, 0x37, 0x38, CH_slash, 0x31, 0x33, CH_rbrack]"
    using ns_name_ntop_text [of ?bs "[]" 30] by simp
qed

end
