(* ===== verification/Pton.thy ===== *)
theory Pton
  imports Names
begin

text \<open>
  From text to the encoded name: \<open>encode_bitstring\<close> and \<open>ns_name_pton\<close> of resolv.c, and the round
  trip with \<open>ns_name_ntop\<close>. The destination of \<open>ns_name_pton\<close>
  is split at \<open>label\<close>: \<open>pre\<close> are the bytes before \<open>label\<close>, \<open>cur\<close> the bytes between \<open>label + 1\<close>
  and \<open>bp\<close>; the length byte at \<open>label\<close> itself is written when the label ends.
\<close>

section \<open>encode_bitstring\<close>

text \<open>
  \<open>strtol(s, &end, 10)\<close> on text that starts with a digit: the value saturates at \<open>LONG_MAX\<close> (64
  bit), the cast to \<open>int\<close> keeps the low 32 bits; \<open>end\<close> is the rest behind the digits.
\<close>

definition strtol_int :: "cstr \<Rightarrow> int" where
  "strtol_int s = (let v = foldl (\<lambda>a c. 10 * a + int (digit_index c)) 0 (takeWhile isdigit s) in
     sint (word_of_int (min v (2 ^ 63 - 1)) :: 32 word))"

definition strtol_end :: "cstr \<Rightarrow> cstr" where
  "strtol_end s = dropWhile isdigit s"

text \<open>
  The scanning loop. \<open>k\<close> is \<open>end - cp\<close>, \<open>base\<close> is \<open>*dst + 1\<close> (so \<open>tp = base + length data\<close>), \<open>beg\<close> is
  the text at \<open>beg_blen\<close>. The accumulator \<open>acc\<close> (the variable \<open>value\<close> of the code) is an \<open>int\<close> that is shifted for every digit and
  never reset; its overflow is taken as the usual wrap-around, only the low byte is used.
  The result is \<open>cp\<close>, \<open>end - cp\<close>, \<open>blen\<close>, \<open>acc\<close>, \<open>tbcount\<close> and the data bytes.
\<close>

fun encode_loop ::
  "nat \<Rightarrow> nat \<Rightarrow> nat \<Rightarrow> bool \<Rightarrow> cstr option \<Rightarrow> 32 word \<Rightarrow> nat \<Rightarrow> nat \<Rightarrow> byte list \<Rightarrow> cstr
   \<Rightarrow> (cstr \<times> nat \<times> int \<times> 32 word \<times> nat \<times> byte list) cres"
where
  "encode_loop eom base k afterslash beg acc count tbcount data [] =
     (if k > 0 \<and> base + length data < eom then Inl Fail
      else Inr ([], k, 0, acc, tbcount, data))"
| "encode_loop eom base k afterslash beg acc count tbcount data (c # cp) =
     (if k > 0 \<and> base + length data < eom then
        if c = CH_rbrack then
          (let data' = (if count \<noteq> 0 then data @ [ucast (push_bit 4 acc AND 0xFF)] else data) in
           if afterslash then
             (case beg of None \<Rightarrow> Inl Fail
              | Some s \<Rightarrow>
                  if (case strtol_end s of [] \<Rightarrow> 0 | e # _ \<Rightarrow> e) \<noteq> CH_rbrack then Inl Fail
                  else Inr (cp, k - 1, strtol_int s, acc, tbcount, data'))
           else Inr (cp, k - 1, 0, acc, tbcount, data'))
        else if c = CH_slash then
          encode_loop eom base (k - 1) True beg acc count tbcount data cp
        else if afterslash then
          if \<not> isdigit c then Inl Fail
          else if beg = None then
            if c = CH_0 then Inl Fail
            else encode_loop eom base (k - 1) afterslash (Some (c # cp)) acc count tbcount data cp
          else encode_loop eom base (k - 1) afterslash beg acc count tbcount data cp
        else
          if \<not> isxdigit c then Inl Fail
          else
            (let acc' = push_bit 4 acc + word_of_int (digitvalue c);
                 count' = count + 4; tbcount' = tbcount + 4
             in if tbcount' > 256 then Inl Fail
                else if count' = 8 then
                  encode_loop eom base (k - 1) afterslash beg acc' 0 tbcount' (data @ [ucast acc']) cp
                else encode_loop eom base (k - 1) afterslash beg acc' count' tbcount' data cp)
      else Inr (c # cp, k, 0, acc, tbcount, data))"

text \<open>
  \<open>encode_bitstring\<close> with \<open>*dst = bp\<close> and \<open>end = bp_src + k\<close>: the rest of the text, the length byte
  stored at \<open>**dst\<close> and the data bytes behind it. \<open>**labelp\<close> becomes 0x41 at the caller's \<open>label\<close>.
\<close>

definition encode_bitstring ::
  "nat \<Rightarrow> nat \<Rightarrow> nat \<Rightarrow> cstr \<Rightarrow> (cstr \<times> byte \<times> byte list) cres"
where
  "encode_bitstring eom bp k src =
     (if k < 2 then Inl Fail
      else (case src of
        [] \<Rightarrow> Inl Fail
      | x # cp \<Rightarrow>
         if x \<noteq> CH_x then Inl Fail
         else if \<not> isxdigit (case cp of [] \<Rightarrow> 0 | c # _ \<Rightarrow> c) then Inl Fail
         else bindE (encode_loop eom (bp + 1) (k - 1) False None 0 0 0 [] cp)
           (\<lambda>(cp', k', blen, acc, tbcount, data).
             if k' = 0 \<or> bp + 1 + length data \<ge> eom then Inl Fail
             else if blen > 0 then
               if ((blen + 3) div 4) * 4 \<noteq> int tbcount then Inl Fail
               else if push_bit (8 - nat (int tbcount - blen)) acc AND 0xFF \<noteq> 0 then Inl Fail
               else Inr (cp', if blen = 256 then 0 else word_of_int blen, data)
             else Inr (cp', if tbcount = 256 then 0 else word_of_nat tbcount, data))))"

lemma encode_loop_rest:
  "encode_loop eom base k a beg acc count tbcount data cp = Inr (cp', r) \<Longrightarrow> length cp' \<le> length cp"
  by (induction cp arbitrary: k a beg acc count tbcount data)
    (auto simp: Let_def split: if_splits option.splits intro: le_SucI)

lemma encode_bitstring_rest:
  assumes "encode_bitstring eom bp k src = Inr (src', n, data)"
  shows "length src' < length src"
proof (cases src)
  case (Cons x cp)
  with assms obtain v where "encode_loop eom (bp + 1) (k - 1) False None 0 0 0 [] cp = Inr (src', v)"
    by (auto simp: encode_bitstring_def bindE_Inr_iff split: if_splits prod.splits)
  then show ?thesis using Cons encode_loop_rest by fastforce
qed (use assms in \<open>simp add: encode_bitstring_def split: if_splits\<close>)

section \<open>ns_name_pton\<close>

text \<open>\<open>strchr(src, ']') - src\<close>.\<close>

fun strchr :: "byte \<Rightarrow> cstr \<Rightarrow> nat option" where
  "strchr c [] = None"
| "strchr c (x # xs) = (if x = c then Some 0 else map_option Suc (strchr c xs))"

text \<open>
  From the label \<open>done:\<close> of the code on: store \<open>c\<close> at \<open>label\<close>, terminate, check the size. The
  result pairs the return value of \<open>ns_name_pton\<close> (1: fully qualified, 0: not) with the bytes.
\<close>

definition pton_finish :: "nat \<Rightarrow> byte list \<Rightarrow> byte list \<Rightarrow> nat \<Rightarrow> nat \<Rightarrow> (nat \<times> byte list) cres" where
  "pton_finish dstsiz pre cur c ret =
     (if length pre \<ge> dstsiz then Inl Fail
      else let out = pre @ word_of_nat c # cur in
        if c \<noteq> 0 \<and> length out \<ge> dstsiz then Inl Fail
        else let out' = (if c \<noteq> 0 then out @ [0] else out) in
          if length out' > NS_MAXCDNAME then Inl Fail else Inr (ret, out'))"

text \<open>\<open>*bp++ = (u_char)c\<close> behind its guard; \<open>bp - dst\<close> is \<open>length pre + 1 + length cur\<close>.\<close>

definition pton_put :: "nat \<Rightarrow> byte list \<Rightarrow> byte list \<Rightarrow> byte \<Rightarrow> byte list cres" where
  "pton_put dstsiz pre cur c =
     (if length pre + 1 + length cur \<ge> dstsiz then Inl Fail else Inr (cur @ [c]))"

function pton_loop ::
  "nat \<Rightarrow> bool \<Rightarrow> byte list \<Rightarrow> byte list \<Rightarrow> cstr \<Rightarrow> (nat \<times> byte list) cres"
where
  "pton_loop dstsiz escaped pre cur [] =
     (if length cur AND 0xC0 \<noteq> 0 then Inl Fail else pton_finish dstsiz pre cur (length cur) 0)"
| "pton_loop dstsiz escaped pre cur (c # src) =
     (if escaped then
        if c = CH_lbrack then
          (case strchr CH_rbrack src of
             None \<Rightarrow> Inl Fail
           | Some i \<Rightarrow>
               bindE (encode_bitstring dstsiz (length pre + 1 + length cur) (i + 2) src)
                 (\<lambda>(src', blen, data).
                   let pre' = pre @ DNS_LABELTYPE_BITSTRING # cur @ blen # data in
                   case src' of
                     [] \<Rightarrow> pton_finish dstsiz pre' [] 0 0
                   | c' # src'' \<Rightarrow>
                       if c' \<noteq> CH_dot then Inl Fail else pton_loop dstsiz False pre' [] src''))
        else if isdigit c then
          (case src of
             c2 # c3 # src' \<Rightarrow>
               if isdigit c2 \<and> isdigit c3 then
                 (let n = digit_index c * 100 + digit_index c2 * 10 + digit_index c3 in
                  if n > 255 then Inl Fail
                  else bindE (pton_put dstsiz pre cur (word_of_nat n)) (\<lambda>cur'.
                         pton_loop dstsiz False pre cur' src'))
               else Inl Fail
           | _ \<Rightarrow> Inl Fail)
        else bindE (pton_put dstsiz pre cur c) (\<lambda>cur'. pton_loop dstsiz False pre cur' src)
      else if c = CH_bslash then pton_loop dstsiz True pre cur src
      else if c = CH_dot then
        (let n = length cur in
         if n AND 0xC0 \<noteq> 0 then Inl Fail
         else if length pre \<ge> dstsiz then Inl Fail
         else if src = [] then pton_finish dstsiz pre cur n 1
         else if n = 0 \<or> hd src = CH_dot then Inl Fail
         else pton_loop dstsiz False (pre @ word_of_nat n # cur) [] src)
      else bindE (pton_put dstsiz pre cur c) (\<lambda>cur'. pton_loop dstsiz False pre cur' src))"
  by pat_completeness auto
termination
  by (relation "measure (\<lambda>(dstsiz, escaped, pre, cur, src). length src)")
    (auto dest!: encode_bitstring_rest)

declare pton_loop.simps(2) [simp del]

definition ns_name_pton :: "cstr \<Rightarrow> nat \<Rightarrow> (nat \<times> byte list) cres" where
  "ns_name_pton src dstsiz = pton_loop dstsiz False [] [] src"

section \<open>Round trip with ntop\<close>

lemma unat_digits: "k < 10 \<Longrightarrow> unat (digits k) = 0x30 + k"
proof -
  assume "k < 10"
  then have "digits k = (word_of_nat (0x30 + k) :: byte)" by (simp add: digits_def)
  with \<open>k < 10\<close> show ?thesis by (simp only: unat_of_nat) simp
qed

lemma digits_facts: "k < 10 \<Longrightarrow> isdigit (digits k)" "k < 10 \<Longrightarrow> digit_index (digits k) = k"
  "k < 10 \<Longrightarrow> digits k \<noteq> CH_lbrack"
proof -
  assume k: "k < 10"
  show "isdigit (digits k)" "digit_index (digits k) = k"
    using k by (simp_all add: isdigit_def digit_index_def unat_digits)
  have "unat (digits k) \<noteq> unat CH_lbrack" using k by (simp add: unat_digits)
  then show "digits k \<noteq> CH_lbrack" by auto
qed

lemma special_facts: "special c \<Longrightarrow> c \<noteq> CH_lbrack \<and> \<not> isdigit c"
  by (auto simp: special_def isdigit_def)

lemma not_special_facts: "\<not> special c \<Longrightarrow> c \<noteq> CH_bslash \<and> c \<noteq> CH_dot"
  by (auto simp: special_def)

lemma pton_loop_char:
  assumes "length pre + 1 + length cur < dstsiz"
  shows "pton_loop dstsiz False pre cur (text_char c @ rest) = pton_loop dstsiz False pre (cur @ [c]) rest"
proof -
  have put: "pton_put dstsiz pre cur b = Inr (cur @ [b])" for b
    using assms by (simp add: pton_put_def)
  consider "special c" | "\<not> special c" "printable c" | "\<not> special c" "\<not> printable c" by blast
  then show ?thesis
  proof cases
    case 1
    then show ?thesis
      by (simp add: text_char_def pton_loop.simps(2) [of _ False] pton_loop.simps(2) [of _ True]
          put special_facts)
  next
    case 2
    then show ?thesis
      by (simp add: text_char_def pton_loop.simps(2) [of _ False] put not_special_facts)
  next
    case 3
    have k: "unat c div 100 < 10" "(unat c mod 100) div 10 < 10" "unat c mod 10 < 10"
      using byte_less_256 [of c] by auto
    have "unat c mod 100 mod 10 = unat c mod 10" by (simp add: mod_mod_cancel)
    then have "unat c div 100 * 100 + (unat c mod 100) div 10 * 10 + unat c mod 10 = unat c"
      using div_mult_mod_eq [of "unat c" 100] div_mult_mod_eq [of "unat c mod 100" 10] by linarith
    then show ?thesis
      using 3 byte_less_256 [of c] k
      by (simp add: text_char_def pton_loop.simps(2) [of _ False] pton_loop.simps(2) [of _ True]
          put digits_facts)
  qed
qed

lemma pton_loop_chars:
  assumes "length pre + 1 + length cur + length cs \<le> dstsiz"
  shows "pton_loop dstsiz False pre cur (concat (map text_char cs) @ rest)
    = pton_loop dstsiz False pre (cur @ cs) rest"
  using assms
proof (induction cs arbitrary: cur)
  case (Cons c cs)
  then show ?case using Cons.IH [of "cur @ [c]"] by (simp add: pton_loop_char)
qed simp

text \<open>The text behind the first label: a dot and a label, again and again.\<close>

definition text_rest :: "label list \<Rightarrow> cstr" where
  "text_rest ls = concat (map (\<lambda>l. CH_dot # text_label l) ls)"

lemma text_from_rest: "dn \<noteq> [] \<Longrightarrow> text_from dn ls = dn @ text_rest ls"
  by (induction ls arbitrary: dn) (simp_all add: text_rest_def)

lemma text_name_Cons: "ok_label l \<Longrightarrow> text_name (l # ls) = text_label l @ text_rest ls"
  by (simp add: text_name_def text_from_rest text_label_not_Nil)

lemma hd_text_char: "hd (text_char c @ s) \<noteq> CH_dot"
  by (auto simp: text_char_def not_special_facts)

lemma nat_and_C0_label: "n < 64 \<Longrightarrow> (n :: nat) AND 0xC0 = 0"
  by (simp add: nat_and_192)

lemma pton_loop_rest:
  assumes "\<forall>l \<in> set ls. ok_label l \<and> is_plain l" "cs \<noteq> []" "length cs < 64"
    "length pre + 1 + length cs + length (enc_name ls) \<le> dstsiz" "dstsiz \<le> NS_MAXCDNAME"
  shows "pton_loop dstsiz False pre cs (text_rest ls)
    = Inr (0, pre @ word_of_nat (length cs) # cs @ enc_name ls)"
  using assms
proof (induction ls arbitrary: pre cs)
  case Nil
  then show ?case
    by (simp add: text_rest_def pton_finish_def Let_def nat_and_C0_label)
next
  case (Cons l ls)
  then obtain c ds where l: "l = Plain (c # ds)"
    by (auto simp: is_plain_def neq_Nil_conv)
  let ?pre = "pre @ word_of_nat (length cs) # cs"
  let ?s = "text_char c @ concat (map text_char ds) @ text_rest ls"
  have "pton_loop dstsiz False pre cs (CH_dot # ?s) = pton_loop dstsiz False ?pre [] ?s"
    using Cons.prems hd_text_char [of c]
    by (subst pton_loop.simps(2)) (simp add: Let_def nat_and_C0_label)
  also have "\<dots> = pton_loop dstsiz False ?pre (c # ds) (text_rest ls)"
    using pton_loop_chars [of ?pre "[]" "c # ds" dstsiz "text_rest ls"] Cons.prems l by simp
  also have "\<dots> = Inr (0, ?pre @ word_of_nat (length (c # ds)) # (c # ds) @ enc_name ls)"
    using Cons.prems l by (intro Cons.IH) auto
  finally show ?case using l by (simp add: text_rest_def)
qed

text \<open>
  Parsing the text of a name of ordinary labels gives back its encoding; the root, printed as a
  single dot, counts as fully qualified.
\<close>

lemma ns_name_pton_text:
  assumes "\<forall>l \<in> set ls. ok_label l \<and> is_plain l" "length (enc_name ls) \<le> NS_MAXCDNAME"
  shows "ns_name_pton (text_name ls) NS_MAXCDNAME = Inr (if ls = [] then 1 else 0, enc_name ls)"
proof (cases ls)
  case Nil
  then show ?thesis
    by (simp add: text_name_def ns_name_pton_def pton_loop.simps(2) pton_finish_def)
next
  case (Cons l ks)
  with assms(1) obtain cs where l: "l = Plain cs" "cs \<noteq> []" "length cs < 64"
    by (auto simp: is_plain_def)
  have "pton_loop NS_MAXCDNAME False [] [] (text_label l @ text_rest ks)
      = pton_loop NS_MAXCDNAME False [] cs (text_rest ks)"
    using pton_loop_chars [of "[]" "[]" cs NS_MAXCDNAME "text_rest ks"] assms(2) Cons l by simp
  also have "\<dots> = Inr (0, enc_name ls)"
    using assms Cons l by (subst pton_loop_rest) auto
  finally show ?thesis
    using assms(1) Cons by (simp add: ns_name_pton_def text_name_Cons)
qed

section \<open>Parsing what ntop prints\<close>

text \<open>
  What the scanning loop has done when it leaves at the closing bracket: the text goes on behind the
  bracket, and the bytes hold the digits counted, the last one padded.
\<close>

lemma encode_loop_done:
  "encode_loop eom base k a beg acc count tbcount data cp = Inr (cp', k', blen, acc', tb', data') \<Longrightarrow>
   k' \<noteq> 0 \<Longrightarrow> base + length data' < eom \<Longrightarrow> count = 0 \<or> count = 4 \<Longrightarrow> tbcount = 8 * length data + count \<Longrightarrow> tbcount \<le> 256 \<Longrightarrow>
   cp' = tl (dropWhile (\<lambda>x. x \<noteq> CH_rbrack) cp) \<and> length data' = (tb' + 7) div 8 \<and> tb' \<le> 256 \<and> tbcount \<le> tb'"
proof (induction cp arbitrary: k a beg acc count tbcount data)
  case Nil
  then show ?case by (simp split: if_splits)
next
  case (Cons c cp)
  have in_loop: "k > 0 \<and> base + length data < eom"
    using Cons.prems(1-3) by (rule_tac ccontr) (auto split: if_splits)
  show ?case
  proof (cases "c = CH_rbrack")
    case True
    have "data' = (if count \<noteq> 0 then data @ [ucast (push_bit 4 acc AND 0xFF)] else data)" "tb' = tbcount" "cp' = cp"
      using Cons.prems(1) in_loop True by (auto simp: Let_def split: if_splits option.splits)
    then show ?thesis using Cons.prems(4-6) True by auto
  next
    case c: False
    show ?thesis
    proof (cases "c = CH_slash \<or> a")
      case True
      then obtain a' beg' where "encode_loop eom base (k - 1) a' beg' acc count tbcount data cp = Inr (cp', k', blen, acc', tb', data')"
        using Cons.prems(1) in_loop c by (auto split: if_splits)
      from Cons.IH [OF this Cons.prems(2-6)] show ?thesis using c by simp
    next
      case False
      define acc1 where "acc1 = push_bit 4 acc + word_of_int (digitvalue c)"
      define data1 where "data1 = (if count + 4 = 8 then data @ [ucast acc1] else data)"
      define count1 where "count1 = (if count + 4 = 8 then 0 else count + 4)"
      have le: "tbcount + 4 \<le> 256"
        and run: "encode_loop eom base (k - 1) a beg acc1 count1 (tbcount + 4) data1 cp = Inr (cp', k', blen, acc', tb', data')"
        using Cons.prems(1) in_loop c False
        by (auto simp: Let_def acc1_def data1_def count1_def split: if_splits)
      have "count1 = 0 \<or> count1 = 4" "tbcount + 4 = 8 * length data1 + count1"
        using Cons.prems(4,5) by (auto simp: count1_def data1_def)
      from Cons.IH [OF run Cons.prems(2,3) this le] show ?thesis using c by simp
    qed
  qed
qed

lemma bitlen_int: "0 < b \<Longrightarrow> b \<le> 256 \<Longrightarrow> int (bitlen (if b = 256 then 0 else word_of_int b)) = b"
  by (auto simp: bitlen_def uint_word_of_int unat_eq_0 word_of_int_eq_0_iff)

text \<open>
  A bit string label that is accepted is a well-formed one, and the text goes on behind the first
  closing bracket.
\<close>

lemma nibbles_bytes:
  assumes "((m + 3) div 4) * 4 = (n :: nat)"
  shows "m \<le> n" "(m + 7) div 8 = (n + 7) div 8"
proof -
  define d where "d = (m + 3) div 4"
  have d: "n = 4 * d" "m \<le> 4 * d" "4 * d \<le> m + 3" using assms by (simp_all add: d_def)
  show "m \<le> n" using d by simp
  show "(m + 7) div 8 = (n + 7) div 8"
  proof (cases "even d")
    case True
    then obtain e where "d = 2 * e" by (elim evenE)
    then have "(m + 7) div 8 = e" "(n + 7) div 8 = e" using d by (auto intro!: div_nat_eqI)
    then show ?thesis by simp
  next
    case False
    then obtain e where "d = 2 * e + 1" by (elim oddE)
    then have "(m + 7) div 8 = e + 1" "(n + 7) div 8 = e + 1" using d by (auto intro!: div_nat_eqI)
    then show ?thesis by simp
  qed
qed

lemma encode_bitstring_ok:
  assumes "encode_bitstring eom bp k (CH_x # src) = Inr (src', n, data)"
  shows "src' = tl (dropWhile (\<lambda>x. x \<noteq> CH_rbrack) src)" "ok_label (Bits n data)"
proof -
  obtain k' blen acc tb where run: "encode_loop eom (bp + 1) (k - 1) False None 0 0 0 [] src = Inr (src', k', blen, acc, tb, data)"
    and k': "k' \<noteq> 0" "bp + 1 + length data < eom"
    and n: "if blen > 0 then ((blen + 3) div 4) * 4 = int tb \<and> n = (if blen = 256 then 0 else word_of_int blen)
      else n = (if tb = 256 then 0 else word_of_nat tb)"
    and x: "isxdigit (case src of [] \<Rightarrow> 0 | c # _ \<Rightarrow> c)"
    using assms by (auto simp: encode_bitstring_def bindE_Inr_iff not_le split: if_splits prod.splits)
  have e: "src' = tl (dropWhile (\<lambda>x. x \<noteq> CH_rbrack) src)" "length data = (tb + 7) div 8" "tb \<le> 256"
    using encode_loop_done [OF run k'] by auto
  obtain c cp where c: "src = c # cp" "isxdigit c"
    using x by (cases src) (auto simp: isxdigit_def digitvalue_def isdigit_def)
  then have ne: "c \<noteq> CH_rbrack" "c \<noteq> CH_slash" by (auto simp: isxdigit_def digitvalue_def isdigit_def)
  have "k - 1 > 0 \<and> bp + 1 < eom"
    using run k' unfolding c(1) by (rule_tac ccontr) (auto split: if_splits)
  then have "encode_loop eom (bp + 1) (k - 1 - 1) False None (push_bit 4 0 + word_of_int (digitvalue c)) 4 4 [] cp
      = Inr (src', k', blen, acc, tb, data)"
    using run c(2) ne unfolding c(1) by (simp add: Let_def)
  from encode_loop_done [OF this k'] have "0 < tb" by simp
  then show "src' = tl (dropWhile (\<lambda>x. x \<noteq> CH_rbrack) src)" "ok_label (Bits n data)"
  proof -
    show "src' = tl (dropWhile (\<lambda>x. x \<noteq> CH_rbrack) src)" by (rule e)
    show "ok_label (Bits n data)"
    proof (cases "blen > 0")
      case True
      then obtain m where m: "blen = int m" "0 < m" by (metis zero_less_imp_eq_int)
      then have "int (((m + 3) div 4) * 4) = int tb" using n by (simp add: zdiv_int)
      then have "((m + 3) div 4) * 4 = tb" by (simp only: of_nat_eq_iff)
      then have "m \<le> 256" "(m + 7) div 8 = (tb + 7) div 8" using e(3) nibbles_bytes by auto
      then have "blen \<le> 256" "(nat blen + 7) div 8 = (tb + 7) div 8" using m by simp_all
      then show ?thesis using True n e(2) bitlen_int [of blen] by auto
    next
      case False
      then show ?thesis using n e(2,3) bitlen_int [of "int tb"] \<open>0 < tb\<close> by auto
    qed
  qed
qed

text \<open>One character, and the characters of a label, whether or not there is room.\<close>

lemma pton_loop_char_full:
  assumes "dstsiz \<le> length pre + 1 + length cur"
  shows "pton_loop dstsiz False pre cur (text_char c @ rest) = Inl Fail"
proof -
  have put: "pton_put dstsiz pre cur b = Inl Fail" for b using assms by (simp add: pton_put_def)
  have k: "unat c div 100 < 10" "(unat c mod 100) div 10 < 10" "unat c mod 10 < 10"
    using byte_less_256 [of c] by auto
  show ?thesis
    using k by (auto simp: text_char_def pton_loop.simps(2) [of _ False] pton_loop.simps(2) [of _ True]
        put special_facts not_special_facts digits_facts Let_def)
qed

lemma pton_loop_chars_any:
  "pton_loop dstsiz False pre cur (concat (map text_char cs) @ rest) \<in> {Inl Fail, pton_loop dstsiz False pre (cur @ cs) rest}"
proof (induction cs arbitrary: cur)
  case (Cons c cs)
  show ?case
  proof (cases "length pre + 1 + length cur < dstsiz")
    case True
    then show ?thesis using Cons.IH [of "cur @ [c]"] by (simp add: pton_loop_char)
  qed (simp add: pton_loop_char_full)
qed simp

lemma hexdigit_rbrack: "k < 16 \<Longrightarrow> hexdigit k \<noteq> CH_rbrack"
proof -
  have "list_all (\<lambda>k. hexdigit k \<noteq> CH_rbrack) [0..<16]" by code_simp
  then show "k < 16 \<Longrightarrow> hexdigit k \<noteq> CH_rbrack" by (simp add: list_all_iff)
qed

lemma digits_rbrack: "k < 10 \<Longrightarrow> digits k \<noteq> CH_rbrack"
  using unat_digits [of k] by auto

lemma number_text_rbrack: "CH_rbrack \<notin> set (hex_text n)" "CH_rbrack \<notin> set (dec_text n)"
proof -
  show "CH_rbrack \<notin> set (hex_text n)"
  proof (induction n rule: hex_text.induct)
    case (1 n)
    then show ?case using hexdigit_rbrack [of n] hexdigit_rbrack [of "n mod 16"] by (subst hex_text.simps) auto
  qed
  show "CH_rbrack \<notin> set (dec_text n)"
  proof (induction n rule: dec_text.induct)
    case (1 n)
    then show ?case using digits_rbrack [of n] digits_rbrack [of "n mod 10"] by (subst dec_text.simps) auto
  qed
qed

lemma text_bits_rbrack:
  obtains s where "text_bits n d = [CH_bslash, CH_lbrack, CH_x] @ s @ [CH_rbrack]" "CH_rbrack \<notin> set s"
proof -
  let ?q = "bitlen n div 8" and ?r = "bitlen n mod 8"
  let ?s = "concat (map (\<lambda>c. sprintf_02x (unat c)) (take ?q d))
      @ (if ?r > 4 then sprintf_02x (tail_byte (d ! ?q) ?r) else if ?r > 0 then hex_text (tail_nibble (d ! ?q) ?r) else [])
      @ CH_slash # dec_text (bitlen n)"
  have "text_bits n d = [CH_bslash, CH_lbrack, CH_x] @ ?s @ [CH_rbrack]" by (simp add: text_bits_def Let_def)
  moreover have "CH_rbrack \<notin> set ?s" by (auto simp: sprintf_02x_def number_text_rbrack)
  ultimately show ?thesis by (rule that)
qed

lemma encode_loop_safe: "safe (encode_loop eom base k a beg acc count tbcount data cp)"
  by (induction eom base k a beg acc count tbcount data cp rule: encode_loop.induct)
    (auto simp: Let_def split: option.split)

lemma encode_bitstring_safe: "safe (encode_bitstring eom bp k src)"
  by (auto simp: encode_bitstring_def encode_loop_safe intro!: safe_bindE split: list.split)

text \<open>A parse that succeeds has produced the encoding of well-formed labels behind \<open>pre\<close>.\<close>

definition enc_behind :: "byte list \<Rightarrow> nat \<times> byte list \<Rightarrow> bool" where
  "enc_behind pre r \<longleftrightarrow> length (snd r) \<le> NS_MAXCDNAME \<and> (\<exists>ks. (\<forall>k \<in> set ks. ok_label k) \<and> snd r = pre @ enc_name ks)"

lemma enc_behind_label: "enc_behind (pre @ enc_label l) r \<Longrightarrow> ok_label l \<Longrightarrow> enc_behind pre r"
  unfolding enc_behind_def by (metis append_assoc enc_name_simps(2) set_ConsD)

lemma pton_finish_behind:
  assumes "length cur < 64" "c = length cur"
  shows "outcome {Fail} (enc_behind pre) (pton_finish dstsiz pre cur c ret)"
proof (cases "c = 0")
  case True
  have "enc_behind pre (ret, pre @ [0])" if "length (pre @ [0]) \<le> NS_MAXCDNAME"
    using that unfolding enc_behind_def by (intro conjI exI [of _ "[]"]) simp_all
  then show ?thesis using True assms by (auto simp: pton_finish_def Let_def)
next
  case False
  then have "ok_label (Plain cur)" using assms by auto
  then have "enc_behind pre (ret, pre @ word_of_nat c # cur @ [0])" if "length (pre @ word_of_nat c # cur @ [0]) \<le> NS_MAXCDNAME"
    using that assms(2) unfolding enc_behind_def by (intro conjI exI [of _ "[Plain cur]"]) simp_all
  then show ?thesis using False by (auto simp: pton_finish_def Let_def)
qed

lemma strchr_found: "c \<notin> set s \<Longrightarrow> strchr c (s @ c # r) = Some (length s)"
  by (induction s) auto

lemma pton_loop_label:
  assumes "ok_label l"
    and rest: "rest = [] \<or> (\<exists>s. rest = CH_dot # s \<and> s \<noteq> [] \<and>
      (\<forall>pre'. outcome {Fail} (enc_behind pre') (pton_loop dstsiz False pre' [] s)))"
  shows "outcome {Fail} (enc_behind pre) (pton_loop dstsiz False pre [] (text_label l @ rest))"
proof -
  have go_on: "outcome {Fail} (enc_behind pre) (pton_loop dstsiz False (pre @ enc_label l) [] s)"
    if "rest = CH_dot # s" for s
  proof -
    have "outcome {Fail} (enc_behind (pre @ enc_label l)) (pton_loop dstsiz False (pre @ enc_label l) [] s)"
      using rest that by auto
    then show ?thesis by (rule outcome_weaken) (use enc_behind_label [OF _ assms(1)] in auto)
  qed
  show ?thesis
  proof (cases l)
    case (Plain cs)
    then have cs: "cs \<noteq> []" "length cs < 64" using assms(1) by simp_all
    have "outcome {Fail} (enc_behind pre) (pton_loop dstsiz False pre cs rest)"
    proof (cases rest)
      case Nil
      then show ?thesis using pton_finish_behind [OF cs(2) refl] by simp
    next
      case (Cons c s)
      then have "c = CH_dot" "s \<noteq> []" using rest by auto
      then show ?thesis using go_on Cons cs Plain by (simp add: pton_loop.simps(2) Let_def)
    qed
    then show ?thesis using pton_loop_chars_any [of dstsiz pre "[]" cs rest] Plain by auto
  next
    case (Bits n d)
    obtain s where s: "text_bits n d = [CH_bslash, CH_lbrack, CH_x] @ s @ [CH_rbrack]" "CH_rbrack \<notin> set s"
      by (rule text_bits_rbrack)
    let ?src = "CH_x # s @ CH_rbrack # rest"
    have found: "strchr CH_rbrack ?src = Some (length s + 1)" using strchr_found [OF s(2), of rest] by simp
    have drop: "tl (dropWhile (\<lambda>x. x \<noteq> CH_rbrack) (s @ CH_rbrack # rest)) = rest"
      using s(2) by (induction s) auto
    let ?e = "encode_bitstring dstsiz (length pre + 1) (length s + 1 + 2) ?src"
    have "outcome {Fail} (enc_behind pre) (bindE ?e (\<lambda>(src', blen, data).
        let pre' = pre @ DNS_LABELTYPE_BITSTRING # [] @ blen # data in
        case src' of [] \<Rightarrow> pton_finish dstsiz pre' [] 0 0
        | c' # src'' \<Rightarrow> if c' \<noteq> CH_dot then Inl Fail else pton_loop dstsiz False pre' [] src''))"
    proof (rule outcome_bindE [where Q = "\<lambda>_. True"])
      show "outcome {Fail} (\<lambda>_. True) ?e" using encode_bitstring_safe by (simp only: outcome_safe)
      fix r :: "cstr \<times> byte \<times> byte list"
      assume r: "?e = Inr r"
      obtain blen data where r': "r = (rest, blen, data)" "ok_label (Bits blen data)"
        using encode_bitstring_ok [of dstsiz "length pre + 1" "length s + 1 + 2" "s @ CH_rbrack # rest" "fst r" "fst (snd r)" "snd (snd r)"]
          r drop by (cases r) auto
      let ?pre = "pre @ enc_label (Bits blen data)"
      have weak: "outcome {Fail} (enc_behind ?pre) x \<Longrightarrow> outcome {Fail} (enc_behind pre) x" for x
        by (rule outcome_weaken) (use enc_behind_label [OF _ r'(2)] in auto)
      have "outcome {Fail} (enc_behind pre) (pton_finish dstsiz ?pre [] 0 0)"
        by (rule weak, rule pton_finish_behind) simp_all
      moreover have "outcome {Fail} (enc_behind pre) (pton_loop dstsiz False ?pre [] s')" if "rest = CH_dot # s'" for s'
        by (rule weak) (use rest that in auto)
      ultimately show "outcome {Fail} (enc_behind pre) (case r of (src', blen, data) \<Rightarrow>
          let pre' = pre @ DNS_LABELTYPE_BITSTRING # [] @ blen # data in
          case src' of [] \<Rightarrow> pton_finish dstsiz pre' [] 0 0
          | c' # src'' \<Rightarrow> if c' \<noteq> CH_dot then Inl Fail else pton_loop dstsiz False pre' [] src'')"
        using r'(1) by (auto simp: Let_def split: list.split)
    qed
    then show ?thesis
      using found Bits s(1) by (simp add: pton_loop.simps(2) [of _ False] pton_loop.simps(2) [of _ True])
  qed
qed

lemma pton_loop_text:
  assumes "ok_label l" "\<forall>k \<in> set ls. ok_label k"
  shows "outcome {Fail} (enc_behind pre) (pton_loop dstsiz False pre [] (text_label l @ text_rest ls))"
  using assms
proof (induction ls arbitrary: l pre)
  case Nil
  then show ?case using pton_loop_label [of l "[]"] by (simp add: text_rest_def)
next
  case (Cons k ls)
  then have "outcome {Fail} (enc_behind pre') (pton_loop dstsiz False pre' [] (text_label k @ text_rest ls))" for pre'
    by simp
  then show ?case
    using Cons.prems text_label_not_Nil [of k]
    by (intro pton_loop_label) (auto simp: text_rest_def)
qed

lemma ns_name_pton_outcome:
  assumes "\<forall>l \<in> set ls. ok_label l"
  shows "outcome {Fail} (enc_behind []) (ns_name_pton (text_name ls) dstsiz)"
proof (cases ls)
  case Nil
  have "outcome {Fail} (enc_behind []) (pton_finish dstsiz [] [] 0 1)" by (rule pton_finish_behind) simp_all
  then show ?thesis using Nil by (simp add: text_name_def ns_name_pton_def pton_loop.simps(2))
next
  case (Cons l ks)
  then show ?thesis using assms pton_loop_text [of l ks] by (simp add: ns_name_pton_def text_name_Cons)
qed

section \<open>Properties\<close>

text \<open>
  C26. Round trip: for every name of ordinary labels that fits the wire format, printing its encoding
  with \<open>ns_name_ntop\<close> succeeds in a buffer of \<open>NS_MAXDNAME\<close> bytes and \<open>ns_name_pton\<close> reads the
  encoding back from the text, whatever bytes the labels are made of; only the root counts as
  fully qualified.
\<close>

theorem pton_ntop_roundtrip:
  assumes "\<forall>l \<in> set ls. ok_label l \<and> is_plain l" "length (enc_name ls) \<le> NS_MAXCDNAME"
  shows "bindE (ns_name_ntop (enc_name ls) NS_MAXDNAME) (\<lambda>s. ns_name_pton s NS_MAXCDNAME)
    = Inr (if ls = [] then 1 else 0, enc_name ls)"
proof -
  have "stands_at (enc_name ls) 0 (enc_name ls)" by (simp add: stands_at_def)
  then have "ns_name_ntop (enc_name ls) NS_MAXDNAME = Inr (text_name ls)"
    using assms by (intro ns_name_ntop_plain length_text_name_le) auto
  then show ?thesis using ns_name_pton_text [OF assms] by simp
qed

text \<open>The witness has a zero byte, a dot and a byte above 127 in one label.\<close>

lemma pton_ntop_roundtrip_witness:
  "bindE (ns_name_ntop [3, 0, 0x2E, 0xFF, 0] NS_MAXDNAME) (\<lambda>s. ns_name_pton s NS_MAXCDNAME)
    = Inr (0, [3, 0, 0x2E, 0xFF, 0])"
  using pton_ntop_roundtrip [of "[Plain [0, 0x2E, 0xFF]]"] by (simp add: is_plain_def)

text \<open>
  Where the round trip breaks: the five bit label of the byte 0x80 is printed in a form that
  \<open>ns_name_pton\<close> rejects, while the label of the byte 0x70 survives.
\<close>

theorem bitstring_roundtrip_fails:
  "bindE (ns_name_ntop (enc_name [Bits 5 [0x80]]) NS_MAXDNAME) (\<lambda>s. ns_name_pton s NS_MAXCDNAME) = Inl Fail
   \<and> bindE (ns_name_ntop (enc_name [Bits 5 [0x70]]) NS_MAXDNAME) (\<lambda>s. ns_name_pton s NS_MAXCDNAME)
     = Inr (0, enc_name [Bits 5 [0x70]])"
  by code_simp

text \<open>
  A bit string escape in the middle of a label, as in the text \<open>ab\[x80/8]\<close>, is accepted and
  encoded to bytes that are no name: the type byte of the bit string replaces the length of the
  label begun before it.
\<close>

theorem pton_midlabel_bitstring:
  "ns_name_pton ([0x61, 0x62] @ text_name [Bits 8 [0x80]]) NS_MAXCDNAME
    = Inr (0, [DNS_LABELTYPE_BITSTRING, 0x61, 0x62, 8, 0x80, 0])"
  by code_simp

end
