(* ===== verification/Pack.thy ===== *)
theory Pack
  imports Pton
begin

text \<open>
  Compression: the search for an earlier name (\<open>dn_find\<close>), \<open>ns_name_pack\<close>, \<open>ns_name_compress\<close>,
  \<open>ns_name_rollback\<close>, \<open>dn_comp\<close> and the lower-case copy \<open>ns_name_ntol\<close> of resolv.c. The array
  \<open>dnptrs\<close> is the list of the offsets behind its first element (which is the message itself,
  offset 0) up to the closing NULL.
\<close>

section \<open>dn_find\<close>

definition mklower :: "byte \<Rightarrow> byte" where
  "mklower ch = (if 0x41 \<le> unat ch \<and> unat ch \<le> 0x5A then ch + 0x20 else ch)"

text \<open>The comparison of \<open>n\<close> bytes; False is \<open>goto next\<close>.\<close>

fun cmp_bytes :: "byte list \<Rightarrow> byte list \<Rightarrow> nat \<Rightarrow> nat \<Rightarrow> nat \<Rightarrow> bool cres" where
  "cmp_bytes dm msg 0 dn cp = Inr True"
| "cmp_bytes dm msg (Suc n) dn cp =
     bindE (rd dm dn) (\<lambda>a. bindE (rd msg cp) (\<lambda>b.
       if mklower a \<noteq> mklower b then Inr False else cmp_bytes dm msg n (dn + 1) (cp + 1)))"

datatype dn_result = Found nat | Illegal | Next

text \<open>
  The inner loop that compares \<open>domain\<close> (from \<open>dn\<close>) with the name at \<open>cp\<close>, found from \<open>sp\<close>. It has
  no check for pointer loops, so it may not end: \<open>None\<close>.
\<close>

partial_function (option) dn_match ::
  "byte list \<Rightarrow> byte list \<Rightarrow> nat \<Rightarrow> nat \<Rightarrow> nat \<Rightarrow> dn_result cres option"
where
  "dn_match dm msg sp dn cp =
     (case rd msg cp of
        Inl e \<Rightarrow> Some (Inl e)
      | Inr n \<Rightarrow>
          if n = 0 then Some (Inr Next)
          else if n AND NS_CMPRSFLGS = 0 then
            (case bindE (labellen msg cp) (\<lambda>l. bindE (rd dm dn) (\<lambda>d.
                    if l \<noteq> unat d then Inr (False, l)
                    else bindE (cmp_bytes dm msg l (dn + 1) (cp + 1)) (\<lambda>same. Inr (same, l)))) of
               Inl e \<Rightarrow> Some (Inl e)
             | Inr (same, l) \<Rightarrow>
                 if \<not> same then Some (Inr Next)
                 else (case rd dm (dn + 1 + l) of
                     Inl e \<Rightarrow> Some (Inl e)
                   | Inr d \<Rightarrow>
                       if d = 0 then
                         Some (bindE (rd msg (cp + 1 + l)) (\<lambda>m.
                           if m = 0 then Inr (Found sp) else Inr Next))
                       else dn_match dm msg sp (dn + 1 + l) (cp + 1 + l)))
          else if n AND NS_CMPRSFLGS = NS_CMPRSFLGS then
            (case rd msg (cp + 1) of
               Inl e \<Rightarrow> Some (Inl e)
             | Inr b \<Rightarrow> dn_match dm msg sp dn (ptr_target n b))
          else Some (Inr Illegal))"

text \<open>The loop over the suffixes of one earlier name, from \<open>sp\<close>.\<close>

partial_function (option) dn_find_from ::
  "byte list \<Rightarrow> nat \<Rightarrow> byte list \<Rightarrow> nat \<Rightarrow> dn_result cres option"
where
  "dn_find_from dm off msg sp =
     (case rd msg sp of
        Inl e \<Rightarrow> Some (Inl e)
      | Inr s \<Rightarrow>
          if s \<noteq> 0 \<and> s AND NS_CMPRSFLGS = 0 \<and> sp < 0x4000 then
            (case dn_match dm msg sp off sp of
               None \<Rightarrow> None
             | Some (Inl e) \<Rightarrow> Some (Inl e)
             | Some (Inr (Found t)) \<Rightarrow> Some (Inr (Found t))
             | Some (Inr Illegal) \<Rightarrow> Some (Inr Illegal)
             | Some (Inr Next) \<Rightarrow> dn_find_from dm off msg (sp + unat s + 1))
          else Some (Inr Next))"

text \<open>The outer \<open>for\<close>: \<open>Some\<close> of the offset, or \<open>None\<close> for the return value \<open>-1\<close>.\<close>

fun dn_find :: "byte list \<Rightarrow> nat \<Rightarrow> byte list \<Rightarrow> nat list \<Rightarrow> nat option cres" where
  "dn_find dm off msg [] = Inr None"
| "dn_find dm off msg (sp # ptrs) =
     (case dn_find_from dm off msg sp of
        None \<Rightarrow> Inl Diverge
      | Some (Inl e) \<Rightarrow> Inl e
      | Some (Inr (Found t)) \<Rightarrow> Inr (Some t)
      | Some (Inr Illegal) \<Rightarrow> Inr None
      | Some (Inr Next) \<Rightarrow> dn_find dm off msg ptrs)"

section \<open>ns_name_pack\<close>

text \<open>The first loop: is the name legal? \<open>l\<close> counts its bytes.\<close>

function pack_legal :: "byte list \<Rightarrow> nat \<Rightarrow> nat \<Rightarrow> unit cres" where
  "pack_legal src srcp l = bindE (rd src srcp) (\<lambda>n.
     if n AND NS_CMPRSFLGS = NS_CMPRSFLGS then Inl Fail
     else bindE (labellen src srcp) (\<lambda>l0.
       if l + l0 + 1 > NS_MAXCDNAME then Inl Fail
       else if n \<noteq> 0 then pack_legal src (srcp + l0 + 1) (l + l0 + 1)
       else Inr ()))"
  by pat_completeness auto
termination
  by (relation "measure (\<lambda>(src, srcp, l). 256 - l)") auto

declare pack_legal.simps [simp del]

text \<open>
  The second loop. \<open>out\<close> are the bytes written at \<open>dst\<close> in the message buffer \<open>mem\<close>; \<open>ptrs0\<close> is the
  part of the array that is searched (up to \<open>lpp\<close>), \<open>ptrs\<close> the array as extended, \<open>lastp\<close> the index
  of \<open>lastdnptr\<close> (None for NULL). \<open>msg\<close> is whether there is a message to search at all.
\<close>

definition mem_put :: "byte list \<Rightarrow> nat \<Rightarrow> byte list \<Rightarrow> byte list" where
  "mem_put mem p bs = take p mem @ bs @ drop (p + length bs) mem"

function pack_loop ::
  "byte list \<Rightarrow> byte list \<Rightarrow> nat \<Rightarrow> nat \<Rightarrow> bool \<Rightarrow> nat list \<Rightarrow> nat option
   \<Rightarrow> nat \<Rightarrow> byte list \<Rightarrow> nat list \<Rightarrow> bool \<Rightarrow> (byte list \<times> nat list) cres"
where
  "pack_loop src mem dst dstsiz msg ptrs0 lastp srcp out ptrs first =
     bindE (rd src srcp) (\<lambda>n.
     bindE (if n \<noteq> 0 \<and> msg then dn_find src srcp (mem_put mem dst out) ptrs0 else Inr None) (\<lambda>found.
     case found of
       Some l \<Rightarrow>
         if length out + 1 \<ge> dstsiz then Inl Fail
         else bindE (wr dstsiz out [word_of_nat (l div 256) OR NS_CMPRSFLGS, word_of_nat (l mod 256)])
                (\<lambda>out'. Inr (out', ptrs))
     | None \<Rightarrow>
         (let save = n \<noteq> 0 \<and> msg \<and> dst + length out < 0x4000 \<and> first \<and>
                (case lastp of None \<Rightarrow> False | Some k \<Rightarrow> length ptrs + 2 < k);
              ptrs' = (if save then ptrs @ [dst + length out] else ptrs)
          in if n AND NS_CMPRSFLGS = NS_CMPRSFLGS then Inl Fail
             else bindE (labellen src srcp) (\<lambda>l.
               if length out + 1 + l \<ge> dstsiz then Inl Fail
               else bindE (rd_n src srcp (l + 1)) (\<lambda>bs. bindE (wr dstsiz out bs) (\<lambda>out'.
                 if l \<noteq> 0 then
                   pack_loop src mem dst dstsiz msg ptrs0 lastp (srcp + l + 1) out' ptrs' (first \<and> \<not> save)
                 else Inr (out', ptrs')))))))"
  by pat_completeness auto
termination
  by (relation "measure (\<lambda>(src, mem, dst, dstsiz, msg, ptrs0, lastp, srcp, out, ptrs, first).
        dstsiz - length out)") (auto simp: mem_Inr_iff)

declare pack_loop.simps [simp del]

text \<open>
  \<open>ns_name_pack\<close>: the bytes written and the array as updated (on failure the array ends at \<open>lpp\<close>
  again, so it is \<open>ptrs\<close>). \<open>dnptrs\<close> is None when it, or its first element, is NULL.
\<close>

definition ns_name_pack ::
  "byte list \<Rightarrow> byte list \<Rightarrow> nat \<Rightarrow> nat \<Rightarrow> nat list option \<Rightarrow> nat option
   \<Rightarrow> (byte list \<times> nat list) cres"
where
  "ns_name_pack src mem dst dstsiz dnptrs lastp =
     bindE (pack_legal src 0 0) (\<lambda>_.
       case dnptrs of
         None \<Rightarrow> pack_loop src mem dst dstsiz False [] lastp 0 [] [] True
       | Some ptrs \<Rightarrow> pack_loop src mem dst dstsiz True ptrs lastp 0 [] ptrs True)"

definition ns_name_compress ::
  "cstr \<Rightarrow> byte list \<Rightarrow> nat \<Rightarrow> nat \<Rightarrow> nat list option \<Rightarrow> nat option
   \<Rightarrow> (byte list \<times> nat list) cres"
where
  "ns_name_compress src mem dst dstsiz dnptrs lastp =
     bindE (ns_name_pton src NS_MAXCDNAME) (\<lambda>(_, tmp). ns_name_pack tmp mem dst dstsiz dnptrs lastp)"

definition dn_comp ::
  "cstr \<Rightarrow> byte list \<Rightarrow> nat \<Rightarrow> nat \<Rightarrow> nat list option \<Rightarrow> nat option
   \<Rightarrow> (byte list \<times> nat list) cres"
where
  "dn_comp src mem dst dstsiz dnptrs lastp = ns_name_compress src mem dst dstsiz dnptrs lastp"

text \<open>\<open>ns_name_rollback\<close> on the array before \<open>lastdnptr\<close>: cut it at the first pointer not below \<open>src\<close>.\<close>

fun ns_name_rollback :: "nat \<Rightarrow> nat list \<Rightarrow> nat list" where
  "ns_name_rollback src [] = []"
| "ns_name_rollback src (p # ptrs) = (if p \<ge> src then [] else p # ns_name_rollback src ptrs)"

section \<open>Packing with nothing to refer to\<close>

lemma pack_legal_ok:
  assumes "\<forall>l \<in> set ls. ok_label l" "stands_at src srcp (enc_name ls)"
    "l + length (enc_name ls) \<le> NS_MAXCDNAME"
  shows "pack_legal src srcp l = Inr ()"
  using assms
proof (induction ls arbitrary: srcp l)
  case Nil
  then show ?case
    by (subst pack_legal.simps) (simp add: mem_simps labellen_def byte_class)
next
  case (Cons k ls)
  obtain n rest where k: "enc_label k = n # rest" "n \<noteq> 0" "n AND NS_CMPRSFLGS \<noteq> NS_CMPRSFLGS"
    using Cons.prems(1) by (auto elim!: enc_label_Cons)
  have "labellen src srcp = Inr (length rest)" "rd src srcp = Inr n"
    using labellen_enc [of k src srcp] Cons.prems(1,2) k(1) by (simp_all add: mem_simps)
  moreover have "pack_legal src (srcp + length rest + 1) (l + length rest + 1) = Inr ()"
    using Cons.prems k(1) by (intro Cons.IH) auto
  ultimately show ?case
    using Cons.prems k by (subst pack_legal.simps) simp
qed

text \<open>With an empty array to search the name is copied; the first label's place is recorded once.\<close>

lemma pack_loop_copy:
  assumes "\<forall>l \<in> set ls. ok_label l" "stands_at src srcp (enc_name ls)"
    "length out + length (enc_name ls) < dstsiz"
  shows "\<exists>ptrs'. pack_loop src mem dst dstsiz msg [] lastp srcp out ptrs first = Inr (out @ enc_name ls, ptrs')"
  using assms
proof (induction ls arbitrary: srcp out ptrs first)
  case Nil
  then have "rd_n src srcp (Suc 0) = Inr [0]"
    using rd_n_stands_at [of src srcp "[0]"] by simp
  with Nil show ?case
    by (subst pack_loop.simps) (simp add: mem_simps labellen_def byte_class Let_def)
next
  case (Cons k ls)
  obtain n rest where k: "enc_label k = n # rest" "n \<noteq> 0" "n AND NS_CMPRSFLGS \<noteq> NS_CMPRSFLGS" "rest \<noteq> []"
    using Cons.prems(1) by (auto elim!: enc_label_Cons)
  have st: "stands_at src srcp (n # rest)" using Cons.prems(2) k(1) by simp
  have rest: "labellen src srcp = Inr (length rest)" "rd src srcp = Inr n"
    "rd_n src srcp (Suc (length rest)) = Inr (n # rest)"
    using labellen_enc [of k src srcp] Cons.prems(1,2) k(1)
      rd_n_stands_at [OF st stands_at_length [OF st]] by (simp_all add: mem_simps)
  have "\<exists>ptrs'' first''. pack_loop src mem dst dstsiz msg [] lastp srcp out ptrs first =
      pack_loop src mem dst dstsiz msg [] lastp (srcp + length rest + 1) (out @ n # rest) ptrs'' first''"
    using rest k Cons.prems(3) by (subst pack_loop.simps) (auto simp: mem_simps Let_def)
  then obtain ptrs'' first'' where "pack_loop src mem dst dstsiz msg [] lastp srcp out ptrs first =
      pack_loop src mem dst dstsiz msg [] lastp (srcp + length rest + 1) (out @ n # rest) ptrs'' first''"
    by blast
  moreover have "\<exists>ptrs'. pack_loop src mem dst dstsiz msg [] lastp (srcp + length rest + 1) (out @ n # rest) ptrs'' first''
      = Inr ((out @ n # rest) @ enc_name ls, ptrs')"
    using Cons.prems k(1) by (intro Cons.IH) auto
  ultimately show ?case using k(1) by auto
qed

lemma ns_name_compress_text:
  assumes "\<forall>l \<in> set ls. ok_label l \<and> is_plain l" "length (enc_name ls) \<le> NS_MAXCDNAME"
    "length (enc_name ls) < dstsiz"
  shows "\<exists>ptrs'. ns_name_compress (text_name ls) mem dst dstsiz (Some []) lastp = Inr (enc_name ls, ptrs')"
proof -
  have st: "stands_at (enc_name ls) 0 (enc_name ls)" by (simp add: stands_at_def)
  have "\<exists>ptrs'. pack_loop (enc_name ls) mem dst dstsiz True [] lastp 0 [] [] True = Inr ([] @ enc_name ls, ptrs')"
    using assms by (intro pack_loop_copy) (auto simp: stands_at_def)
  moreover have "pack_legal (enc_name ls) 0 0 = Inr ()"
    using assms st by (intro pack_legal_ok) auto
  ultimately show ?thesis
    using assms by (auto simp: ns_name_compress_def ns_name_pack_def ns_name_pton_text)
qed

text \<open>The text of any name: it is rejected, or some name in wire format is written.\<close>

lemma ns_name_compress_printed:
  assumes "\<forall>l \<in> set ls. ok_label l" "NS_MAXCDNAME < dstsiz"
  obtains "\<And>mem dst. ns_name_compress (text_name ls) mem dst dstsiz (Some []) lastp = Inl Fail"
  | ks where "\<forall>k \<in> set ks. ok_label k" "length (enc_name ks) \<le> NS_MAXCDNAME"
    "\<And>mem dst. \<exists>ptrs. ns_name_compress (text_name ls) mem dst dstsiz (Some []) lastp = Inr (enc_name ks, ptrs)"
proof (cases "ns_name_pton (text_name ls) NS_MAXCDNAME")
  case (Inl e)
  then have "e = Fail" using ns_name_pton_outcome [OF assms(1), of NS_MAXCDNAME] by simp
  then show ?thesis using that(1) Inl by (simp add: ns_name_compress_def)
next
  case (Inr r)
  then obtain ks where ks: "\<forall>k \<in> set ks. ok_label k" "snd r = enc_name ks" "length (enc_name ks) \<le> NS_MAXCDNAME"
    using ns_name_pton_outcome [OF assms(1), of NS_MAXCDNAME] by (auto simp: enc_behind_def)
  have st: "stands_at (enc_name ks) 0 (enc_name ks)" by (simp add: stands_at_def)
  have "\<exists>ptrs. ns_name_compress (text_name ls) mem dst dstsiz (Some []) lastp = Inr (enc_name ks, ptrs)" for mem dst
  proof -
    have "\<exists>ptrs'. pack_loop (enc_name ks) mem dst dstsiz True [] lastp 0 [] [] True = Inr ([] @ enc_name ks, ptrs')"
      using ks assms(2) st by (intro pack_loop_copy) auto
    moreover have "pack_legal (enc_name ks) 0 0 = Inr ()" using ks st by (intro pack_legal_ok) auto
    ultimately show ?thesis using Inr ks(2) by (cases r) (auto simp: ns_name_compress_def ns_name_pack_def)
  qed
  then show ?thesis using that(2) ks(1,3) by blast
qed

section \<open>ns_name_ntol\<close>

text \<open>The lower-case copy of an encoded name. \<open>isupper\<close> and \<open>tolower\<close> are those of the C locale.\<close>

fun ntol_label :: "byte list \<Rightarrow> nat \<Rightarrow> nat \<Rightarrow> nat \<Rightarrow> byte list \<Rightarrow> (nat \<times> byte list) cres" where
  "ntol_label src dstsiz 0 cp dn = Inr (cp, dn)"
| "ntol_label src dstsiz (Suc l) cp dn = bindE (rd src cp) (\<lambda>c.
     bindE (wr dstsiz dn [mklower c]) (\<lambda>dn'. ntol_label src dstsiz l (cp + 1) dn'))"

lemma ntol_label_cp: "ntol_label src dstsiz l cp dn = Inr (cp', dn') \<Longrightarrow> cp' = cp + l"
  by (induction l arbitrary: cp dn) (fastforce simp: bindE_Inr_iff)+

function ntol_loop :: "byte list \<Rightarrow> nat \<Rightarrow> nat \<Rightarrow> byte list \<Rightarrow> byte list cres" where
  "ntol_loop src dstsiz cp dn = bindE (rd src cp) (\<lambda>n.
     if n = 0 then wr dstsiz dn [0]
     else if n AND NS_CMPRSFLGS = NS_CMPRSFLGS then Inl Fail
     else bindE (wr dstsiz dn [n]) (\<lambda>dn1. bindE (labellen src cp) (\<lambda>l.
       if length dn1 + l \<ge> dstsiz then Inl Fail
       else bindE (ntol_label src dstsiz l (cp + 1) dn1) (\<lambda>(cp', dn'). ntol_loop src dstsiz cp' dn'))))"
  by pat_completeness auto
termination
  by (relation "measure (\<lambda>(src, dstsiz, cp, dn). length src - cp)") (auto simp: rd_Inr_iff dest!: ntol_label_cp)

declare ntol_loop.simps [simp del]

definition ns_name_ntol :: "byte list \<Rightarrow> nat \<Rightarrow> byte list cres" where
  "ns_name_ntol src dstsiz = (if dstsiz = 0 then Inl Fail else ntol_loop src dstsiz 0 [])"

text \<open>What it computes: everything behind the first byte of each label in lower case.\<close>

definition lower_label :: "label \<Rightarrow> byte list" where
  "lower_label l = hd (enc_label l) # map mklower (tl (enc_label l))"

lemma ntol_label_ok:
  "stands_at src cp cs \<Longrightarrow> length dn + length cs \<le> dstsiz \<Longrightarrow>
   ntol_label src dstsiz (length cs) cp dn = Inr (cp + length cs, dn @ map mklower cs)"
  by (induction cs arbitrary: cp dn) (simp_all add: mem_simps)

lemma ntol_loop_ok:
  assumes "\<forall>l \<in> set ls. ok_label l" "stands_at src cp (enc_name ls)" "length dn < dstsiz"
  shows "ntol_loop src dstsiz cp dn =
    (if length dn + length (enc_name ls) \<le> dstsiz then Inr (dn @ concat (map lower_label ls) @ [0]) else Inl Fail)"
  using assms
proof (induction ls arbitrary: cp dn)
  case Nil
  then show ?case by (subst ntol_loop.simps) (simp add: mem_simps)
next
  case (Cons l ls)
  obtain n rest where n: "enc_label l = n # rest" "n \<noteq> 0" "n AND NS_CMPRSFLGS \<noteq> NS_CMPRSFLGS"
    using Cons.prems(1) by (auto elim!: enc_label_Cons)
  have len: "labellen src cp = Inr (length rest)"
    using labellen_enc [of l src cp] Cons.prems(1,2) n(1) by simp
  have st: "rd src cp = Inr n" "wr dstsiz dn [n] = Inr (dn @ [n])"
    using Cons.prems(2,3) n(1) by (simp_all add: mem_simps)
  show ?case
  proof (cases "length dn + 1 + length rest \<ge> dstsiz")
    case True
    moreover have "0 < length (enc_name ls)" "length (enc_name (l # ls)) = 1 + length rest + length (enc_name ls)"
      using n(1) by simp_all
    ultimately have "\<not> length dn + length (enc_name (l # ls)) \<le> dstsiz" by linarith
    then show ?thesis using True n len st by (subst ntol_loop.simps) simp
  next
    case False
    then have "ntol_label src dstsiz (length rest) (cp + 1) (dn @ [n])
        = Inr (cp + 1 + length rest, (dn @ [n]) @ map mklower rest)"
      using Cons.prems(2) n(1) by (intro ntol_label_ok) auto
    then have "ntol_loop src dstsiz cp dn = ntol_loop src dstsiz (cp + 1 + length rest) (dn @ lower_label l)"
      using False n len st by (subst ntol_loop.simps) (simp add: lower_label_def)
    moreover have "ntol_loop src dstsiz (cp + 1 + length rest) (dn @ lower_label l) =
        (if length (dn @ lower_label l) + length (enc_name ls) \<le> dstsiz
         then Inr ((dn @ lower_label l) @ concat (map lower_label ls) @ [0]) else Inl Fail)"
      using False Cons.prems n(1) by (intro Cons.IH) (auto simp: lower_label_def)
    moreover have "length (lower_label l) = 1 + length rest" "length (enc_label l) = 1 + length rest"
      using n(1) by (simp_all add: lower_label_def)
    ultimately show ?thesis by simp
  qed
qed

section \<open>Properties\<close>

text \<open>
  \<open>ns_name_ntol\<close> copies the encoding of any list of labels with the bytes behind the label
  types in lower case, when the destination can hold it, and otherwise fails; it never writes
  outside the destination.
\<close>

theorem ns_name_ntol_lower:
  assumes "\<forall>l \<in> set ls. ok_label l"
  shows "ns_name_ntol (enc_name ls @ rest) dstsiz =
    (if length (enc_name ls) \<le> dstsiz then Inr (concat (map lower_label ls) @ [0]) else Inl Fail)"
proof -
  have "stands_at (enc_name ls @ rest) 0 (enc_name ls)" by (simp add: stands_at_def)
  then show ?thesis
    using ntol_loop_ok [OF assms, of _ 0 "[]" dstsiz] by (cases "dstsiz = 0") (auto simp: ns_name_ntol_def)
qed

lemma ns_name_ntol_lower_witness: "ns_name_ntol [2, 0x41, 0x7A, 0] 4 = Inr [2, 0x61, 0x7A, 0]"
  using ns_name_ntol_lower [of "[Plain [0x41, 0x7A]]" "[]" 4] by (simp add: lower_label_def mklower_def)

text \<open>
  Compression without an earlier name to refer to is the plain encoding: for a name of ordinary
  labels and an array \<open>dnptrs\<close> that holds only the message, \<open>ns_name_compress\<close> writes the encoded
  name whenever that fits in \<open>dstsiz\<close> bytes with one byte to spare.
\<close>

theorem ns_name_compress_plain:
  assumes "\<forall>l \<in> set ls. ok_label l \<and> is_plain l" "length (enc_name ls) \<le> NS_MAXCDNAME"
    "length (enc_name ls) < dstsiz"
  shows "\<exists>ptrs. ns_name_compress (text_name ls) mem dst dstsiz (Some []) lastp = Inr (enc_name ls, ptrs)"
  using assms by (rule ns_name_compress_text)

lemma ns_name_compress_plain_witness:
  "\<exists>ptrs. ns_name_compress (text_name [Plain [0x61]]) [] 12 4 (Some []) (Some 20) = Inr ([1, 0x61, 0], ptrs)"
  using ns_name_compress_plain [of "[Plain [0x61]]" 4 "[]" 12 "Some 20"] by (simp add: is_plain_def)
end
