(* ===== verification/Message.thy ===== *)
theory Message
  imports Pack
begin

text \<open>
  Parsing of DNS messages: \<open>ns_initparse\<close>, \<open>ns_skiprr\<close>, \<open>ns_parserr\<close>, \<open>setsection\<close>,
  \<open>ns_name_uncompress\<close> and \<open>dn_expand\<close> of resolv.c, with the handle \<open>ns_msg\<close> and the record
  \<open>ns_rr\<close> of resolv.h. A message is the buffer it was received into together with its length
  \<open>eom\<close>; pointers into it are offsets, and a NULL pointer is None.
\<close>

section \<open>Handles and records\<close>

abbreviation (input) ns_s_qd :: nat where "ns_s_qd \<equiv> 0"
abbreviation (input) ns_s_an :: nat where "ns_s_an \<equiv> 1"
abbreviation (input) ns_s_max :: nat where "ns_s_max \<equiv> 4"

record ns_msg =
  m_eom :: nat
  m_id :: "16 word"
  m_flags :: "16 word"
  m_counts :: "16 word list"
  m_sections :: "nat option list"
  m_sect :: nat
  m_rrnum :: int
  m_msg_ptr :: "nat option"

record ns_rr =
  rr_name :: cstr
  rr_ttl :: "32 word"
  rr_type :: "16 word"
  rr_rdlength :: "16 word"
  rr_rdata :: "nat option"

definition setsection :: "ns_msg \<Rightarrow> nat \<Rightarrow> ns_msg" where
  "setsection msg sect =
     (if sect = ns_s_max then msg\<lparr>m_sect := sect, m_rrnum := - 1, m_msg_ptr := None\<rparr>
      else msg\<lparr>m_sect := sect, m_rrnum := 0, m_msg_ptr := m_sections msg ! sect\<rparr>)"

section \<open>Expanding a name\<close>

definition ns_name_uncompress :: "byte list \<Rightarrow> nat \<Rightarrow> nat \<Rightarrow> nat \<Rightarrow> (int \<times> cstr) cres" where
  "ns_name_uncompress buf eom src dstsiz =
     bindE (ns_name_unpack buf eom src NS_MAXCDNAME) (\<lambda>(n, tmp).
     bindE (ns_name_ntop tmp dstsiz) (\<lambda>s. Inr (n, s)))"

text \<open>\<open>dn_expand\<close> turns the root, printed as a dot, into the empty string.\<close>

definition dn_expand :: "byte list \<Rightarrow> nat \<Rightarrow> nat \<Rightarrow> nat \<Rightarrow> (int \<times> cstr) cres" where
  "dn_expand buf eom src dstsiz =
     bindE (ns_name_uncompress buf eom src dstsiz) (\<lambda>(n, s).
       if n > 0 \<and> s \<noteq> [] \<and> hd s = CH_dot then Inr (n, []) else Inr (n, s))"

section \<open>Skipping records\<close>

fun skiprr_loop :: "byte list \<Rightarrow> nat \<Rightarrow> nat \<Rightarrow> nat \<Rightarrow> nat \<Rightarrow> nat cres" where
  "skiprr_loop buf eom sect 0 ptr = Inr ptr"
| "skiprr_loop buf eom sect (Suc count) ptr =
     bindE (dn_skipname buf eom ptr) (\<lambda>b.
       let p = ptr + b + 2 + 2 in
       if sect \<noteq> ns_s_qd then
         if p + 4 + 2 > eom then Inl Fail
         else bindE (NS_GET16 buf (p + 4)) (\<lambda>rdlength.
                skiprr_loop buf eom sect count (p + 4 + 2 + unat rdlength))
       else skiprr_loop buf eom sect count p)"

definition ns_skiprr :: "byte list \<Rightarrow> nat \<Rightarrow> nat \<Rightarrow> nat \<Rightarrow> nat \<Rightarrow> nat cres" where
  "ns_skiprr buf eom ptr sect count =
     bindE (skiprr_loop buf eom sect count ptr) (\<lambda>p. if p > eom then Inl Fail else Inr (p - ptr))"

section \<open>ns_initparse\<close>

text \<open>The two \<open>for\<close> loops over the sections: the counts, then where each section starts.\<close>

fun init_counts :: "byte list \<Rightarrow> nat \<Rightarrow> nat \<Rightarrow> nat \<Rightarrow> (16 word list \<times> nat) cres" where
  "init_counts buf eom 0 p = Inr ([], p)"
| "init_counts buf eom (Suc k) p =
     (if p + 2 > eom then Inl Fail
      else bindE (NS_GET16 buf p) (\<lambda>c.
           bindE (init_counts buf eom k (p + 2)) (\<lambda>(cs, p'). Inr (c # cs, p'))))"

fun init_sections ::
  "byte list \<Rightarrow> nat \<Rightarrow> nat \<Rightarrow> 16 word list \<Rightarrow> nat \<Rightarrow> (nat option list \<times> nat) cres"
where
  "init_sections buf eom i [] p = Inr ([], p)"
| "init_sections buf eom i (c # cs) p =
     (if c = 0 then
        bindE (init_sections buf eom (i + 1) cs p) (\<lambda>(ss, p'). Inr (None # ss, p'))
      else bindE (ns_skiprr buf eom p i (unat c)) (\<lambda>b.
           bindE (init_sections buf eom (i + 1) cs (p + b)) (\<lambda>(ss, p'). Inr (Some p # ss, p'))))"

definition ns_initparse :: "byte list \<Rightarrow> nat \<Rightarrow> ns_msg cres" where
  "ns_initparse buf msglen =
     (if 2 > msglen then Inl Fail
      else bindE (NS_GET16 buf 0) (\<lambda>id.
      if 4 > msglen then Inl Fail
      else bindE (NS_GET16 buf 2) (\<lambda>flags.
      bindE (init_counts buf msglen ns_s_max 4) (\<lambda>(counts, p).
      bindE (init_sections buf msglen 0 counts p) (\<lambda>(sections, p').
        if p' \<noteq> msglen then Inl Fail
        else Inr (setsection
          \<lparr>m_eom = msglen, m_id = id, m_flags = flags, m_counts = counts, m_sections = sections,
           m_sect = 0, m_rrnum = 0, m_msg_ptr = None\<rparr> ns_s_max))))))"

section \<open>ns_parserr\<close>

text \<open>
  A call of \<open>ns_parserr\<close> changes the handle also when it returns \<open>-1\<close>, so its result is the handle
  with the record, or with None for \<open>-1\<close>; the record the caller passed is not looked at then, and its
  half-written fields are not modelled. First the part that finds the record: section, number, position.
  A NULL position is dereferenced when records have to be skipped; otherwise the call of \<open>dn_expand\<close>
  that comes next returns \<open>-1\<close> for it (\<open>srcp < msg\<close>).
\<close>

definition parserr_seek :: "byte list \<Rightarrow> ns_msg \<Rightarrow> nat \<Rightarrow> int \<Rightarrow> (ns_msg \<times> nat option) cres" where
  "parserr_seek buf h0 sect rrnum0 =
     (if sect \<ge> ns_s_max then Inr (h0, None)
      else let h1 = (if sect \<noteq> m_sect h0 then setsection h0 sect else h0);
               rrnum = (if rrnum0 = - 1 then m_rrnum h1 else rrnum0)
        in if rrnum < 0 \<or> rrnum \<ge> uint (m_counts h1 ! sect) then Inr (h1, None)
           else let h2 = (if rrnum < m_rrnum h1 then setsection h1 sect else h1)
             in case m_msg_ptr h2 of
                  None \<Rightarrow> if rrnum > m_rrnum h2 then Inl Oob else Inr (h2, None)
                | Some p \<Rightarrow>
                    if rrnum > m_rrnum h2 then
                      attempt (ns_skiprr buf (m_eom h2) p sect (nat (rrnum - m_rrnum h2))) (Inr (h2, None)) (\<lambda>b.
                        Inr (h2\<lparr>m_msg_ptr := Some (p + b), m_rrnum := rrnum\<rparr>, Some (p + b)))
                    else Inr (h2, Some p))"

text \<open>The end of a successful call: the position behind the record, and its number is used up.\<close>

definition parserr_next :: "ns_msg \<Rightarrow> nat \<Rightarrow> nat \<Rightarrow> ns_msg" where
  "parserr_next h sect p =
     (let h' = h\<lparr>m_msg_ptr := Some p, m_rrnum := m_rrnum h + 1\<rparr>
      in if m_rrnum h' > uint (m_counts h' ! sect) then setsection h' (sect + 1) else h')"

definition ns_parserr :: "byte list \<Rightarrow> ns_msg \<Rightarrow> nat \<Rightarrow> int \<Rightarrow> (ns_msg \<times> ns_rr option) cres" where
  "ns_parserr buf handle sect rrnum =
     bindE (parserr_seek buf handle sect rrnum) (\<lambda>(h, pos). case pos of None \<Rightarrow> Inr (h, None) | Some p \<Rightarrow>
     attempt (dn_expand buf (m_eom h) p NS_MAXDNAME) (Inr (h, None)) (\<lambda>(b, name).
     let p1 = p + nat b; eom = m_eom h in
     if p1 + 2 + 2 > eom then Inr (h\<lparr>m_msg_ptr := Some p1\<rparr>, None)
     else bindE (NS_GET16 buf p1) (\<lambda>type.
     if sect = ns_s_qd then
       Inr (parserr_next h sect (p1 + 4),
         Some \<lparr>rr_name = name, rr_ttl = 0, rr_type = type, rr_rdlength = 0, rr_rdata = None\<rparr>)
     else if p1 + 4 + 4 + 2 > eom then Inr (h\<lparr>m_msg_ptr := Some (p1 + 4)\<rparr>, None)
     else bindE (NS_GET32 buf (p1 + 4)) (\<lambda>ttl. bindE (NS_GET16 buf (p1 + 8)) (\<lambda>rdlength.
       if p1 + 10 + unat rdlength > eom then Inr (h\<lparr>m_msg_ptr := Some (p1 + 10)\<rparr>, None)
       else Inr (parserr_next h sect (p1 + 10 + unat rdlength),
         Some \<lparr>rr_name = name, rr_ttl = ttl, rr_type = type, rr_rdlength = rdlength, rr_rdata = Some (p1 + 10)\<rparr>))))))"

text \<open>What the callers make of it: \<open>-1\<close> is passed on.\<close>

definition found :: "('h \<times> 'a option) cres \<Rightarrow> ('h \<times> 'a) cres" where
  "found m = bindE m (\<lambda>(h, r). case r of None \<Rightarrow> Inl Fail | Some x \<Rightarrow> Inr (h, x))"

lemma found_Inr_iff [simp]: "found m = Inr (h, x) \<longleftrightarrow> m = Inr (h, Some x)"
  by (auto simp: found_def bindE_Inr_iff split: option.splits)

lemma found_simps [simp]: "found (Inr (h, Some x)) = Inr (h, x)" "found (Inr (h, None)) = Inl Fail" "found (Inl e) = Inl e"
  by (simp_all add: found_def)

lemma safe_found: "safe m \<Longrightarrow> safe (found m)"
  by (auto simp: found_def intro!: safe_bindE split: option.split)

section \<open>Expanded names\<close>

lemma hd_text_name: "\<forall>l \<in> set ls. ok_label l \<Longrightarrow> text_name ls \<noteq> [] \<and> (hd (text_name ls) = CH_dot \<longleftrightarrow> ls = [])"
proof (cases ls)
  case (Cons l ks)
  assume "\<forall>l \<in> set ls. ok_label l"
  then have l: "ok_label l" using Cons by simp
  have "text_label l \<noteq> [] \<and> hd (text_label l @ text_rest ks) \<noteq> CH_dot"
  proof (cases l)
    case (Plain cs)
    then obtain c ds where "cs = c # ds" using l by (cases cs) auto
    then show ?thesis using Plain hd_text_char [of c] by simp
  qed (simp add: text_bits_def Let_def)
  then show ?thesis using l Cons by (auto simp: text_name_Cons)
qed (simp add: text_name_def)

text \<open>
  What \<open>dn_expand\<close> returns: the length of the encoded name, and the text of the labels the message
  denotes there (empty for the root), shorter than the buffer.
\<close>

lemma dn_expand_InrE:
  assumes "dn_expand buf eom src dstsiz = Inr (n, s)" "eom \<le> length buf"
  obtains ls where "name_at buf eom src ls" "\<forall>l \<in> set ls. ok_label l"
    "s = (if ls = [] then [] else text_name ls)" "length (text_name ls) < dstsiz"
    "length (enc_name ls) \<le> NS_MAXCDNAME"
    "dn_skipname buf eom src = Inr (nat n)" "0 < n" "src + nat n \<le> eom"
proof -
  from assms(1) obtain tmp s' where u: "ns_name_unpack buf eom src NS_MAXCDNAME = Inr (n, tmp)"
    and t: "ns_name_ntop tmp dstsiz = Inr s'"
    and s: "s = (if n > 0 \<and> s' \<noteq> [] \<and> hd s' = CH_dot then [] else s')"
    by (auto simp: dn_expand_def ns_name_uncompress_def bindE_Inr_iff split: if_splits)
  from u assms(2) obtain ls where ls: "name_at buf eom src ls" "\<forall>l \<in> set ls. ok_label l"
    "tmp = enc_name ls" "length tmp \<le> NS_MAXCDNAME" "dn_skipname buf eom src = Inr (nat n)" "0 < n"
    "src + nat n \<le> eom"
    by (rule ns_name_unpack_InrE)
  have "stands_at tmp 0 (enc_name ls)" using ls(3) by (simp add: stands_at_def)
  then have "s' = text_name ls \<and> length (text_name ls) < dstsiz"
    using ns_name_ntop_sound [OF ls(2), of tmp dstsiz] t by auto
  then show ?thesis
    using that [OF ls(1,2)] ls s hd_text_name [OF ls(2)] by auto
qed

lemma dn_expand_plain:
  assumes "\<forall>l \<in> set ls. ok_label l \<and> is_plain l" "stands_at buf src (enc_name ls)"
    "src + length (enc_name ls) \<le> eom" "eom \<le> length buf" "length (enc_name ls) \<le> NS_MAXCDNAME"
  shows "dn_expand buf eom src NS_MAXDNAME
      = Inr (int (length (enc_name ls)), if ls = [] then [] else text_name ls)"
    and "dn_skipname buf eom src = Inr (length (enc_name ls))"
proof -
  have ok: "\<forall>l \<in> set ls. ok_label l" using assms(1) by blast
  have u: "ns_name_unpack buf eom src NS_MAXCDNAME = Inr (int (length (enc_name ls)), enc_name ls)"
    by (rule ns_name_unpack_plain [OF ok assms(2-5)])
  then have "dn_skipname buf eom src = Inr (nat (int (length (enc_name ls))))"
    using assms(4) by (rule ns_name_unpack_InrE)
  then show "dn_skipname buf eom src = Inr (length (enc_name ls))" by simp
  have "stands_at (enc_name ls) 0 (enc_name ls)" by (simp add: stands_at_def)
  then have "ns_name_ntop (enc_name ls) NS_MAXDNAME = Inr (text_name ls)"
    using assms by (intro ns_name_ntop_plain length_text_name_le) auto
  then show "dn_expand buf eom src NS_MAXDNAME
      = Inr (int (length (enc_name ls)), if ls = [] then [] else text_name ls)"
    using u hd_text_name [OF ok] by (auto simp: dn_expand_def ns_name_uncompress_def)
qed

lemma dn_expand_safe:
  assumes "eom < length buf"
  shows "safe (dn_expand buf eom src dstsiz)"
proof -
  have "safe (ns_name_ntop tmp dstsiz)" if u: "ns_name_unpack buf eom src NS_MAXCDNAME = Inr (n, tmp)" for n tmp
  proof -
    obtain ls where ls: "\<forall>l \<in> set ls. ok_label l" "tmp = enc_name ls"
      using u assms by (auto elim: ns_name_unpack_InrE)
    then have "stands_at tmp 0 (enc_name ls)" by (simp add: stands_at_def)
    then show ?thesis using ns_name_ntop_sound [OF ls(1), of tmp dstsiz] by auto
  qed
  then show ?thesis
    using ns_name_unpack_safe [OF assms, of NS_MAXCDNAME src]
    by (auto simp: dn_expand_def ns_name_uncompress_def intro!: safe_bindE)
qed

section \<open>Safety and well-formed handles\<close>

lemma skiprr_loop_safe: "eom < length buf \<Longrightarrow> safe (skiprr_loop buf eom sect count ptr)"
proof (induction count arbitrary: ptr)
  case (Suc count)
  then show ?case
    by (auto simp: Let_def intro!: safe_bindE dn_skipname_safe NS_GET16_safe)
qed simp

lemma ns_skiprr_safe: "eom < length buf \<Longrightarrow> safe (ns_skiprr buf eom ptr sect count)"
  by (auto simp: ns_skiprr_def intro!: safe_bindE skiprr_loop_safe)

lemma skiprr_loop_ge: "skiprr_loop buf eom sect count ptr = Inr p \<Longrightarrow> ptr \<le> p"
  by (induction count arbitrary: ptr) (fastforce simp: bindE_Inr_iff Let_def split: if_splits)+

lemma ns_skiprr_bounds: "ns_skiprr buf eom ptr sect count = Inr b \<Longrightarrow> ptr + b \<le> eom"
  by (auto simp: ns_skiprr_def bindE_Inr_iff split: if_splits dest: skiprr_loop_ge)

lemma init_counts_safe: "eom < length buf \<Longrightarrow> safe (init_counts buf eom k p)"
  by (induction k arbitrary: p) (auto simp: mem_simps intro!: safe_bindE)

lemma init_counts_Inr:
  "init_counts buf eom k p = Inr (cs, p') \<Longrightarrow> length cs = k \<and> p' = p + 2 * k \<and> (k > 0 \<longrightarrow> p' \<le> eom)
     \<and> (\<forall>i < k. NS_GET16 buf (p + 2 * i) = Inr (cs ! i))"
proof (induction k arbitrary: p cs)
  case (Suc k)
  then obtain c ds where c: "NS_GET16 buf p = Inr c" "cs = c # ds" "p + 2 \<le> eom"
    "init_counts buf eom k (p + 2) = Inr (ds, p')"
    by (auto simp: bindE_Inr_iff split: if_splits)
  have "NS_GET16 buf (p + 2 * i) = Inr (cs ! i)" if "i < Suc k" for i
    using that c Suc.IH [OF c(4)] by (cases i) auto
  with Suc.IH [OF c(4)] c show ?case by (cases k) auto
qed simp

lemma init_sections_safe: "eom < length buf \<Longrightarrow> safe (init_sections buf eom i cs p)"
  by (induction cs arbitrary: i p) (auto intro!: safe_bindE ns_skiprr_safe)

lemma init_sections_Inr:
  "init_sections buf eom i cs p = Inr (ss, p') \<Longrightarrow> length ss = length cs \<and> p \<le> p'
     \<and> (\<forall>j < length cs. ss ! j = None \<longleftrightarrow> cs ! j = 0)"
proof (induction cs arbitrary: i p ss)
  case (Cons c cs)
  show ?case
  proof (cases "c = 0")
    case True
    with Cons.prems obtain ts where "ss = None # ts" "init_sections buf eom (i + 1) cs p = Inr (ts, p')"
      by (auto simp: bindE_Inr_iff)
    with Cons.IH True show ?thesis by (fastforce simp: nth_Cons split: nat.splits)
  next
    case False
    with Cons.prems obtain ts b where "ss = Some p # ts" "init_sections buf eom (i + 1) cs (p + b) = Inr (ts, p')"
      by (auto simp: bindE_Inr_iff)
    with Cons.IH False show ?thesis by (fastforce simp: nth_Cons split: nat.splits)
  qed
qed simp

text \<open>What every handle satisfies that \<open>ns_initparse\<close> made and \<open>ns_parserr\<close> moved on.\<close>

definition wf_handle :: "ns_msg \<Rightarrow> bool" where
  "wf_handle h \<longleftrightarrow> length (m_counts h) = ns_s_max \<and> length (m_sections h) = ns_s_max
    \<and> (\<forall>j < ns_s_max. m_sections h ! j = None \<longleftrightarrow> m_counts h ! j = 0) \<and> m_sect h \<le> ns_s_max
    \<and> (m_sect h < ns_s_max \<longrightarrow> m_counts h ! m_sect h \<noteq> 0 \<longrightarrow> m_msg_ptr h \<noteq> None)"

lemma setsection_fields [simp]:
  "m_eom (setsection h s) = m_eom h" "m_counts (setsection h s) = m_counts h"
  "m_sections (setsection h s) = m_sections h" "m_sect (setsection h s) = s"
  "m_id (setsection h s) = m_id h" "m_flags (setsection h s) = m_flags h"
  by (simp_all add: setsection_def)

lemma wf_handle_setsection: "wf_handle h \<Longrightarrow> s \<le> ns_s_max \<Longrightarrow> wf_handle (setsection h s)"
  by (auto simp: wf_handle_def setsection_def simp del: not_None_eq)

lemma ns_initparse_safe: "msglen < length buf \<Longrightarrow> safe (ns_initparse buf msglen)"
  by (auto simp: ns_initparse_def mem_simps intro!: safe_bindE init_counts_safe init_sections_safe)

lemma ns_initparse_InrE:
  assumes "ns_initparse buf msglen = Inr h"
  obtains "wf_handle h" "m_eom h = msglen" "m_sect h = ns_s_max" "12 \<le> msglen"
    "NS_GET16 buf 0 = Inr (m_id h)" "\<forall>i < 4. NS_GET16 buf (4 + 2 * i) = Inr (m_counts h ! i)"
    "init_sections buf msglen 0 (m_counts h) 12 = Inr (m_sections h, msglen)"
proof -
  from assms obtain id flags counts p sections where
    h: "NS_GET16 buf 0 = Inr id" "init_counts buf msglen 4 4 = Inr (counts, p)"
      "init_sections buf msglen 0 counts p = Inr (sections, msglen)"
      "h = setsection \<lparr>m_eom = msglen, m_id = id, m_flags = flags, m_counts = counts,
         m_sections = sections, m_sect = 0, m_rrnum = 0, m_msg_ptr = None\<rparr> 4"
    by (auto simp: ns_initparse_def bindE_Inr_iff split: if_splits)
  note c = init_counts_Inr [OF h(2)] and s = init_sections_Inr [OF h(3)]
  have "wf_handle h" using c s h(4) by (simp add: wf_handle_def)
  then show ?thesis using c h that by simp
qed

text \<open>
  Where a call of \<open>ns_parserr\<close> leaves the handle, whether or not it finds the record: it stays well-formed.
\<close>

lemma parserr_seek_returns:
  assumes "wf_handle h0" "m_eom h0 < length buf"
  shows "\<exists>h r. parserr_seek buf h0 sect rrnum = Inr (h, r) \<and> wf_handle h \<and> m_eom h = m_eom h0
    \<and> (\<forall>p. r = Some p \<longrightarrow> m_sect h = sect \<and> sect < ns_s_max \<and> m_msg_ptr h = Some p)"
proof -
  define h1 where "h1 = (if sect \<noteq> m_sect h0 then setsection h0 sect else h0)"
  define n where "n = (if rrnum = - 1 then m_rrnum h1 else rrnum)"
  define h2 where "h2 = (if n < m_rrnum h1 then setsection h1 sect else h1)"
  have seek: "parserr_seek buf h0 sect rrnum =
    (if sect \<ge> ns_s_max then Inr (h0, None)
     else if n < 0 \<or> n \<ge> uint (m_counts h1 ! sect) then Inr (h1, None)
     else case m_msg_ptr h2 of
        None \<Rightarrow> if n > m_rrnum h2 then Inl Oob else Inr (h2, None)
      | Some p \<Rightarrow> if n > m_rrnum h2 then
          attempt (ns_skiprr buf (m_eom h2) p sect (nat (n - m_rrnum h2))) (Inr (h2, None)) (\<lambda>b.
            Inr (h2\<lparr>m_msg_ptr := Some (p + b), m_rrnum := n\<rparr>, Some (p + b)))
        else Inr (h2, Some p))"
    by (simp only: parserr_seek_def Let_def h1_def n_def h2_def)
  show ?thesis
  proof (cases "sect \<ge> ns_s_max")
    case True
    then show ?thesis using assms by (simp add: seek)
  next
    case False
    then have wf: "wf_handle h1" "wf_handle h2" "m_sect h2 = sect" "m_counts h2 = m_counts h1" "m_eom h1 = m_eom h0" "m_eom h2 = m_eom h0"
      using assms(1) by (auto simp: h1_def h2_def wf_handle_setsection)
    show ?thesis
    proof (cases "n < 0 \<or> n \<ge> uint (m_counts h1 ! sect)")
      case True
      then show ?thesis using False wf by (simp add: seek)
    next
      case range: False
      then have "m_counts h2 ! m_sect h2 \<noteq> 0" using wf by auto
      then obtain p where p: "m_msg_ptr h2 = Some p" using wf(2,3) False by (auto simp: wf_handle_def)
      have at: "wf_handle (h2\<lparr>m_msg_ptr := Some q, m_rrnum := n\<rparr>)" for q using wf(2) by (simp add: wf_handle_def)
      show ?thesis
      proof (cases "n > m_rrnum h2")
        case True
        then show ?thesis
          using False range wf p at ns_skiprr_safe [of "m_eom h0" buf p sect "nat (n - m_rrnum h2)"] assms(2)
          by (cases "ns_skiprr buf (m_eom h0) p sect (nat (n - m_rrnum h2))") (simp_all add: seek)
      qed (use False range wf p in \<open>simp add: seek\<close>)
    qed
  qed
qed

lemma wf_parserr_next: "wf_handle h \<Longrightarrow> sect < ns_s_max \<Longrightarrow> wf_handle (parserr_next h sect p) \<and> m_eom (parserr_next h sect p) = m_eom h"
  using wf_handle_setsection [of "h\<lparr>m_msg_ptr := Some p, m_rrnum := m_rrnum h + 1\<rparr>" "sect + 1"]
  by (auto simp: parserr_next_def Let_def wf_handle_def)

text \<open>A record that is found: its name is shorter than the field for it, and its data lie in the message.\<close>

definition rr_inside :: "nat \<Rightarrow> ns_rr \<Rightarrow> bool" where
  "rr_inside eom rr \<longleftrightarrow> length (rr_name rr) < NS_MAXDNAME
     \<and> (\<forall>p. rr_rdata rr = Some p \<longrightarrow> p + unat (rr_rdlength rr) \<le> eom)"

lemma ns_parserr_returns:
  assumes "wf_handle h0" "m_eom h0 < length buf"
  shows "\<exists>h r. ns_parserr buf h0 sect rrnum = Inr (h, r) \<and> wf_handle h \<and> m_eom h = m_eom h0
    \<and> (\<forall>rr. r = Some rr \<longrightarrow> rr_inside (m_eom h0) rr)"
proof -
  obtain h r where h: "parserr_seek buf h0 sect rrnum = Inr (h, r)" "wf_handle h" "m_eom h = m_eom h0"
    "\<And>p. r = Some p \<Longrightarrow> m_sect h = sect \<and> sect < ns_s_max \<and> m_msg_ptr h = Some p"
    using parserr_seek_returns [OF assms, of sect rrnum] by blast
  have at: "wf_handle (h\<lparr>m_msg_ptr := Some q\<rparr>)" for q using h(2) by (simp add: wf_handle_def)
  show ?thesis
  proof (cases r)
    case None
    then show ?thesis using h by (simp add: ns_parserr_def)
  next
    case (Some p)
    note sect = h(4) [OF Some]
    show ?thesis
    proof (cases "dn_expand buf (m_eom h) p NS_MAXDNAME")
      case (Inl e)
      then have "e = Fail" using dn_expand_safe [of "m_eom h" buf p NS_MAXDNAME] assms(2) h(3) by simp
      then show ?thesis using h Some Inl by (simp add: ns_parserr_def)
    next
      case (Inr x)
      then obtain b name where x: "dn_expand buf (m_eom h0) p NS_MAXDNAME = Inr (b, name)" using h(3) by (cases x) simp
      obtain ls where "name = (if ls = [] then [] else text_name ls)" "length (text_name ls) < NS_MAXDNAME"
        by (rule dn_expand_InrE [OF x]) (use assms(2) in simp_all)
      then have name: "length name < NS_MAXDNAME" by (simp split: if_splits)
      let ?p1 = "p + nat b"
      show ?thesis
      proof (cases "?p1 + 4 > m_eom h0")
        case True
        then show ?thesis using h(1,3) Some x at by (simp add: ns_parserr_def Let_def)
      next
        case False
        then obtain type where type: "NS_GET16 buf ?p1 = Inr type" using assms(2) by (simp add: NS_GET16_ok)
        show ?thesis
        proof (cases "sect = ns_s_qd \<or> ?p1 + 10 > m_eom h0")
          case True
          then show ?thesis
            using h(1,3) Some x False type at wf_parserr_next [OF h(2)] name by (auto simp: ns_parserr_def Let_def rr_inside_def)
        next
          case rest: False
          then obtain ttl rdlength where "NS_GET32 buf (?p1 + 4) = Inr ttl" "NS_GET16 buf (?p1 + 8) = Inr rdlength"
            using assms(2) by (simp add: NS_GET16_ok NS_GET32_def mem_simps)
          then show ?thesis
            using h(1,3) Some x False type rest at wf_parserr_next [OF h(2)] sect name
            by (cases "?p1 + 10 + unat rdlength > m_eom h0") (simp_all add: ns_parserr_def Let_def rr_inside_def)
        qed
      qed
    qed
  qed
qed

lemma ns_parserr_safe: "wf_handle h0 \<Longrightarrow> m_eom h0 < length buf \<Longrightarrow> safe (ns_parserr buf h0 sect rrnum)"
  using ns_parserr_returns [of h0 buf sect rrnum] by auto

lemma ns_parserr_wf:
  assumes "wf_handle h0" "m_eom h0 < length buf" "ns_parserr buf h0 sect rrnum = Inr (h, r)"
  shows "wf_handle h \<and> m_eom h = m_eom h0"
  using ns_parserr_returns [OF assms(1,2), of sect rrnum] assms(3) by auto

text \<open>The parts of a successful \<open>ns_parserr\<close>: the position, the name there, and the type behind it.\<close>

lemma ns_parserr_InrE:
  assumes "ns_parserr buf h0 sect rrnum = Inr (h', Some rr)"
  obtains h p b where "parserr_seek buf h0 sect rrnum = Inr (h, Some p)"
    "dn_expand buf (m_eom h) p NS_MAXDNAME = Inr (b, rr_name rr)"
    "p + nat b + 4 \<le> m_eom h" "NS_GET16 buf (p + nat b) = Inr (rr_type rr)"
proof -
  obtain h p where s: "parserr_seek buf h0 sect rrnum = Inr (h, Some p)"
    using assms by (auto simp: ns_parserr_def bindE_Inr_iff split: option.splits)
  obtain b name where e: "dn_expand buf (m_eom h) p NS_MAXDNAME = Inr (b, name)"
    using assms s by (auto simp: ns_parserr_def attempt_Inr_iff)
  have len: "p + nat b + 4 \<le> m_eom h"
    using assms by (rule contrapos_pp) (simp add: ns_parserr_def s e Let_def)
  obtain type where type: "NS_GET16 buf (p + nat b) = Inr type"
    using assms len by (cases "NS_GET16 buf (p + nat b)") (simp_all add: ns_parserr_def s e Let_def)
  have "rr_name rr = name \<and> rr_type rr = type"
  proof (cases "sect = 0")
    case True
    have "ns_parserr buf h0 sect rrnum = Inr (h', Some rr) \<longrightarrow> ?thesis"
      using len by (auto simp add: ns_parserr_def s e type Let_def True s [unfolded True])
    with assms show ?thesis by blast
  next
    case False
    then show ?thesis
      using assms len
      by (cases "NS_GET32 buf (p + nat b + 4)"; cases "NS_GET16 buf (p + nat b + 8)")
        (auto simp add: ns_parserr_def s e type Let_def simp del: not_le split: if_split_asm)
  qed
  then show ?thesis using that [OF s, of b] e len type by simp
qed

text \<open>At worst the parser reads outside the message's buffer, whatever the handle.\<close>

lemma mild_parse [mild_rules]:
  "mild (dn_expand buf eom src dstsiz)" "mild (ns_skiprr buf eom ptr sect count)" "mild (ns_initparse buf msglen)"
  "mild (ns_parserr buf h sect rrnum)"
proof -
  show expand: "mild (dn_expand buf eom src dstsiz)" for eom src dstsiz
    by (auto simp: dn_expand_def ns_name_uncompress_def intro!: mild_rules)
  have "mild (skiprr_loop buf eom sect count ptr)" for eom sect ptr count
    by (induction count arbitrary: ptr) (auto simp: Let_def intro!: mild_rules)
  then show skip: "mild (ns_skiprr buf eom ptr sect count)" for eom sect ptr count
    by (auto simp: ns_skiprr_def intro!: mild_rules)
  have "mild (init_counts buf eom k p)" for eom k p
    by (induction k arbitrary: p) (auto intro!: mild_rules)
  moreover have "mild (init_sections buf eom i cs p)" for eom i cs p
    by (induction cs arbitrary: i p) (auto intro!: mild_rules skip)
  ultimately show "mild (ns_initparse buf msglen)"
    by (auto simp: ns_initparse_def intro!: mild_rules)
  have "mild (parserr_seek buf h sect rrnum)"
    by (auto simp: parserr_seek_def Let_def intro!: mild_rules skip split: option.split)
  then show "mild (ns_parserr buf h sect rrnum)"
    by (auto simp: ns_parserr_def Let_def intro!: mild_rules expand split: option.split prod.split)
qed

lemma mild_found [mild_rules]: "mild m \<Longrightarrow> mild (found m)"
  by (cases m) (auto simp: found_def split: option.split)

section \<open>The layout of a message\<close>

text \<open>
  Where things lie in a message, as RFC 1035 (4.1) has it and independently of the parsing functions:
  a name runs over its labels (a bit string label is the byte 0x41, the number of bits, and the bits) up to
  the root or a compression pointer; a question is a name and four bytes; any other record is a name, ten
  bytes of which the last two hold the length of its data, and the data.
\<close>

definition be16 :: "byte list \<Rightarrow> nat \<Rightarrow> nat" where
  "be16 buf p = 256 * unat (buf ! p) + unat (buf ! (p + 1))"

inductive name_span :: "byte list \<Rightarrow> nat \<Rightarrow> nat \<Rightarrow> bool" for buf where
  root: "buf ! p = 0 \<Longrightarrow> name_span buf p (p + 1)"
| pointer: "192 \<le> unat (buf ! p) \<Longrightarrow> name_span buf p (p + 2)"
| label: "unat (buf ! p) = n \<Longrightarrow> 0 < n \<Longrightarrow> n < 64 \<Longrightarrow> name_span buf (p + 1 + n) q \<Longrightarrow> name_span buf p q"
| bits: "buf ! p = 0x41 \<Longrightarrow> n = (if buf ! (p + 1) = 0 then 256 else unat (buf ! (p + 1))) \<Longrightarrow>
    name_span buf (p + 2 + (n + 7) div 8) q \<Longrightarrow> name_span buf p q"

definition rr_span :: "byte list \<Rightarrow> nat \<Rightarrow> nat \<Rightarrow> nat \<Rightarrow> bool" where
  "rr_span buf sect p q \<longleftrightarrow>
     (\<exists>e. name_span buf p e \<and> q = (if sect = ns_s_qd then e + 4 else e + 10 + be16 buf (e + 8)))"

primrec rrs_span :: "byte list \<Rightarrow> nat \<Rightarrow> nat \<Rightarrow> nat \<Rightarrow> nat \<Rightarrow> bool" where
  "rrs_span buf sect 0 p q \<longleftrightarrow> p = q"
| "rrs_span buf sect (Suc n) p q \<longleftrightarrow> (\<exists>m. rr_span buf sect p m \<and> rrs_span buf sect n m q)"

text \<open>The four sections follow one another, from behind the header to the end of the message.\<close>

definition laid_out :: "byte list \<Rightarrow> nat \<Rightarrow> (nat \<Rightarrow> nat) \<Rightarrow> bool" where
  "laid_out buf eom start \<longleftrightarrow> start 0 = 12 \<and> start ns_s_max = eom
     \<and> (\<forall>i < ns_s_max. rrs_span buf i (be16 buf (4 + 2 * i)) (start i) (start (i + 1)))"

lemma name_span_less: "name_span buf p q \<Longrightarrow> p < q"
  by (induction rule: name_span.induct) auto

lemma rr_span_less: "rr_span buf sect p q \<Longrightarrow> p + 4 < q"
  by (auto simp: rr_span_def dest: name_span_less split: if_splits)

lemma rrs_span_le: "rrs_span buf sect n p q \<Longrightarrow> p \<le> q"
  by (induction n arbitrary: p) (fastforce dest: rr_span_less)+

lemma name_skip_loop_span:
  "name_skip_loop buf eom p = Inr q \<Longrightarrow> q < eom \<Longrightarrow> eom \<le> length buf \<Longrightarrow> name_span buf p q"
proof (induction buf eom p rule: name_skip_loop.induct)
  case (1 buf eom p)
  have p: "p < eom" using "1.prems" by (subst (asm) name_skip_loop.simps) (simp split: if_splits)
  then have rd: "rd buf p = Inr (buf ! p)" using "1.prems"(3) by (simp add: mem_simps)
  note loop = "1.prems"(1) [unfolded name_skip_loop.simps [of buf eom p]]
  note IH = "1.IH" [OF p rd]
  consider (zero) "buf ! p = 0" | (lab) "0 < unat (buf ! p)" "unat (buf ! p) < 64" | (ptr) "192 \<le> unat (buf ! p)"
    | (elt) "64 \<le> unat (buf ! p)" "unat (buf ! p) < 128" | (high) "128 \<le> unat (buf ! p)" "unat (buf ! p) < 192"
    using byte_zero_iff [of "buf ! p"] by linarith
  then show ?case
  proof cases
    case elt
    then obtain l where l: "labellen buf p = Inr l" "name_skip_loop buf eom (p + 1 + l) = Inr q"
      using loop p rd by (auto simp: byte_class bindE_Inr_iff split: if_splits)
    have "buf ! p AND NS_CMPRSFLGS = NS_TYPE_ELT" "p < length buf" using elt p "1.prems"(3) by (simp_all add: byte_class)
    note b = labellen_elt [OF this(2,1) l(1)]
    have "buf ! p \<noteq> 0" using elt by auto
    with IH(2) elt l "1.prems"(2,3) have "name_span buf (p + 1 + l) q" by (simp add: byte_class)
    then show ?thesis using b(3) by (intro name_span.bits [OF b(1) refl]) simp
  next
    case lab
    then have "buf ! p \<noteq> 0" by auto
    note lab = lab this
    have small: "buf ! p AND NS_CMPRSFLGS = 0" using lab(2) by (simp add: byte_class)
    have "name_skip_loop buf eom (p + 1 + unat (buf ! p)) = Inr q" using loop p rd lab(3) small by simp
    then have "name_span buf (p + 1 + unat (buf ! p)) q" by (rule IH(1) [OF lab(3) small _ "1.prems"(2,3)])
    then show ?thesis by (rule name_span.label [OF refl lab(1,2)])
  next
    case ptr
    moreover have "buf ! p \<noteq> 0" using ptr by auto
    ultimately have "q = p + 2" using loop p rd by (simp add: byte_class)
    then show ?thesis using name_span.pointer [where p = p, OF ptr] by simp
  next
    case high
    moreover have "buf ! p \<noteq> 0" using high by auto
    ultimately show ?thesis using loop p rd by (simp add: byte_class)
  next
    case zero
    then have "q = p + 1" using loop p rd by simp
    then show ?thesis using name_span.root [where p = p, OF zero] by simp
  qed
qed

lemma span_name_skip_loop: "name_span buf p q \<Longrightarrow> q \<le> eom \<Longrightarrow> eom \<le> length buf \<Longrightarrow> name_skip_loop buf eom p = Inr q"
proof (induction rule: name_span.induct)
  case (bits p n q)
  note name_span_less [OF bits(3)]
  then show ?case
    using bits by (subst name_skip_loop.simps) (auto simp: mem_simps labellen_def byte_class Let_def)
next
  case (label p n q)
  note name_span_less [OF label(4)]
  then show ?case using label by (subst name_skip_loop.simps) (auto simp: mem_simps byte_class)
next
  case (pointer p)
  moreover have "buf ! p \<noteq> 0" using pointer by auto
  ultimately show ?case by (subst name_skip_loop.simps) (simp add: mem_simps byte_class)
qed (subst name_skip_loop.simps; simp add: mem_simps)

lemma dn_skipname_span:
  assumes "p + b < eom" "eom \<le> length buf"
  shows "dn_skipname buf eom p = Inr b \<longleftrightarrow> name_span buf p (p + b)"
proof
  assume "dn_skipname buf eom p = Inr b"
  then obtain q where "name_skip_loop buf eom p = Inr q" "b = q - p"
    by (auto simp: dn_skipname_def ns_name_skip_def bindE_Inr_iff split: if_splits)
  with name_skip_loop_ge [of buf eom p q] show "name_span buf p (p + b)"
    using name_skip_loop_span [of buf eom p "p + b"] assms by simp
next
  assume "name_span buf p (p + b)"
  then show "dn_skipname buf eom p = Inr b"
    using span_name_skip_loop [of buf p "p + b" eom] assms by (simp add: dn_skipname_def ns_name_skip_def)
qed

lemma NS_GET16_be16: "p + 1 < length buf \<Longrightarrow> \<exists>v. NS_GET16 buf p = Inr v \<and> unat v = be16 buf p"
proof -
  assume p: "p + 1 < length buf"
  have or: "push_bit 8 (ucast x :: 16 word) OR ucast y = push_bit 8 (ucast x) + ucast y" for x y :: byte
    by (intro disjunctive_add_eq_or [symmetric] bit_word_eqI) (auto simp: bit_simps dest: bit_imp_le_length)
  have "unat (push_bit 8 (ucast x :: 16 word) OR ucast y) = 256 * unat x + unat y" for x y :: byte
  proof -
    have "unat x < 256" "unat y < 256" using unsigned_less [of x, where 'a = nat] unsigned_less [of y, where 'a = nat] by simp_all
    moreover from this have "unat (ucast x :: 16 word) = unat x" "unat (ucast y :: 16 word) = unat y"
      by (simp_all add: unsigned_ucast_eq take_bit_eq_mod)
    ultimately show ?thesis unfolding or by (simp add: unat_word_ariths push_bit_eq_mult)
  qed
  then show ?thesis using p by (simp add: NS_GET16_ok be16_def)
qed

lemma skiprr_loop_span:
  "eom \<le> length buf \<Longrightarrow> q \<le> eom \<Longrightarrow> skiprr_loop buf eom sect n p = Inr q \<longleftrightarrow> rrs_span buf sect n p q"
proof (induction n arbitrary: p)
  case (Suc n)
  let ?rest = "\<lambda>e. if sect = ns_s_qd then skiprr_loop buf eom sect n (e + 4) = Inr q
    else e + 10 \<le> eom \<and> skiprr_loop buf eom sect n (e + 10 + be16 buf (e + 8)) = Inr q"
  have field: "e + 10 \<le> eom \<Longrightarrow> \<exists>v. NS_GET16 buf (e + 8) = Inr v \<and> unat v = be16 buf (e + 8)" for e
    using Suc.prems(1) by (intro NS_GET16_be16) simp
  have sums: "e + 2 + 2 = e + 4" "e + 4 + 4 = e + 8" "e + 8 + 2 = e + 10" for e :: nat by simp_all
  have rest: "(let p' = p + b + 2 + 2 in
       if sect \<noteq> ns_s_qd then
         if p' + 4 + 2 > eom then Inl Fail
         else bindE (NS_GET16 buf (p' + 4)) (\<lambda>rdlength. skiprr_loop buf eom sect n (p' + 4 + 2 + unat rdlength))
       else skiprr_loop buf eom sect n p') = Inr q \<longleftrightarrow> ?rest (p + b)" for b
    using field [of "p + b"] unfolding Let_def sums by (cases "p + b + 10 \<le> eom") auto
  have span: "?rest (p + b) \<Longrightarrow> dn_skipname buf eom p = Inr b \<longleftrightarrow> name_span buf p (p + b)" for b
    using Suc.prems by (intro dn_skipname_span) (auto dest!: skiprr_loop_ge split: if_splits)
  have "rrs_span buf sect (Suc n) p q \<longleftrightarrow> (\<exists>b. name_span buf p (p + b) \<and> ?rest (p + b))" (is "?l \<longleftrightarrow> ?r")
  proof
    assume ?l
    then obtain e m where e: "name_span buf p e" "m = (if sect = ns_s_qd then e + 4 else e + 10 + be16 buf (e + 8))"
      "skiprr_loop buf eom sect n m = Inr q" using Suc by (auto simp: rr_span_def)
    then have "?rest (p + (e - p))" using Suc.prems(2) name_span_less [OF e(1)] skiprr_loop_ge [OF e(3)] by auto
    with e(1) name_span_less [OF e(1)] show ?r by (intro exI [of _ "e - p"]) simp
  next
    assume ?r
    then obtain b where b: "name_span buf p (p + b)" "?rest (p + b)" by blast
    then have "rr_span buf sect p (if sect = ns_s_qd then p + b + 4 else p + b + 10 + be16 buf (p + b + 8))"
      by (auto simp: rr_span_def)
    with b(2) Suc show ?l by (cases "sect = ns_s_qd") auto
  qed
  then show ?case using span rest by (auto simp only: skiprr_loop.simps bindE_Inr_iff)
qed auto

lemma ns_skiprr_span:
  assumes "eom \<le> length buf"
  shows "ns_skiprr buf eom p sect n = Inr b \<longleftrightarrow> p + b \<le> eom \<and> rrs_span buf sect n p (p + b)"
proof
  assume "ns_skiprr buf eom p sect n = Inr b"
  then obtain q where q: "skiprr_loop buf eom sect n p = Inr q" "q \<le> eom" "b = q - p"
    by (auto simp: ns_skiprr_def bindE_Inr_iff split: if_splits)
  with skiprr_loop_span [OF assms q(2)] skiprr_loop_ge [OF q(1)] show "p + b \<le> eom \<and> rrs_span buf sect n p (p + b)" by simp
next
  assume "p + b \<le> eom \<and> rrs_span buf sect n p (p + b)"
  with skiprr_loop_span [OF assms, of "p + b" sect n p] show "ns_skiprr buf eom p sect n = Inr b" by (simp add: ns_skiprr_def)
qed

lemma init_sections_step:
  assumes "eom \<le> length buf"
  shows "init_sections buf eom i (c # cs) p = Inr (ss, eom) \<longleftrightarrow> (\<exists>m ts. rrs_span buf i (unat c) p m
    \<and> init_sections buf eom (Suc i) cs m = Inr (ts, eom) \<and> ss = (if c = 0 then None else Some p) # ts)"
proof (cases "c = 0")
  case True
  then show ?thesis by (auto simp: bindE_Inr_iff)
next
  case False
  have "rrs_span buf i (unat c) p m \<and> init_sections buf eom (Suc i) cs m = Inr (ts, eom) \<longleftrightarrow>
    (\<exists>b. ns_skiprr buf eom p i (unat c) = Inr b \<and> init_sections buf eom (Suc i) cs (p + b) = Inr (ts, eom) \<and> m = p + b)" for m ts
  proof -
    have "init_sections buf eom (Suc i) cs m = Inr (ts, eom) \<Longrightarrow> m \<le> eom" using init_sections_Inr by blast
    then show ?thesis
      using rrs_span_le [of buf i "unat c" p m] by (auto simp: ns_skiprr_span [OF assms] intro!: exI [of _ "m - p"])
  qed
  then show ?thesis using False by (fastforce simp: bindE_Inr_iff)
qed

text \<open>The sections from \<open>i\<close> on, one behind the other; \<open>start j\<close> is where section \<open>j\<close> begins.\<close>

lemma init_sections_span:
  assumes "eom \<le> length buf"
  shows "init_sections buf eom i cs p = Inr (ss, eom) \<longleftrightarrow> (\<exists>start. start i = p \<and> start (i + length cs) = eom
    \<and> (\<forall>j < length cs. rrs_span buf (i + j) (unat (cs ! j)) (start (i + j)) (start (Suc (i + j))))
    \<and> ss = map (\<lambda>j. if cs ! j = 0 then None else Some (start (i + j))) [0..<length cs])"
proof (induction cs arbitrary: i p ss)
  case (Cons c cs)
  let ?R = "\<lambda>start. start (i + length (c # cs)) = eom
    \<and> (\<forall>j < length cs. rrs_span buf (Suc i + j) (unat (cs ! j)) (start (Suc i + j)) (start (Suc (Suc i + j))))"
  let ?ss = "\<lambda>start. map (\<lambda>j. if cs ! j = 0 then None else Some (start (Suc i + j))) [0..<length cs]"
  have cong: "?R (start(i := p)) = ?R start" "?ss (start(i := p)) = ?ss start" for start by auto
  have "init_sections buf eom i (c # cs) p = Inr (ss, eom) \<longleftrightarrow>
    (\<exists>start. rrs_span buf i (unat c) p (start (Suc i)) \<and> ?R start \<and> ss = (if c = 0 then None else Some p) # ?ss start)"
    unfolding init_sections_step [OF assms] Cons.IH by auto
  also have "\<dots> \<longleftrightarrow> (\<exists>start. start i = p \<and> rrs_span buf i (unat c) p (start (Suc i)) \<and> ?R start
    \<and> ss = (if c = 0 then None else Some p) # ?ss start)"
  proof
    assume "\<exists>start. rrs_span buf i (unat c) p (start (Suc i)) \<and> ?R start \<and> ss = (if c = 0 then None else Some p) # ?ss start"
    then obtain start where "rrs_span buf i (unat c) p (start (Suc i))" "?R start" "ss = (if c = 0 then None else Some p) # ?ss start" by blast
    then show "\<exists>start. start i = p \<and> rrs_span buf i (unat c) p (start (Suc i)) \<and> ?R start
      \<and> ss = (if c = 0 then None else Some p) # ?ss start"
      using cong [of start] by (intro exI [of _ "start(i := p)"]) simp
  qed blast
  also have "\<dots> \<longleftrightarrow> (\<exists>start. start i = p \<and> start (i + length (c # cs)) = eom
    \<and> (\<forall>j < length (c # cs). rrs_span buf (i + j) (unat ((c # cs) ! j)) (start (i + j)) (start (Suc (i + j))))
    \<and> ss = map (\<lambda>j. if (c # cs) ! j = 0 then None else Some (start (i + j))) [0..<length (c # cs)])"
    by (rule arg_cong [where f = Ex], rule ext) (auto simp: All_less_Suc2 map_upt_Suc simp del: upt_Suc)
  finally show ?case .
qed auto

lemma init_counts_ok:
  "p + 2 * k \<le> eom \<Longrightarrow> eom \<le> length buf \<Longrightarrow>
   init_counts buf eom k p = Inr (map (\<lambda>i. word_of_nat (be16 buf (p + 2 * i))) [0..<k], p + 2 * k)"
proof (induction k arbitrary: p)
  case (Suc k)
  obtain v where v: "NS_GET16 buf p = Inr v" "unat v = be16 buf p"
    using NS_GET16_be16 [of p buf] Suc.prems by auto
  then have "v = word_of_nat (be16 buf p)" by (simp flip: v(2))
  with v Suc show ?case by (simp add: map_upt_Suc del: upt_Suc)
qed simp

lemma be16_less: "be16 buf p < 2 ^ 16"
  using unsigned_less [of "buf ! p", where 'a = nat] unsigned_less [of "buf ! (p + 1)", where 'a = nat]
  by (simp add: be16_def)

lemma laid_out_min: "laid_out buf eom start \<Longrightarrow> 12 \<le> eom"
proof -
  assume l: "laid_out buf eom start"
  have "start i \<le> start (i + 1)" if "i < 4" for i
    using l that rrs_span_le by (auto simp: laid_out_def)
  from this [of 0] this [of 1] this [of 2] this [of 3] show "12 \<le> eom"
    using l by (simp add: laid_out_def numeral_eq_Suc)
qed

lemma ns_initparse_laid_out:
  assumes "laid_out buf eom start" "eom \<le> length buf"
  shows "\<exists>h. ns_initparse buf eom = Inr h"
proof -
  have min: "12 \<le> eom" by (rule laid_out_min [OF assms(1)])
  define cs :: "16 word list" where "cs = map (\<lambda>i. word_of_nat (be16 buf (4 + 2 * i))) [0..<4]"
  have cs: "length cs = 4" "\<And>i. i < 4 \<Longrightarrow> unat (cs ! i) = be16 buf (4 + 2 * i)"
    using be16_less [of buf] by (simp_all add: cs_def unat_of_nat take_bit_eq_mod)
  obtain ss where "init_sections buf eom 0 cs 12 = Inr (ss, eom)"
    using assms(1) cs unfolding init_sections_span [OF assms(2)] laid_out_def by auto
  moreover have "init_counts buf eom 4 4 = Inr (cs, 12)"
    using init_counts_ok [of 4 4 eom buf] min assms(2) by (simp add: cs_def)
  moreover obtain id flags where "NS_GET16 buf 0 = Inr id" "NS_GET16 buf 2 = Inr flags"
    using NS_GET16_be16 [of 0 buf] NS_GET16_be16 [of 2 buf] min assms(2) by auto
  ultimately show ?thesis using min by (simp add: ns_initparse_def)
qed

section \<open>Properties\<close>

text \<open>Any calls of \<open>ns_parserr\<close> one after the other, whatever the one before returned.\<close>

fun parserr_seq :: "byte list \<Rightarrow> ns_msg \<Rightarrow> (nat \<times> int) list \<Rightarrow> ns_rr option list cres" where
  "parserr_seq buf h [] = Inr []"
| "parserr_seq buf h ((sect, rrnum) # reqs) =
     bindE (ns_parserr buf h sect rrnum) (\<lambda>(h', r). bindE (parserr_seq buf h' reqs) (\<lambda>rs. Inr (r # rs)))"

lemma parserr_seq_returns:
  "wf_handle h \<Longrightarrow> m_eom h < length buf \<Longrightarrow> \<exists>rs. parserr_seq buf h reqs = Inr rs \<and> length rs = length reqs
    \<and> (\<forall>rr. Some rr \<in> set rs \<longrightarrow> rr_inside (m_eom h) rr)"
proof (induction reqs arbitrary: h)
  case (Cons req reqs)
  obtain sect n where req: "req = (sect, n)" by (cases req)
  obtain h' r where r: "ns_parserr buf h sect n = Inr (h', r)" "wf_handle h'" "m_eom h' = m_eom h"
    "\<And>rr. r = Some rr \<Longrightarrow> rr_inside (m_eom h) rr"
    using ns_parserr_returns [OF Cons.prems, of sect n] by blast
  with Cons.IH [of h'] Cons.prems(2) obtain rs where "parserr_seq buf h' reqs = Inr rs" "length rs = length reqs"
    "\<forall>rr. Some rr \<in> set rs \<longrightarrow> rr_inside (m_eom h) rr" by auto
  with r show ?case by (auto simp: req)
qed simp

text \<open>
  C34. Any use of the message parser is safe. For a message that does not fill its buffer, \<open>ns_initparse\<close>
  returns \<open>-1\<close> or a handle; and with that handle \<open>ns_parserr\<close> can be called with any sections and record
  numbers in any order, also after calls that failed and left the handle where they stopped: every call
  returns, with \<open>-1\<close> or with a record whose name fits its field and whose data lie inside the message, and
  none touches memory outside the buffer (or the NULL position of an empty section). In a buffer that is
  full the byte behind the message may be read.
\<close>

theorem parse_any_sequence_safe:
  assumes "eom < length buf"
  shows "case ns_initparse buf eom of Inl e \<Rightarrow> e = Fail
    | Inr h \<Rightarrow> \<exists>rs. parserr_seq buf h reqs = Inr rs \<and> length rs = length reqs
        \<and> (\<forall>rr. Some rr \<in> set rs \<longrightarrow> rr_inside eom rr)"
proof (cases "ns_initparse buf eom")
  case (Inl e)
  then show ?thesis using ns_initparse_safe [OF assms] by simp
next
  case (Inr h)
  then obtain "wf_handle h" "m_eom h = eom" by (rule ns_initparse_InrE)
  with Inr assms parserr_seq_returns [of h buf reqs] show ?thesis by simp
qed

text \<open>A response for the name \<open>a\<close> with one address record, in a buffer with one more byte.\<close>

definition sample_response :: "byte list" where
  "sample_response = [0, 7, 0x81, 0x80, 0, 1, 0, 1, 0, 0, 0, 0, 1, 0x61, 0, 0, 1, 0, 1,
     0xC0, 12, 0, 1, 0, 1, 0, 0, 0, 60, 0, 4, 10, 0, 0, 1, 0]"

lemma sample_response_parse:
  "ns_initparse sample_response 35 = Inr \<lparr>m_eom = 35, m_id = 7, m_flags = 0x8180, m_counts = [1, 1, 0, 0],
     m_sections = [Some 12, Some 19, None, None], m_sect = 4, m_rrnum = - 1, m_msg_ptr = None\<rparr>"
  by code_simp

text \<open>The answer, the question, a second question that is not there, a section that is empty, the answer again.\<close>

lemma parse_any_sequence_safe_witness:
  "\<exists>h rs. ns_initparse sample_response 35 = Inr h
    \<and> parserr_seq sample_response h [(1, 0), (0, 0), (0, 1), (2, - 1), (1, - 1)] = Inr rs
    \<and> map (map_option (\<lambda>rr. (rr_name rr, rr_rdata rr))) rs
      = [Some ([0x61], Some 31), Some ([0x61], None), None, None, Some ([0x61], Some 31)]
    \<and> (\<forall>rr. Some rr \<in> set rs \<longrightarrow> rr_inside 35 rr)"
proof -
  let ?reqs = "[(1, 0), (0, 0), (0, 1), (2, - 1), (1, - 1)] :: (nat \<times> int) list"
  have len: "35 < length sample_response" by (simp add: sample_response_def)
  obtain rs where rs: "parserr_seq sample_response (projr (ns_initparse sample_response 35)) ?reqs = Inr rs"
    "\<forall>rr. Some rr \<in> set rs \<longrightarrow> rr_inside 35 rr"
    using parse_any_sequence_safe [OF len, of ?reqs] by (auto simp: sample_response_parse)
  have "map_sum id (map (map_option (\<lambda>rr. (rr_name rr, rr_rdata rr))))
      (parserr_seq sample_response (projr (ns_initparse sample_response 35)) ?reqs)
    = Inr [Some ([0x61], Some 31), Some ([0x61], None), None, None, Some ([0x61], Some 31)]"
    by code_simp
  with rs show ?thesis by (simp add: sample_response_parse)
qed

text \<open>
  C35. \<open>ns_initparse\<close> accepts exactly the messages that are laid out as the RFC has it, and cuts them
  right. With the header's fields read as two bytes each, the message is accepted if and only if as many
  questions and records as the four counts say stand one behind the other from offset 12 to exactly the end
  of the message; the handle then holds the id, the flags and the counts, and for each section the offset
  where its first record stands (none when it is empty).
\<close>

theorem ns_initparse_sound:
  assumes "msglen \<le> length buf"
  shows "case ns_initparse buf msglen of
      Inl _ \<Rightarrow> \<nexists>start. laid_out buf msglen start
    | Inr h \<Rightarrow> m_eom h = msglen \<and> unat (m_id h) = be16 buf 0 \<and> unat (m_flags h) = be16 buf 2
        \<and> (\<exists>start. laid_out buf msglen start \<and> (\<forall>i \<in> {0, 1, 2, 3}. unat (m_counts h ! i) = be16 buf (4 + 2 * i)
            \<and> m_sections h ! i = (if be16 buf (4 + 2 * i) = 0 then None else Some (start i))))"
proof (cases "ns_initparse buf msglen")
  case (Inl e)
  then show ?thesis using ns_initparse_laid_out [OF _ assms] by auto
next
  case (Inr h)
  then obtain h: "m_eom h = msglen" "12 \<le> msglen" "NS_GET16 buf 0 = Inr (m_id h)" "length (m_counts h) = 4"
    "\<forall>i < 4. NS_GET16 buf (4 + 2 * i) = Inr (m_counts h ! i)"
    "init_sections buf msglen 0 (m_counts h) 12 = Inr (m_sections h, msglen)"
    by (rule ns_initparse_InrE) (auto simp: wf_handle_def)
  have flags: "NS_GET16 buf 2 = Inr (m_flags h)"
    using Inr by (auto simp: ns_initparse_def bindE_Inr_iff split: if_splits)
  have val: "unat v = be16 buf p" if "NS_GET16 buf p = Inr v" "p + 1 < 12" for p v
    using NS_GET16_be16 [of p buf] that h(2) assms by auto
  have counts: "unat (m_counts h ! i) = be16 buf (4 + 2 * i)" if "i < 4" for i
    using val [of "4 + 2 * i"] h(5) that by simp
  obtain start where start: "start 0 = 12" "start 4 = msglen"
    "\<forall>j < 4. rrs_span buf j (unat (m_counts h ! j)) (start j) (start (Suc j))"
    "m_sections h = map (\<lambda>j. if m_counts h ! j = 0 then None else Some (start j)) [0..<4]"
    using h(6) unfolding init_sections_span [OF assms] h(4) by auto
  have "m_sections h ! i = (if be16 buf (4 + 2 * i) = 0 then None else Some (start i))" if "i < 4" for i
    using that start(4) by (simp add: unat_eq_0 flip: counts [OF that])
  moreover have "laid_out buf msglen start" using start counts by (simp add: laid_out_def)
  ultimately show ?thesis using Inr h(1) val [OF h(3)] val [OF flags] counts by (auto intro!: exI [of _ start])
qed

lemma ns_initparse_sound_witness:
  "\<exists>h start. ns_initparse sample_response 35 = Inr h \<and> laid_out sample_response 35 start
    \<and> m_sections h = [Some 12, Some 19, None, None] \<and> start 1 = 19"
proof -
  have "35 \<le> length sample_response" by (simp add: sample_response_def)
  from ns_initparse_sound [OF this] show ?thesis
    by (simp add: sample_response_parse) (auto simp: sample_response_def be16_def)
qed

end
