(* ===== verification/Dns.thy ===== *)
theory Dns
  imports Message
begin

text \<open>
  The DNS message layer of dns.c and dns.h on top of the resolver library: \<open>ns_getid\<close>, \<open>ns_setid\<close>,
  \<open>ns_type_str\<close>, \<open>ns_mkquery\<close>, \<open>ns_parse_query\<close> and \<open>ns_parse_reply\<close>, with the header layout of
  \<open>ns_header\<close> and \<open>ns_flag\<close>. The host is little-endian, which matters only for the bit fields and
  for the id \<open>ns_mkquery\<close> stores without \<open>htons\<close>; all callers overwrite that id with \<open>ns_setid\<close>.
\<close>

section \<open>Header and types\<close>

abbreviation (input) NS_PACKETSZ :: nat where "NS_PACKETSZ \<equiv> 2048"
abbreviation (input) NS_NAMESZ :: nat where "NS_NAMESZ \<equiv> 2048"
abbreviation (input) NS_HFIXEDSZ :: nat where "NS_HFIXEDSZ \<equiv> 12"
abbreviation (input) NS_QFIXEDSZ :: nat where "NS_QFIXEDSZ \<equiv> 4"
abbreviation (input) ns_t_invalid :: int where "ns_t_invalid \<equiv> 0"
abbreviation (input) ns_t_a :: int where "ns_t_a \<equiv> 1"
abbreviation (input) ns_t_soa :: int where "ns_t_soa \<equiv> 6"
abbreviation (input) ns_t_block :: int where "ns_t_block \<equiv> 256"
abbreviation (input) ns_c_in :: int where "ns_c_in \<equiv> 1"

record ns_flag =
  fl_rd :: nat
  fl_tc :: nat
  fl_aa :: nat
  fl_opcode :: nat
  fl_qr :: nat
  fl_rcode :: nat
  fl_cd :: nat
  fl_ad :: nat
  fl_unused :: nat
  fl_ra :: nat

text \<open>The two bytes of the bit fields, the first field in the least significant bits.\<close>

definition flag_bytes :: "ns_flag \<Rightarrow> byte list" where
  "flag_bytes f =
     [word_of_nat (fl_rd f mod 2 + 2 * (fl_tc f mod 2) + 4 * (fl_aa f mod 2) + 8 * (fl_opcode f mod 16)
        + 128 * (fl_qr f mod 2)),
      word_of_nat (fl_rcode f mod 16 + 16 * (fl_cd f mod 2) + 32 * (fl_ad f mod 2) + 64 * (fl_unused f mod 2)
        + 128 * (fl_ra f mod 2))]"

definition ns_type_str :: "int \<Rightarrow> string" where
  "ns_type_str type =
     (if type = 1 then ''A'' else if type = 2 then ''NS'' else if type = 5 then ''CNAME''
      else if type = 6 then ''SOA'' else if type = 12 then ''PTR'' else if type = 15 then ''MX''
      else if type = 16 then ''TXT'' else if type = 28 then ''AAAA'' else if type = 255 then ''ANY''
      else ''UNKNOWN'')"

text \<open>\<open>ntohs\<close> of the first two bytes, and \<open>htons\<close> into them.\<close>

definition ns_getid :: "byte list \<Rightarrow> 16 word cres" where
  "ns_getid msg = NS_GET16 msg 0"

definition put_at :: "byte list \<Rightarrow> nat \<Rightarrow> byte list \<Rightarrow> byte list cres" where
  "put_at buf p bs = (if p + length bs \<le> length buf then Inr (mem_put buf p bs) else Inl Oob)"

definition ns_setid :: "byte list \<Rightarrow> 16 word \<Rightarrow> byte list cres" where
  "ns_setid msg ident = put_at msg 0 (NS_PUT16 (uint ident))"

section \<open>ns_mkquery\<close>

text \<open>
  \<open>buf\<close> is the whole buffer, so \<open>buflen\<close> is its length. \<open>rnd\<close> is the number \<open>rand_uint16\<close> returns.
  The array \<open>dnptrs\<close> has 20 elements, of which the first is \<open>buf\<close> and the second NULL. The result is
  the buffer and the length of the query.
\<close>

definition ns_mkquery :: "16 word \<Rightarrow> byte list \<Rightarrow> cstr \<Rightarrow> int \<Rightarrow> (byte list \<times> nat) cres" where
  "ns_mkquery rnd buf name type =
     (if \<not> length buf > NS_HFIXEDSZ then Inl Abort
      else bindE (put_at buf 0 (replicate NS_HFIXEDSZ 0)) (\<lambda>b0.
      bindE (put_at b0 0 [ucast rnd, ucast (drop_bit 8 rnd)]) (\<lambda>b1.
      bindE (put_at b1 2 (flag_bytes
        \<lparr>fl_rd = 1, fl_tc = 0, fl_aa = 0, fl_opcode = 0, fl_qr = 0, fl_rcode = 0, fl_cd = 0, fl_ad = 0,
         fl_unused = 0, fl_ra = 0\<rparr>)) (\<lambda>b2.
      if length buf - NS_HFIXEDSZ < NS_QFIXEDSZ then Inl Fail
      else bindE (ns_name_compress name b2 NS_HFIXEDSZ (length buf - NS_HFIXEDSZ - NS_QFIXEDSZ) (Some []) (Some 20))
        (\<lambda>(enc, _).
      bindE (put_at b2 NS_HFIXEDSZ enc) (\<lambda>b3.
      let cp = NS_HFIXEDSZ + length enc in
      bindE (put_at b3 cp (NS_PUT16 type)) (\<lambda>b4.
      bindE (put_at b4 (cp + 2) (NS_PUT16 ns_c_in)) (\<lambda>b5.
      bindE (put_at b5 4 [0, 1]) (\<lambda>b6. Inr (b6, cp + 4))))))))))"

section \<open>ns_parse_query and ns_parse_reply\<close>

definition ns_rr_name :: "ns_rr \<Rightarrow> cstr" where
  "ns_rr_name rr = (if rr_name rr \<noteq> [] then rr_name rr else [CH_dot])"

definition strcpy :: "nat \<Rightarrow> cstr \<Rightarrow> cstr cres" where
  "strcpy cap s = (if length s + 1 \<le> cap then Inr s else Inl Oob)"

definition ns_parse_query :: "byte list \<Rightarrow> nat \<Rightarrow> (cstr \<times> int) cres" where
  "ns_parse_query msg msglen =
     (if \<not> msglen > 0 then Inl Abort
      else bindE (ns_initparse msg msglen) (\<lambda>h.
      if m_counts h ! ns_s_qd = 0 then Inl Fail
      else bindE (found (ns_parserr msg h ns_s_qd 0)) (\<lambda>(h', rr).
      bindE (strcpy NS_NAMESZ (ns_rr_name rr)) (\<lambda>name. Inr (name, uint (rr_type rr))))))"

definition ns_parse_reply :: "byte list \<Rightarrow> nat \<Rightarrow> (cstr \<times> int) cres" where
  "ns_parse_reply msg msglen =
     (if \<not> msglen > 0 then Inl Abort
      else bindE (ns_initparse msg msglen) (\<lambda>h.
      if m_counts h ! ns_s_qd = 0 then Inl Fail
      else bindE (found (ns_parserr msg h ns_s_qd 0)) (\<lambda>(h', rr).
      bindE (strcpy NS_NAMESZ (ns_rr_name rr)) (\<lambda>name.
      if m_counts h' ! ns_s_an = 0 then Inr (name, ns_t_invalid)
      else bindE (found (ns_parserr msg h' ns_s_an 0)) (\<lambda>(h'', rr'). Inr (name, uint (rr_type rr')))))))"

section \<open>Reading and writing the buffer\<close>

lemma length_mem_put [simp]: "p + length bs \<le> length buf \<Longrightarrow> length (mem_put buf p bs) = length buf"
  by (simp add: mem_put_def)

lemma mem_put_nth:
  "p + length bs \<le> length buf \<Longrightarrow> i < length buf \<Longrightarrow>
   mem_put buf p bs ! i = (if p \<le> i \<and> i < p + length bs then bs ! (i - p) else buf ! i)"
  by (auto simp: mem_put_def nth_append min_def)

lemma put_at_ok [mem_simps]: "p + length bs \<le> length buf \<Longrightarrow> put_at buf p bs = Inr (mem_put buf p bs)"
  by (simp add: put_at_def)

lemma stands_atI:
  "p + length xs \<le> length buf \<Longrightarrow> (\<And>i. i < length xs \<Longrightarrow> buf ! (p + i) = xs ! i) \<Longrightarrow> stands_at buf p xs"
  unfolding stands_at_def by (rule nth_equalityI) auto

lemma stands_at_put: "p + length bs \<le> length buf \<Longrightarrow> stands_at (mem_put buf p bs) p bs"
  by (rule stands_atI) (auto simp: mem_put_nth)

text \<open>A store elsewhere in the buffer does not disturb what stands at an offset.\<close>

lemma stands_at_put_other:
  assumes "stands_at buf p xs" "q + length bs \<le> length buf" "p + length xs \<le> q \<or> q + length bs \<le> p"
    "p + length xs \<le> length buf"
  shows "stands_at (mem_put buf q bs) p xs"
  using assms stands_at_nth [OF assms(1)] by (intro stands_atI) (auto simp: mem_put_nth)

lemma ns_getid_setid: "ns_setid msg ident = Inr msg' \<Longrightarrow> ns_getid msg' = Inr ident"
  using stands_at_put [of 0 "NS_PUT16 (uint ident)" msg]
  by (auto simp: ns_setid_def put_at_def ns_getid_def NS_GET16_put split: if_splits)

lemma ns_setid_ok: "2 \<le> length msg \<Longrightarrow> ns_setid msg ident = Inr (mem_put msg 0 (NS_PUT16 (uint ident)))"
  by (simp add: ns_setid_def put_at_def)

section \<open>The first question and the first answer of a message\<close>

text \<open>
  After \<open>ns_initparse\<close> the first call of \<open>ns_parserr\<close> for the question section reads the question
  that starts behind the header, at offset 12.
\<close>

lemma one_le_uint: "(w :: 16 word) \<noteq> 0 \<Longrightarrow> 1 \<le> uint w"
proof -
  assume "w \<noteq> 0"
  then have "uint w \<noteq> 0" by (simp add: unsigned_eq_0_iff)
  moreover have "0 \<le> uint w" by simp
  ultimately show "1 \<le> uint w" by linarith
qed

lemma seek_question:
  assumes "ns_initparse buf eom = Inr h" "m_counts h ! 0 \<noteq> 0"
  shows "parserr_seek buf h 0 0 = Inr (setsection h 0, Some 12)" "m_msg_ptr (setsection h 0) = Some 12"
    "m_rrnum (setsection h 0) = 0" "m_eom h = eom" "length (m_counts h) = 4"
proof -
  obtain "wf_handle h" "m_eom h = eom" "m_sect h = 4"
    and sec: "init_sections buf eom 0 (m_counts h) 12 = Inr (m_sections h, eom)"
    using assms(1) by (rule ns_initparse_InrE)
  then have wf: "length (m_counts h) = 4" by (simp add: wf_handle_def)
  then obtain c cs where "m_counts h = c # cs" by (cases "m_counts h") auto
  with sec assms(2) obtain ss where "m_sections h = Some 12 # ss"
    by (auto simp: bindE_Inr_iff dest: sym)
  then have p: "m_msg_ptr (setsection h 0) = Some 12" "m_rrnum (setsection h 0) = 0"
    by (simp_all add: setsection_def)
  moreover have "0 < uint (m_counts h ! 0)" using one_le_uint [OF assms(2)] by simp
  ultimately show "parserr_seek buf h 0 0 = Inr (setsection h 0, Some 12)"
    using \<open>m_sect h = 4\<close> by (simp add: parserr_seek_def Let_def)
  show "m_eom h = eom" "length (m_counts h) = 4" by fact+
  show "m_msg_ptr (setsection h 0) = Some 12" "m_rrnum (setsection h 0) = 0" using p by simp_all
qed

lemma ns_parserr_question:
  assumes "ns_initparse buf eom = Inr h" "m_counts h ! 0 \<noteq> 0"
  shows "found (ns_parserr buf h 0 0) =
    bindE (dn_expand buf eom 12 NS_MAXDNAME) (\<lambda>(b, name).
      if 12 + nat b + 4 > eom then Inl Fail
      else bindE (NS_GET16 buf (12 + nat b)) (\<lambda>type.
        Inr ((setsection h 0)\<lparr>m_msg_ptr := Some (12 + nat b + 4), m_rrnum := 1\<rparr>,
          \<lparr>rr_name = name, rr_ttl = 0, rr_type = type, rr_rdlength = 0, rr_rdata = None\<rparr>)))"
proof -
  note q = seek_question [OF assms]
  have "1 \<le> uint (m_counts h ! 0)" by (rule one_le_uint) (rule assms(2))
  then show ?thesis
    using q by (auto simp: found_def ns_parserr_def parserr_next_def Let_def bindE_def attempt_def split: sum.split)
qed

lemma dn_expand_length:
  assumes "dn_expand buf eom src NS_MAXDNAME = Inr (n, s)" "eom \<le> length buf"
  shows "length s < NS_MAXDNAME"
  using assms by (auto elim!: dn_expand_InrE)

text \<open>What a message asks: the labels of the name at offset 12, and the 16 bit type behind it.\<close>

definition question_at :: "byte list \<Rightarrow> nat \<Rightarrow> label list \<Rightarrow> int \<Rightarrow> bool" where
  "question_at msg msglen ls type \<longleftrightarrow> name_at msg msglen 12 ls \<and> 0 \<le> type \<and> type < 2 ^ 16 \<and>
     (\<exists>b. dn_skipname msg msglen 12 = Inr b \<and> 12 + b + 4 \<le> msglen \<and>
        NS_GET16 msg (12 + b) = Inr (word_of_int type))"

text \<open>Where the first answer starts, and its type: 0 when there is none.\<close>

definition first_answer :: "byte list \<Rightarrow> nat \<Rightarrow> int \<Rightarrow> bool" where
  "first_answer msg msglen type \<longleftrightarrow> (\<exists>qd an. NS_GET16 msg 4 = Inr qd \<and> NS_GET16 msg 6 = Inr an \<and>
     (if an = 0 then type = ns_t_invalid
      else \<exists>b n t. ns_skiprr msg msglen 12 0 (unat qd) = Inr b \<and> dn_skipname msg msglen (12 + b) = Inr n \<and>
             NS_GET16 msg (12 + b + n) = Inr t \<and> type = uint t))"

lemma ns_rr_name_text:
  assumes "\<forall>l \<in> set ls. ok_label l" "rr_name rr = (if ls = [] then [] else text_name ls)"
  shows "ns_rr_name rr = text_name ls"
  using assms hd_text_name [OF assms(1)] by (auto simp: ns_rr_name_def text_name_def)

lemma uint_16: "0 \<le> uint (w :: 16 word)" "uint (w :: 16 word) < 2 ^ 16"
  using unsigned_less [of w] by simp_all

lemma question_sound:
  assumes "ns_initparse msg msglen = Inr h" "m_counts h ! 0 \<noteq> 0" "msglen \<le> length msg"
    "ns_parserr msg h 0 0 = Inr (h', Some rr)"
  shows "\<exists>ls. question_at msg msglen ls (uint (rr_type rr)) \<and> (\<forall>l \<in> set ls. ok_label l)
    \<and> length (enc_name ls) \<le> NS_MAXCDNAME \<and> ns_rr_name rr = text_name ls
    \<and> length (text_name ls) < NS_MAXDNAME"
    and "m_counts h' = m_counts h" "m_sections h' = m_sections h" "m_eom h' = msglen" "m_sect h' = 0"
proof -
  from assms(4) have "found (ns_parserr msg h 0 0) = Inr (h', rr)" by simp
  then obtain b name type where
    e: "dn_expand msg msglen 12 NS_MAXDNAME = Inr (b, name)" "12 + nat b + 4 \<le> msglen"
    and t: "NS_GET16 msg (12 + nat b) = Inr type"
    and h': "h' = (setsection h 0)\<lparr>m_msg_ptr := Some (12 + nat b + 4), m_rrnum := 1\<rparr>"
    and rr: "rr = \<lparr>rr_name = name, rr_ttl = 0, rr_type = type, rr_rdlength = 0, rr_rdata = None\<rparr>"
    unfolding ns_parserr_question [OF assms(1,2)] by (auto simp: bindE_Inr_iff split: if_splits)
  from e(1) assms(3) obtain ls where ls: "name_at msg msglen 12 ls" "\<forall>l \<in> set ls. ok_label l"
    "name = (if ls = [] then [] else text_name ls)" "length (text_name ls) < NS_MAXDNAME"
    "length (enc_name ls) \<le> NS_MAXCDNAME" "dn_skipname msg msglen 12 = Inr (nat b)"
    by (rule dn_expand_InrE)
  have "question_at msg msglen ls (uint (rr_type rr))"
    using ls e t uint_16 [of type] by (simp add: question_at_def rr)
  moreover have "ns_rr_name rr = text_name ls" using ls(2,3) by (simp add: ns_rr_name_text rr)
  ultimately show "\<exists>ls. question_at msg msglen ls (uint (rr_type rr)) \<and> (\<forall>l \<in> set ls. ok_label l)
    \<and> length (enc_name ls) \<le> NS_MAXCDNAME \<and> ns_rr_name rr = text_name ls
    \<and> length (text_name ls) < NS_MAXDNAME"
    using ls by blast
  show "m_counts h' = m_counts h" "m_sections h' = m_sections h" "m_eom h' = msglen" "m_sect h' = 0"
    using seek_question [OF assms(1,2)] by (simp_all add: h')
qed

lemma ns_parse_query_sound_aux:
  assumes "ns_parse_query msg msglen = Inr (name, type)" "msglen \<le> length msg"
  shows "\<exists>ls. question_at msg msglen ls type \<and> (\<forall>l \<in> set ls. ok_label l)
    \<and> length (enc_name ls) \<le> NS_MAXCDNAME \<and> name = text_name ls \<and> length name < NS_MAXDNAME"
proof -
  from assms(1) obtain h h' rr where h: "ns_initparse msg msglen = Inr h" "m_counts h ! 0 \<noteq> 0"
    "ns_parserr msg h 0 0 = Inr (h', Some rr)" "name = ns_rr_name rr" "type = uint (rr_type rr)"
    by (auto simp: ns_parse_query_def bindE_Inr_iff strcpy_def split: if_splits)
  then show ?thesis using question_sound [OF h(1,2) assms(2) h(3)] by metis
qed

lemma parse_safe:
  assumes "msglen < length msg" "ns_initparse msg msglen = Inr h" "m_counts h ! 0 \<noteq> 0"
    "ns_parserr msg h 0 0 = Inr (h', Some rr)"
  shows "safe (strcpy NS_NAMESZ (ns_rr_name rr))" "wf_handle h'" "m_eom h' = msglen"
proof -
  obtain "wf_handle h" "m_eom h = msglen" using assms(2) by (rule ns_initparse_InrE)
  then show "wf_handle h'" "m_eom h' = msglen" using ns_parserr_wf [OF _ _ assms(4)] assms(1) by auto
  show "safe (strcpy NS_NAMESZ (ns_rr_name rr))"
    using question_sound(1) [OF assms(2,3) _ assms(4)] assms(1) by (auto simp: strcpy_def)
qed

lemma first_parserr_safe:
  assumes "msglen < length msg" "ns_initparse msg msglen = Inr h"
  shows "safe (ns_parserr msg h 0 0)"
proof -
  obtain "wf_handle h" "m_eom h = msglen" using assms(2) by (rule ns_initparse_InrE)
  then show ?thesis using assms(1) by (simp add: ns_parserr_safe)
qed

lemma second_parserr_safe:
  assumes "msglen < length msg" "ns_initparse msg msglen = Inr h" "m_counts h ! 0 \<noteq> 0"
    "ns_parserr msg h 0 0 = Inr (h', Some rr)"
  shows "safe (ns_parserr msg h' s n)"
  using parse_safe(2,3) [OF assms] assms(1) by (simp add: ns_parserr_safe)

lemmas parse_safes = ns_initparse_safe first_parserr_safe parse_safe(1) second_parserr_safe

lemma ns_parse_query_safe_aux:
  assumes "0 < msglen" "msglen < length msg"
  shows "safe (ns_parse_query msg msglen)"
proof -
  have "safe (if m_counts h ! 0 = 0 then Inl Fail
      else bindE (found (ns_parserr msg h 0 0)) (\<lambda>(h', rr).
        bindE (strcpy NS_NAMESZ (ns_rr_name rr)) (\<lambda>name. Inr (name, uint (rr_type rr)))))"
    if "ns_initparse msg msglen = Inr h" for h
    using that assms by (cases "m_counts h ! 0 = 0") (auto intro!: safe_bindE safe_found parse_safes)
  then show ?thesis
    using assms by (auto simp: ns_parse_query_def intro!: safe_bindE parse_safes)
qed

lemma ns_parse_reply_safe_aux:
  assumes "0 < msglen" "msglen < length msg"
  shows "safe (ns_parse_reply msg msglen)"
proof -
  have "safe (if m_counts h ! 0 = 0 then Inl Fail
      else bindE (found (ns_parserr msg h 0 0)) (\<lambda>(h', rr).
        bindE (strcpy NS_NAMESZ (ns_rr_name rr)) (\<lambda>name.
          if m_counts h' ! 1 = 0 then Inr (name, 0)
          else bindE (found (ns_parserr msg h' 1 0)) (\<lambda>(h'', rr'). Inr (name, uint (rr_type rr'))))))"
    if "ns_initparse msg msglen = Inr h" for h
    using that assms by (cases "m_counts h ! 0 = 0") (auto intro!: safe_bindE safe_found parse_safes)
  then show ?thesis
    using assms by (auto simp: ns_parse_reply_def intro!: safe_bindE parse_safes)
qed

lemma mild_parse_message [mild_rules]:
  "0 < n \<Longrightarrow> mild (ns_parse_query msg n)" "0 < n \<Longrightarrow> mild (ns_parse_reply msg n)"
proof -
  have "mild (strcpy cap s)" for cap s by (simp add: strcpy_def)
  note rules = mild_rules this
  show "0 < n \<Longrightarrow> mild (ns_parse_query msg n)" "0 < n \<Longrightarrow> mild (ns_parse_reply msg n)"
    by (auto simp: ns_parse_query_def ns_parse_reply_def intro!: rules)
qed

lemma answer_section:
  assumes "ns_initparse msg msglen = Inr h" "m_counts h ! 0 \<noteq> 0" "m_counts h ! 1 \<noteq> 0"
  shows "\<exists>b. ns_skiprr msg msglen 12 0 (unat (m_counts h ! 0)) = Inr b \<and> m_sections h ! 1 = Some (12 + b)"
proof -
  obtain "wf_handle h" and sec: "init_sections msg msglen 0 (m_counts h) 12 = Inr (m_sections h, msglen)"
    using assms(1) by (rule ns_initparse_InrE)
  then have "length (m_counts h) = 4" by (simp add: wf_handle_def)
  then obtain c d cs where c: "m_counts h = c # d # cs"
    by (auto simp: numeral_eq_Suc length_Suc_conv)
  with sec assms(2,3) obtain b ss where "ns_skiprr msg msglen 12 0 (unat c) = Inr b"
    "m_sections h = Some 12 # Some (12 + b) # ss"
    by (auto simp: bindE_Inr_iff dest: sym)
  then show ?thesis using c by simp
qed

lemma seek_answer:
  assumes "m_sect h' = 0" "m_counts h' ! 1 \<noteq> 0" "m_sections h' ! 1 = Some p"
  shows "parserr_seek msg h' 1 0 = Inr (setsection h' 1, Some p)"
  using assms one_le_uint [OF assms(2)] by (simp add: parserr_seek_def Let_def setsection_def)

lemma answer_sound:
  assumes "ns_initparse msg msglen = Inr h" "m_counts h ! 0 \<noteq> 0" "msglen \<le> length msg"
    "ns_parserr msg h 0 0 = Inr (h', Some rr)" "m_counts h' ! 1 \<noteq> 0"
    "ns_parserr msg h' 1 0 = Inr (h'', Some rr')"
  shows "first_answer msg msglen (uint (rr_type rr'))"
proof -
  note q = question_sound(2-5) [OF assms(1-4)]
  obtain cnt: "\<forall>i < 4. NS_GET16 msg (4 + 2 * i) = Inr (m_counts h ! i)"
    using assms(1) by (rule ns_initparse_InrE)
  obtain b where b: "ns_skiprr msg msglen 12 0 (unat (m_counts h ! 0)) = Inr b" "m_sections h ! 1 = Some (12 + b)"
    using answer_section [OF assms(1,2)] assms(5) q by auto
  have seek: "parserr_seek msg h' 1 0 = Inr (setsection h' 1, Some (12 + b))"
    using q assms(5) b by (intro seek_answer) auto
  obtain n where e: "dn_expand msg msglen (12 + b) NS_MAXDNAME = Inr (n, rr_name rr')"
    and t: "NS_GET16 msg (12 + b + nat n) = Inr (rr_type rr')"
    using assms(6) seek q(3) by (auto elim!: ns_parserr_InrE)
  have "dn_skipname msg msglen (12 + b) = Inr (nat n)"
    using e assms(3) by (rule dn_expand_InrE)
  moreover have "NS_GET16 msg 4 = Inr (m_counts h ! 0)" "NS_GET16 msg 6 = Inr (m_counts h ! 1)"
    using cnt [rule_format, of 0] cnt [rule_format, of 1] by simp_all
  ultimately show ?thesis using b(1) t assms(5) q(1) by (auto simp: first_answer_def)
qed

lemma ns_parse_reply_sound_aux:
  assumes "ns_parse_reply msg msglen = Inr (name, type)" "msglen \<le> length msg"
  shows "(\<exists>ls qtype. question_at msg msglen ls qtype \<and> (\<forall>l \<in> set ls. ok_label l)
    \<and> length (enc_name ls) \<le> NS_MAXCDNAME \<and> name = text_name ls \<and> length name < NS_MAXDNAME)
    \<and> first_answer msg msglen type"
proof -
  from assms(1) obtain h h' rr where h: "ns_initparse msg msglen = Inr h" "m_counts h ! 0 \<noteq> 0"
    "ns_parserr msg h 0 0 = Inr (h', Some rr)" "name = ns_rr_name rr"
    and ans: "m_counts h' ! 1 = 0 \<and> type = 0 \<or> m_counts h' ! 1 \<noteq> 0 \<and>
      (\<exists>h'' rr'. ns_parserr msg h' 1 0 = Inr (h'', Some rr') \<and> type = uint (rr_type rr'))"
    by (auto simp: ns_parse_reply_def bindE_Inr_iff strcpy_def split: if_splits)
  note q = question_sound [OF h(1,2) assms(2) h(3)]
  obtain cnt: "\<forall>i < 4. NS_GET16 msg (4 + 2 * i) = Inr (m_counts h ! i)"
    using h(1) by (rule ns_initparse_InrE)
  have cnts: "NS_GET16 msg 4 = Inr (m_counts h ! 0)" "NS_GET16 msg 6 = Inr (m_counts h ! 1)"
    using cnt [rule_format, of 0] cnt [rule_format, of 1] by simp_all
  have "first_answer msg msglen type"
    using ans answer_sound [OF h(1,2) assms(2) h(3)] cnts q(2) by (auto simp: first_answer_def)
  moreover have "\<exists>ls qtype. question_at msg msglen ls qtype \<and> (\<forall>l \<in> set ls. ok_label l)
    \<and> length (enc_name ls) \<le> NS_MAXCDNAME \<and> name = text_name ls \<and> length name < NS_MAXDNAME"
    using q(1) h(4) by metis
  ultimately show ?thesis by blast
qed

section \<open>A query made by ns_mkquery\<close>

text \<open>
  The message \<open>ns_mkquery\<close> leaves in the buffer: the header with the flags of a standard query with
  recursion desired and one question, the encoded name, the type and the class IN.
\<close>

definition query_bytes :: "16 word \<Rightarrow> label list \<Rightarrow> int \<Rightarrow> byte list" where
  "query_bytes rnd ls type = [ucast rnd, ucast (drop_bit 8 rnd), 1, 0, 0, 1, 0, 0, 0, 0, 0, 0]
     @ enc_name ls @ NS_PUT16 type @ NS_PUT16 ns_c_in"

lemma flag_bytes_query:
  "flag_bytes \<lparr>fl_rd = 1, fl_tc = 0, fl_aa = 0, fl_opcode = 0, fl_qr = 0, fl_rcode = 0, fl_cd = 0,
     fl_ad = 0, fl_unused = 0, fl_ra = 0\<rparr> = [1, 0]"
  by (simp add: flag_bytes_def)

lemma length_query_bytes [simp]: "length (query_bytes rnd ls type) = 16 + length (enc_name ls)"
  by (simp add: query_bytes_def)

lemma ns_mkquery_enc:
  assumes compress: "\<And>mem dst. \<exists>ptrs. ns_name_compress name mem dst (length buf - 12 - 4) (Some []) (Some 20) = Inr (enc_name ls, ptrs)"
    and room: "16 + length (enc_name ls) < length buf"
  shows "\<exists>mem. ns_mkquery rnd buf name type = Inr (mem, 16 + length (enc_name ls))
    \<and> length mem = length buf \<and> stands_at mem 0 (query_bytes rnd ls type)"
proof -
  let ?n = "length (enc_name ls)"
  define b0 where "b0 = mem_put buf 0 (replicate NS_HFIXEDSZ 0)"
  define b1 where "b1 = mem_put b0 0 [ucast rnd, ucast (drop_bit 8 rnd)]"
  define b2 where "b2 = mem_put b1 2 [1, 0]"
  define b3 where "b3 = mem_put b2 12 (enc_name ls)"
  define b4 where "b4 = mem_put b3 (12 + ?n) (NS_PUT16 type)"
  define b5 where "b5 = mem_put b4 (14 + ?n) (NS_PUT16 ns_c_in)"
  define b6 where "b6 = mem_put b5 4 [0, 1]"
  note len = length_mem_put
  have L: "length b0 = length buf" "length b1 = length buf" "length b2 = length buf" "length b3 = length buf"
    "length b4 = length buf" "length b5 = length buf" "length b6 = length buf"
    using room by (simp_all add: b0_def b1_def b2_def b3_def b4_def b5_def b6_def)
  obtain ptrs where c: "ns_name_compress name b2 12 (length buf - 12 - 4) (Some []) (Some 20) = Inr (enc_name ls, ptrs)"
    using compress by blast
  have run: "ns_mkquery rnd buf name type = Inr (b6, 16 + ?n)"
  proof -
    have P: "put_at buf 0 (replicate NS_HFIXEDSZ 0) = Inr b0"
      "put_at b0 0 [ucast rnd, ucast (drop_bit 8 rnd)] = Inr b1" "put_at b1 2 [1, 0] = Inr b2"
      "put_at b2 12 (enc_name ls) = Inr b3" "put_at b3 (12 + ?n) (NS_PUT16 type) = Inr b4"
      "put_at b4 (12 + ?n + 2) (NS_PUT16 ns_c_in) = Inr b5" "put_at b5 4 [0, 1] = Inr b6"
      using room L
      by (simp_all add: put_at_def b0_def [symmetric] b1_def [symmetric] b2_def [symmetric]
          b3_def [symmetric] b4_def [symmetric] b5_def [symmetric] b6_def [symmetric])
    have "\<not> \<not> length buf > 12" "\<not> length buf - 12 < 4" "12 + ?n + 4 = 16 + ?n" using room by simp_all
    then show ?thesis
      by (simp only: ns_mkquery_def flag_bytes_query P c bindE_simps case_prod_conv Let_def if_False)
  qed
  define hdr :: "byte list" where "hdr = [ucast rnd, ucast (drop_bit 8 rnd), 1, 0, 0, 1, 0, 0, 0, 0, 0, 0]"
  have q: "query_bytes rnd ls type = hdr @ enc_name ls @ NS_PUT16 type @ NS_PUT16 ns_c_in" "length hdr = 12"
    by (simp_all add: query_bytes_def hdr_def)
  have at: "b6 ! i = query_bytes rnd ls type ! i" if "i < 16 + ?n" for i
  proof -
    consider "i < 12" | "12 \<le> i" "i < 12 + ?n" | "12 + ?n \<le> i" using that by linarith
    then show ?thesis
    proof cases
      case 1
      then have "b6 ! i = (if 4 \<le> i \<and> i < 6 then [0, 1] ! (i - 4) else b2 ! i)"
        using room L by (simp add: b6_def b5_def b4_def b3_def mem_put_nth)
      moreover have "b2 ! i = (if 2 \<le> i \<and> i < 4 then [1, 0] ! (i - 2)
          else if i < 2 then [ucast rnd, ucast (drop_bit 8 rnd)] ! i else 0)"
        using room L 1 by (simp add: b2_def b1_def b0_def mem_put_nth del: replicate.simps)
      moreover have "i \<in> {0, 1, 2, 3, 4, 5, 6, 7, 8, 9, 10, 11}" using 1 by (simp; presburger)
      ultimately have "b6 ! i = hdr ! i" by (auto simp: hdr_def)
      then show ?thesis using 1 by (simp add: q nth_append)
    next
      case 2
      then have "b6 ! i = enc_name ls ! (i - 12)"
        using room L by (simp add: b6_def b5_def b4_def b3_def mem_put_nth)
      moreover have "i - 12 < ?n" using 2 by linarith
      ultimately show ?thesis using 2 by (simp add: q nth_append)
    next
      case 3
      define k where "k = i - (12 + ?n)"
      have k: "i = 12 + ?n + k" "k < 4" using 3 that by (simp_all add: k_def)
      then have "b6 ! i = (NS_PUT16 type @ NS_PUT16 ns_c_in) ! k"
        using room L by (simp add: b6_def b5_def b4_def mem_put_nth nth_append)
      then show ?thesis using k by (simp add: q nth_append)
    qed
  qed
  have "stands_at b6 0 (query_bytes rnd ls type)"
    using at L room by (intro stands_atI) auto
  with run L show ?thesis by blast
qed

lemma ns_mkquery_ok:
  assumes ls: "\<forall>l \<in> set ls. ok_label l \<and> is_plain l" "length (enc_name ls) \<le> NS_MAXCDNAME"
    and room: "16 + length (enc_name ls) < length buf"
  shows "\<exists>mem. ns_mkquery rnd buf (text_name ls) type = Inr (mem, 16 + length (enc_name ls))
    \<and> length mem = length buf \<and> stands_at mem 0 (query_bytes rnd ls type)"
proof (rule ns_mkquery_enc [OF _ room])
  have "length (enc_name ls) < length buf - 12 - 4" using room by linarith
  then show "\<exists>ptrs. ns_name_compress (text_name ls) mem dst (length buf - 12 - 4) (Some []) (Some 20) = Inr (enc_name ls, ptrs)" for mem dst
    by (rule ns_name_compress_text [OF ls])
qed

text \<open>For the text of any name \<open>ns_mkquery\<close> fails, or makes a query for some name.\<close>

lemma ns_mkquery_outcome:
  assumes "\<forall>l \<in> set ls. ok_label l" "length buf = NS_PACKETSZ"
  shows "outcome {Fail} (\<lambda>(mem, n). \<exists>ks. (\<forall>k \<in> set ks. ok_label k) \<and> n = 16 + length (enc_name ks) \<and> n < NS_PACKETSZ
    \<and> length mem = NS_PACKETSZ \<and> stands_at mem 0 (query_bytes rnd ks type)) (ns_mkquery rnd buf (text_name ls) type)"
proof -
  have room: "NS_MAXCDNAME < length buf - 12 - 4" using assms(2) by simp
  show ?thesis
    using assms(1) room
  proof (cases rule: ns_name_compress_printed [where lastp = "Some 20"])
    case 1
    have "ns_mkquery rnd buf (text_name ls) type = Inl Fail"
      using assms(2) by (simp add: ns_mkquery_def put_at_def flag_bytes_def 1 [simplified assms(2), simplified] del: replicate.simps)
    then show ?thesis by simp
  next
    case (2 ks)
    have "16 + length (enc_name ks) < length buf" using 2(2) assms(2) by simp
    from ns_mkquery_enc [OF 2(3) this, of rnd type] obtain mem where
      mem: "ns_mkquery rnd buf (text_name ls) type = Inr (mem, 16 + length (enc_name ks))"
      "length mem = length buf" "stands_at mem 0 (query_bytes rnd ks type)" by blast
    show ?thesis unfolding mem(1) outcome_simps prod.case
      by (intro exI [of _ ks] conjI) (use 2(1,2) mem(2,3) assms(2) in simp_all)
  qed
qed

text \<open>Reading such a message back: one question and nothing else, then its name and type.\<close>

lemma query_bytes_counts:
  assumes "stands_at mem 0 (query_bytes rnd ls type)"
  shows "NS_GET16 mem 4 = Inr 1" "NS_GET16 mem 6 = Inr 0" "NS_GET16 mem 8 = Inr 0" "NS_GET16 mem 10 = Inr 0"
    "2 < length mem" "stands_at mem 12 (enc_name ls)" "stands_at mem (12 + length (enc_name ls)) (NS_PUT16 type)"
  using assms by (simp_all add: query_bytes_def NS_GET16_ok eval_nat_numeral)

lemma init_counts_query:
  assumes "stands_at mem 0 (query_bytes rnd ls type)" "12 \<le> eom"
  shows "init_counts mem eom 4 4 = Inr ([1, 0, 0, 0], 12)"
  using query_bytes_counts [OF assms(1)] assms(2) by (simp add: numeral_eq_Suc)

lemma parse_query_bytes:
  assumes ls: "\<forall>l \<in> set ls. ok_label l \<and> is_plain l" "length (enc_name ls) \<le> NS_MAXCDNAME"
    and st: "stands_at mem 0 (query_bytes rnd ls type)" and len: "msglen = 16 + length (enc_name ls)" "msglen \<le> length mem"
    and type: "0 \<le> type" "type < 2 ^ 16"
  shows "ns_parse_query mem msglen = Inr (text_name ls, type)"
proof -
  let ?n = "length (enc_name ls)"
  note c = query_bytes_counts [OF st]
  have e: "dn_expand mem msglen 12 NS_MAXDNAME = Inr (int ?n, if ls = [] then [] else text_name ls)"
    "dn_skipname mem msglen 12 = Inr ?n"
    using dn_expand_plain [OF ls(1) c(6), of msglen] len ls(2) by simp_all
  have sec: "init_sections mem msglen 0 [1, 0, 0, 0] 12 = Inr ([Some 12, None, None, None], msglen)"
    using e(2) len by (simp add: ns_skiprr_def Let_def eval_nat_numeral)
  have cnt: "init_counts mem msglen 4 4 = Inr ([1, 0, 0, 0], 12)"
    using init_counts_query [OF st] len by simp
  obtain i f where "NS_GET16 mem 0 = Inr i" "NS_GET16 mem 2 = Inr f"
    using len by (simp add: NS_GET16_ok)
  then obtain h where h: "ns_initparse mem msglen = Inr h" "m_counts h = [1, 0, 0, 0]"
    using cnt sec len by (simp add: ns_initparse_def)
  have t: "NS_GET16 mem (12 + ?n) = Inr (word_of_int type)" using c(7) by (rule NS_GET16_put)
  define rr where "rr = \<lparr>rr_name = (if ls = [] then [] else text_name ls), rr_ttl = 0,
    rr_type = word_of_int type, rr_rdlength = 0, rr_rdata = None\<rparr>"
  have "found (ns_parserr mem h 0 0) = Inr ((setsection h 0)\<lparr>m_msg_ptr := Some (12 + ?n + 4), m_rrnum := 1\<rparr>, rr)"
    using e(1) t len h by (subst ns_parserr_question) (auto simp: rr_def)
  moreover have "ns_rr_name rr = text_name ls" using ls(1) by (simp add: ns_rr_name_text rr_def)
  moreover have "uint (rr_type rr) = type"
    using type by (simp add: rr_def uint_word_of_int take_bit_int_eq_self)
  moreover have "length (text_name ls) < NS_NAMESZ"
    using length_text_name_le [OF ls] by simp
  ultimately show ?thesis
    using h len by (simp add: ns_parse_query_def strcpy_def)
qed

lemma setid_query_bytes:
  assumes "stands_at mem 0 (query_bytes rnd ls type)" "16 + length (enc_name ls) \<le> length mem"
  shows "\<exists>mem' rnd'. ns_setid mem ident = Inr mem' \<and> length mem' = length mem
    \<and> stands_at mem' 0 (query_bytes rnd' ls type)"
proof -
  define rnd' :: "16 word" where "rnd' = push_bit 8 (ucast (ucast ident :: byte)) OR ucast (ucast (drop_bit 8 ident) :: byte)"
  have swap: "NS_PUT16 (uint ident) = [ucast rnd', ucast (drop_bit 8 rnd')]"
    by (auto simp: NS_PUT16_def Let_def rnd'_def intro!: bit_word_eqI simp: bit_simps)
  let ?rest = "[1, 0, 0, 1, 0, 0, 0, 0, 0, 0] @ enc_name ls @ NS_PUT16 type @ NS_PUT16 ns_c_in"
  have q: "query_bytes r ls type = [ucast r, ucast (drop_bit 8 r)] @ ?rest" for r
    by (simp add: query_bytes_def)
  have "stands_at mem (0 + 2) ?rest"
    using assms(1) unfolding q stands_at_append by simp
  then have "stands_at (mem_put mem 0 (NS_PUT16 (uint ident))) (0 + 2) ?rest"
    using assms(2) by (intro stands_at_put_other) auto
  moreover have "stands_at (mem_put mem 0 (NS_PUT16 (uint ident))) 0 [ucast rnd', ucast (drop_bit 8 rnd')]"
    using stands_at_put [of 0 "NS_PUT16 (uint ident)" mem] assms(2) by (simp add: swap)
  ultimately have "stands_at (mem_put mem 0 (NS_PUT16 (uint ident))) 0 (query_bytes rnd' ls type)"
    unfolding q stands_at_append by simp
  then show ?thesis using assms(2) ns_setid_ok [of mem ident] by auto
qed

section \<open>Properties\<close>

text \<open>
  C18. \<open>ns_parse_query\<close> returns what the message asks: the labels the message denotes at offset 12,
  written in the text form, and the 16 bit type behind the name. The text fits the caller's buffer.
\<close>

theorem ns_parse_query_sound:
  assumes "ns_parse_query msg msglen = Inr (name, type)" "msglen \<le> length msg"
  shows "\<exists>ls. question_at msg msglen ls type \<and> (\<forall>l \<in> set ls. ok_label l)
    \<and> length (enc_name ls) \<le> NS_MAXCDNAME \<and> name = text_name ls \<and> length name < NS_NAMESZ"
  using ns_parse_query_sound_aux [OF assms] by auto

text \<open>A query for the A record of \<open>a.b\<close> with id 7, as \<open>ns_mkquery\<close> and \<open>ns_setid\<close> make it.\<close>

definition sample_msg :: "byte list" where
  "sample_msg = [0, 7, 1, 0, 0, 1, 0, 0, 0, 0, 0, 0, 1, 0x61, 1, 0x62, 0, 0, 1, 0, 1]"

lemma sample_msg_query: "sample_msg = query_bytes 0x700 [Plain [0x61], Plain [0x62]] 1"
  by (simp add: sample_msg_def query_bytes_def NS_PUT16_def Let_def)

lemma sample_name: "text_name [Plain [0x61], Plain [0x62]] = [0x61, CH_dot, 0x62]"
  by (simp add: text_name_def text_char_def special_def printable_def)

lemma sample_msg_parse: "ns_parse_query sample_msg 21 = Inr ([0x61, CH_dot, 0x62], 1)"
  using parse_query_bytes [where ls = "[Plain [0x61], Plain [0x62]]" and mem = sample_msg
      and rnd = "0x700" and type = 1 and msglen = 21]
  by (simp add: sample_name is_plain_def stands_at_def sample_msg_query [symmetric])
    (simp add: sample_msg_def)

lemma ns_parse_query_sound_witness:
  "\<exists>ls. question_at sample_msg 21 ls 1 \<and> [0x61, CH_dot, 0x62] = text_name ls"
  using ns_parse_query_sound [OF sample_msg_parse] by (auto simp: sample_msg_def)

text \<open>
  Whatever bytes a client sends, \<open>ns_parse_query\<close> neither reads outside the buffer nor hits an
  assertion nor runs on, provided the buffer extends at least one byte behind the message.
\<close>

theorem ns_parse_query_safe:
  assumes "0 < msglen" "msglen < length msg"
  shows "ns_parse_query msg msglen = Inl Fail \<or> (\<exists>name type. ns_parse_query msg msglen = Inr (name, type))"
  using ns_parse_query_safe_aux [OF assms] by (auto elim: safe_cases)

lemma ns_parse_query_safe_witness:
  "ns_parse_query [0, 7, 9] 2 = Inl Fail \<or> (\<exists>name type. ns_parse_query [0, 7, 9] 2 = Inr (name, type))"
  by (rule ns_parse_query_safe) simp_all

text \<open>
  The same for replies: \<open>ns_parse_reply\<close> fails or succeeds within the buffer.
\<close>

theorem ns_parse_reply_safe:
  assumes "0 < msglen" "msglen < length msg"
  shows "ns_parse_reply msg msglen = Inl Fail \<or> (\<exists>name type. ns_parse_reply msg msglen = Inr (name, type))"
  using ns_parse_reply_safe_aux [OF assms] by (auto elim: safe_cases)

lemma ns_parse_reply_safe_witness:
  "ns_parse_reply [0, 7, 9] 2 = Inl Fail \<or> (\<exists>name type. ns_parse_reply [0, 7, 9] 2 = Inr (name, type))"
  by (rule ns_parse_reply_safe) simp_all

text \<open>
  C27. \<open>ns_parse_reply\<close> returns the name of the question and the type of the first answer, the record
  behind the questions; 0 when the answer section is empty. This is what the test for a poisoned
  name looks at.
\<close>

theorem ns_parse_reply_sound:
  assumes "ns_parse_reply msg msglen = Inr (name, type)" "msglen \<le> length msg"
  shows "(\<exists>ls qtype. question_at msg msglen ls qtype \<and> (\<forall>l \<in> set ls. ok_label l)
      \<and> name = text_name ls \<and> length name < NS_NAMESZ)
    \<and> first_answer msg msglen type"
  using ns_parse_reply_sound_aux [OF assms] by auto

text \<open>The reply without answers to the sample query.\<close>

lemma sample_msg_reply: "ns_parse_reply sample_msg 21 = Inr ([0x61, CH_dot, 0x62], 0)"
proof -
  obtain h h' rr where h: "ns_initparse sample_msg 21 = Inr h" "m_counts h ! 0 \<noteq> 0"
    "ns_parserr sample_msg h 0 0 = Inr (h', Some rr)" "strcpy NS_NAMESZ (ns_rr_name rr) = Inr [0x61, CH_dot, 0x62]"
    using sample_msg_parse by (auto simp: ns_parse_query_def bindE_Inr_iff split: if_splits)
  have st: "stands_at sample_msg 0 (query_bytes 0x700 [Plain [0x61], Plain [0x62]] 1)"
    by (simp add: stands_at_def sample_msg_query)
  have "m_counts h' = m_counts h"
    using question_sound(2) [OF h(1,2) _ h(3)] by (simp add: sample_msg_def)
  moreover have "\<forall>i < 4. NS_GET16 sample_msg (4 + 2 * i) = Inr (m_counts h ! i)"
    using h(1) by (rule ns_initparse_InrE)
  then have "m_counts h ! 1 = 0" using query_bytes_counts(2) [OF st] by (drule_tac spec [of _ 1]) simp
  ultimately show ?thesis using h by (simp add: ns_parse_reply_def)
qed

lemma ns_parse_reply_sound_witness: "first_answer sample_msg 21 0"
  using ns_parse_reply_sound [OF sample_msg_reply] by (simp add: sample_msg_def)

text \<open>
  C28. Round trip: for a name of ordinary labels and a 16 bit type, \<open>ns_mkquery\<close> succeeds in any
  buffer with room for it, whatever the buffer held, and with the id \<open>ns_setid\<close> puts there the
  message has that id and \<open>ns_parse_query\<close> reads the same name and type from it.
\<close>

theorem ns_mkquery_parse:
  assumes "\<forall>l \<in> set ls. ok_label l \<and> is_plain l" "length (enc_name ls) \<le> NS_MAXCDNAME"
    "16 + length (enc_name ls) < length buf" "0 \<le> type" "type < 2 ^ 16"
  shows "\<exists>mem mem'. ns_mkquery rnd buf (text_name ls) type = Inr (mem, 16 + length (enc_name ls))
    \<and> ns_setid mem ident = Inr mem' \<and> ns_getid mem' = Inr ident
    \<and> ns_parse_query mem' (16 + length (enc_name ls)) = Inr (text_name ls, type)"
proof -
  obtain mem where m: "ns_mkquery rnd buf (text_name ls) type = Inr (mem, 16 + length (enc_name ls))"
    "length mem = length buf" "stands_at mem 0 (query_bytes rnd ls type)"
    using ns_mkquery_ok [OF assms(1-3)] by blast
  then obtain mem' rnd' where m': "ns_setid mem ident = Inr mem'" "length mem' = length mem"
    "stands_at mem' 0 (query_bytes rnd' ls type)"
    using setid_query_bytes [OF m(3), of ident] assms(3) by auto
  have "ns_parse_query mem' (16 + length (enc_name ls)) = Inr (text_name ls, type)"
    by (rule parse_query_bytes [OF assms(1,2) m'(3) refl _ assms(4,5)]) (use m m' assms(3) in simp)
  then show ?thesis using m m' ns_getid_setid [OF m'(1)] by blast
qed

lemma ns_mkquery_parse_witness:
  "\<exists>mem mem'. ns_mkquery 0x1234 (replicate 40 9) (text_name [Plain [0x61]]) 28 = Inr (mem, 19)
    \<and> ns_setid mem 5 = Inr mem' \<and> ns_getid mem' = Inr 5
    \<and> ns_parse_query mem' 19 = Inr (text_name [Plain [0x61]], 28)"
  using ns_mkquery_parse [where ls = "[Plain [0x61]]" and buf = "replicate 40 9" and type = 28
      and rnd = "0x1234" and ident = 5] by (simp add: is_plain_def)

text \<open>
  C19. Forwarding: when a client's query for a name of ordinary labels has been parsed, the message
  made from the parsed name and type in a packet buffer asks exactly the same question, under the
  new id.
\<close>

theorem forwarded_question:
  assumes "ns_parse_query msg msglen = Inr (name, type)" "msglen \<le> length msg"
    "question_at msg msglen ls type" "list_all is_plain ls" "length buf = NS_PACKETSZ"
  shows "\<exists>mem len mem'. ns_mkquery rnd buf name type = Inr (mem, len) \<and> ns_setid mem ident = Inr mem'
    \<and> ns_getid mem' = Inr ident \<and> ns_parse_query mem' len = Inr (name, type)
    \<and> len = 16 + length (enc_name ls)"
proof -
  obtain ks where "question_at msg msglen ks type" "\<forall>l \<in> set ks. ok_label l"
    "length (enc_name ks) \<le> NS_MAXCDNAME" "name = text_name ks"
    using ns_parse_query_sound_aux [OF assms(1,2)] by blast
  moreover from this have "ks = ls"
    using assms(3) name_at_unique by (auto simp: question_at_def)
  ultimately have ls: "\<forall>l \<in> set ls. ok_label l \<and> is_plain l" "length (enc_name ls) \<le> NS_MAXCDNAME"
    "name = text_name ls" "0 \<le> type" "type < 2 ^ 16"
    using assms(4) by (auto simp: question_at_def list_all_iff)
  then obtain mem where m: "ns_mkquery rnd buf name type = Inr (mem, 16 + length (enc_name ls))"
    "length mem = length buf" "stands_at mem 0 (query_bytes rnd ls type)"
    using ns_mkquery_ok [OF ls(1,2), of buf rnd type] assms(5) by auto
  then obtain mem' rnd' where m': "ns_setid mem ident = Inr mem'" "length mem' = length mem"
    "stands_at mem' 0 (query_bytes rnd' ls type)"
    using setid_query_bytes [OF m(3), of ident] ls(2) assms(5) by auto
  have "ns_parse_query mem' (16 + length (enc_name ls)) = Inr (text_name ls, type)"
    by (rule parse_query_bytes [OF ls(1,2) m'(3) refl _ ls(4,5)]) (use ls m m' assms(5) in simp)
  then show ?thesis using m m' ns_getid_setid [OF m'(1)] ls(3) by blast
qed

lemma sample_msg_question: "question_at sample_msg 21 [Plain [0x61], Plain [0x62]] 1"
proof -
  have "stands_at sample_msg 12 (enc_name [Plain [0x61], Plain [0x62]])"
    by (simp add: sample_msg_def)
  then have "dn_skipname sample_msg 21 12 = Inr 5"
    using dn_expand_plain(2) [where ls = "[Plain [0x61], Plain [0x62]]" and buf = sample_msg
        and src = 12 and eom = 21]
    by (simp add: is_plain_def sample_msg_def)
  moreover have "name_at sample_msg 21 12 [Plain [0x61], Plain [0x62]]"
    by (intro name_at.intros) (simp_all add: sample_msg_def)
  ultimately show ?thesis by (simp add: question_at_def NS_GET16_ok sample_msg_def)
qed

lemma forwarded_question_witness:
  "\<exists>mem mem'. ns_mkquery 0x1234 (replicate 2048 0) [0x61, CH_dot, 0x62] 1 = Inr (mem, 21)
    \<and> ns_setid mem 99 = Inr mem' \<and> ns_getid mem' = Inr 99
    \<and> ns_parse_query mem' 21 = Inr ([0x61, CH_dot, 0x62], 1)"
  using forwarded_question [OF sample_msg_parse _ sample_msg_question,
      where buf = "replicate 2048 0" and rnd = "0x1234" and ident = 99]
  by (auto simp: is_plain_def sample_msg_def)

text \<open>
  The over-read: when the buffer ends with the message, a name whose last byte in it is the type
  of a bit string label makes \<open>dn_skipname\<close> (and with it \<open>ns_initparse\<close>) read the byte behind the
  buffer. The receiving functions pass buffers of 2048 bytes that a datagram can fill.
\<close>

theorem dn_skipname_overread:
  assumes "buf \<noteq> []" "last buf = DNS_LABELTYPE_BITSTRING"
  shows "dn_skipname buf (length buf) (length buf - 1) = Inl Oob"
proof -
  have "buf ! (length buf - Suc 0) = 0x41" using assms by (simp add: last_conv_nth)
  then have "name_skip_loop buf (length buf) (length buf - Suc 0) = Inl Oob"
    using assms(1) by (subst name_skip_loop.simps) (simp add: rd_def labellen_def byte_class)
  then show ?thesis by (simp add: dn_skipname_def ns_name_skip_def)
qed

lemma dn_skipname_overread_witness:
  "ns_parse_query ([0, 7, 1, 0, 0, 1, 0, 0, 0, 0, 0, 0] @ [DNS_LABELTYPE_BITSTRING]) 13 = Inl Oob"
proof -
  let ?msg = "[0, 7, 1, 0, 0, 1, 0, 0, 0, 0, 0, 0] @ [DNS_LABELTYPE_BITSTRING] :: byte list"
  have "dn_skipname ?msg 13 12 = Inl Oob"
    using dn_skipname_overread [of ?msg] by (simp add: eval_nat_numeral)
  then have "init_sections ?msg 13 0 [1, 0, 0, 0] 12 = Inl Oob"
    by (simp add: ns_skiprr_def)
  moreover have "init_counts ?msg 13 4 4 = Inr ([1, 0, 0, 0], 12)"
    by (simp add: numeral_eq_Suc NS_GET16_ok)
  ultimately have "ns_initparse ?msg 13 = Inl Oob"
    by (simp add: ns_initparse_def NS_GET16_ok)
  then show ?thesis by (simp add: ns_parse_query_def)
qed

end
