(* ===== verification/Compress.thy ===== *)
theory Compress
  imports Dns
begin

text \<open>
  Compression is sound: what \<open>ns_name_pack\<close> writes behind the names of a message denotes the name it
  was given, up to the case of letters, whether it refers to an earlier name or not; the array
  \<open>dnptrs\<close> keeps pointing to names; and the search never leaves the message and always ends. The search
  is followed along the relation \<open>name_at\<close> of theory Unpack, which the invariant gives for every
  pointer of the array.
\<close>

section \<open>Names up to case\<close>

definition same_name :: "label list \<Rightarrow> label list \<Rightarrow> bool" where
  "same_name ks ls \<longleftrightarrow> map lower_label ks = map lower_label ls"

lemma same_name_simps [simp]:
  "same_name [] ls \<longleftrightarrow> ls = []" "same_name ks [] \<longleftrightarrow> ks = []"
  "same_name (k # ks) (l # ls) \<longleftrightarrow> lower_label k = lower_label l \<and> same_name ks ls"
  by (auto simp: same_name_def)

lemma name_at_zero: "name_at buf eom p ks \<Longrightarrow> buf ! p = 0 \<Longrightarrow> ks = []"
proof (induction rule: name_at.induct)
  case (label l p ls)
  then show ?case by (auto elim!: enc_label_Cons)
qed auto

text \<open>Only the bytes before \<open>eom\<close> count.\<close>

lemma name_at_cong:
  assumes "name_at buf eom p ks" "\<forall>i < eom. buf' ! i = buf ! i" "eom \<le> length buf'" "eom \<le> eom'"
  shows "name_at buf' eom' p ks"
  using assms
proof (induction rule: name_at.induct)
  case (root p)
  then show ?case by (intro name_at.root) auto
next
  case (label l p ls)
  have "stands_at buf' p (enc_label l)"
    using label.prems label.hyps(2) stands_at_nth [OF label.hyps(3)] by (intro stands_atI) auto
  moreover have "name_at buf' eom' (p + length (enc_label l)) ls" by (rule label.IH [OF label.prems])
  ultimately show ?case using label.hyps(1,2) label.prems(3) by (intro name_at.label) auto
next
  case (pointer p t ls)
  have same: "buf' ! p = buf ! p" "buf' ! (p + 1) = buf ! (p + 1)"
    using pointer.hyps(1) pointer.prems(1) by auto
  have "name_at buf' eom' t ls" by (rule pointer.IH [OF pointer.prems])
  then show ?case
    using name_at.pointer [of p eom' buf' t ls] pointer.hyps(1-4) pointer.prems(3) same by simp
qed

text \<open>The two bytes of a compression pointer.\<close>

lemma and_3F: "(n :: byte) AND 0x3F = take_bit 6 n"
  by (simp add: take_bit_eq_mask mask_eq_exp_minus_1)

lemma ptr_target_written:
  assumes "t < 0x4000"
  shows "(word_of_nat (t div 256) OR NS_CMPRSFLGS :: byte) AND NS_CMPRSFLGS = NS_CMPRSFLGS"
    "ptr_target (word_of_nat (t div 256) OR NS_CMPRSFLGS) (word_of_nat (t mod 256)) = t"
proof -
  show "(word_of_nat (t div 256) OR NS_CMPRSFLGS :: byte) AND NS_CMPRSFLGS = NS_CMPRSFLGS"
    by (simp add: bit.conj_disj_distrib2)
  have high: "bit t n \<Longrightarrow> n < 14" for n
    using assms take_bit_nat_eq_self [of t 14] bit_take_bit_iff [of 14 t n] by simp
  have C0: "take_bit 6 (word_of_nat (t div 256) OR NS_CMPRSFLGS :: byte) = word_of_nat (drop_bit 8 t)"
  proof -
    have "take_bit 6 (word_of_nat (drop_bit 8 t) :: byte) = word_of_nat (drop_bit 8 t)"
      by (rule bit_word_eqI) (auto simp: bit_simps dest: high)
    then show ?thesis by (simp add: drop_bit_eq_div)
  qed
  have "push_bit 8 (ucast (word_of_nat (drop_bit 8 t) :: byte)) OR ucast (word_of_nat (take_bit 8 t) :: byte)
      = (word_of_nat t :: 32 word)"
    by (rule bit_word_eqI) (auto simp: bit_simps dest: high)
  then have "ptr_target (word_of_nat (t div 256) OR NS_CMPRSFLGS) (word_of_nat (t mod 256)) = unat (word_of_nat t :: 32 word)"
    unfolding ptr_target_def and_3F C0 by (simp only: take_bit_eq_mod) simp
  also have "\<dots> = t" using assms by (simp add: unat_of_nat)
  finally show "ptr_target (word_of_nat (t div 256) OR NS_CMPRSFLGS) (word_of_nat (t mod 256)) = t" .
qed

section \<open>The search\<close>

lemma cmp_bytes_eq:
  "stands_at dm dn xs \<Longrightarrow> stands_at msg cp ys \<Longrightarrow> length xs = length ys \<Longrightarrow>
   cmp_bytes dm msg (length ys) dn cp = Inr (map mklower xs = map mklower ys)"
proof (induction ys arbitrary: xs dn cp)
  case (Cons y ys)
  then obtain x xs' where xs: "xs = x # xs'" by (cases xs) auto
  then show ?case using Cons by (auto simp: mem_simps)
qed simp

lemma enc_label_class:
  assumes "ok_label l" "enc_label l = n # rest"
  shows "n \<noteq> 0 \<and> (n AND NS_CMPRSFLGS = 0 \<and> unat n = length rest \<or> n AND NS_CMPRSFLGS = NS_TYPE_ELT)"
proof (cases l)
  case (Plain cs)
  with assms have cs: "n = word_of_nat (length rest)" "length rest < 64" "rest \<noteq> []" by auto
  then have "unat n = length rest" by (simp add: unat_of_length)
  with cs(2,3) show ?thesis by (auto simp: byte_class)
next
  case (Bits k d)
  with assms show ?thesis by auto
qed

lemma enc_name_hd: "stands_at buf p (enc_name ls) \<Longrightarrow> \<forall>l \<in> set ls. ok_label l \<Longrightarrow>
  rd buf p = Inr (buf ! p) \<and> (buf ! p = 0 \<longleftrightarrow> ls = [])"
  by (cases ls) (auto simp: mem_simps elim!: enc_label_Cons)

lemma name_at_rd: "name_at buf eom p ks \<Longrightarrow> eom \<le> length buf \<Longrightarrow> rd buf p = Inr (buf ! p)"
  by (cases rule: name_at.cases) (auto simp: mem_simps)

lemma dn_match_name:
  assumes "name_at msg eom cp ks" "eom \<le> length msg" "stands_at dm dn (enc_name ls)" "ls \<noteq> []" "\<forall>l \<in> set ls. ok_label l"
  shows "\<exists>r. dn_match dm msg sp dn cp = Some (Inr r) \<and> (\<forall>t. r = Found t \<longrightarrow> t = sp \<and> same_name ks ls)"
  using assms
proof (induction arbitrary: dn ls rule: name_at.induct)
  case (root p)
  then show ?case by (subst dn_match.simps) (simp add: mem_simps)
next
  case (label k p ks)
  obtain n rest where k: "enc_label k = n # rest" using label.hyps(1) by (rule enc_label_Cons)
  obtain l ls' where l: "ls = l # ls'" using label.prems(3) by (cases ls) auto
  have okl: "ok_label l" "\<forall>l \<in> set ls'. ok_label l" using label.prems(4) l by auto
  obtain d rest' where d: "enc_label l = d # rest'" using okl(1) by (rule enc_label_Cons)
  note kc = enc_label_class [OF label.hyps(1) k] and dc = enc_label_class [OF okl(1) d]
  have rds: "rd msg p = Inr n" "rd dm dn = Inr d" "stands_at msg (p + 1) rest" "stands_at dm (dn + 1) rest'"
    "stands_at dm (dn + 1 + length rest') (enc_name ls')"
    using label.hyps(3) label.prems(2) k d l by (auto simp: mem_simps)
  show ?case
  proof (cases "n AND NS_CMPRSFLGS = 0")
    case True
    then have n: "unat n = length rest" "unat n < 64" using kc by (auto simp: byte_class)
    have len: "labellen msg p = Inr (length rest)" using rds(1) True n by (simp add: labellen_def byte_class)
    have next_ks: "name_at msg eom (p + 1 + length rest) ks" using label.hyps(4) k by (simp add: add.assoc)
    show ?thesis
    proof (cases "length rest = unat d \<and> map mklower rest' = map mklower rest")
      case True
      then have eq: "length rest' = length rest" "lower_label k = lower_label l"
        using n k d by (auto simp: lower_label_def word_unat_eq_iff dest: arg_cong [of _ _ length])
      note hd = enc_name_hd [OF rds(5) okl(2)] and rdm = name_at_rd [OF next_ks label.prems(1)]
      have same: "map mklower rest' = map mklower rest" using True by simp
      have dul: "unat d = length rest" using True by simp
      note cmp = cmp_bytes_eq [OF rds(4,3) eq(1)]
      show ?thesis
      proof (cases "ls' = []")
        case True
        then have "dn_match dm msg sp dn p = Some (Inr (if msg ! (p + 1 + length rest) = 0 then Found sp else Next))"
          using rds(1,2) kc \<open>n AND NS_CMPRSFLGS = 0\<close> len dul cmp hd rdm eq(1) same
          by (subst dn_match.simps) simp
        then show ?thesis
          using True l eq(2) name_at_zero [OF next_ks] by auto
      next
        case False
        have "dn_match dm msg sp dn p = dn_match dm msg sp (dn + 1 + length rest') (p + 1 + length rest)"
          using rds(1,2) kc \<open>n AND NS_CMPRSFLGS = 0\<close> len dul cmp hd eq(1) same False
          by (subst dn_match.simps) simp
        moreover obtain r where "dn_match dm msg sp (dn + 1 + length rest') (p + 1 + length rest) = Some (Inr r)"
          "\<forall>t. r = Found t \<longrightarrow> t = sp \<and> same_name ks ls'"
          using label.IH [OF label.prems(1), of "dn + 1 + length rest'" ls'] rds(5) False okl(2) k
          by (auto simp: add.assoc)
        ultimately show ?thesis using l eq(2) by auto
      qed
    next
      case False
      then have "dn_match dm msg sp dn p = Some (Inr Next)"
      proof (cases "unat d = length rest")
        case True
        then have eq: "length rest' = length rest" "map mklower rest' \<noteq> map mklower rest"
          using dc False n by (auto simp: byte_class)
        then show ?thesis
          using rds(1,2) kc \<open>n AND NS_CMPRSFLGS = 0\<close> len True cmp_bytes_eq [OF rds(4,3) eq(1)]
          by (subst dn_match.simps) simp
      next
        case False
        then show ?thesis
          using rds(1,2) kc \<open>n AND NS_CMPRSFLGS = 0\<close> len by (subst dn_match.simps) simp
      qed
      then show ?thesis by simp
    qed
  next
    case False
    then show ?thesis using rds(1) kc by (subst dn_match.simps) (auto simp: byte_class)
  qed
next
  case (pointer p t ks)
  have rds: "rd msg p = Inr (msg ! p)" "rd msg (p + 1) = Inr (msg ! (p + 1))"
    using pointer.hyps(1) pointer.prems(1) by (auto simp: mem_simps)
  have zero: "msg ! p \<noteq> 0" using pointer.hyps(2) by auto
  have "dn_match dm msg sp dn p = dn_match dm msg sp dn t"
    using rds zero pointer.hyps(2,3) by (subst dn_match.simps) simp
  then show ?case using pointer.IH [OF pointer.prems] by simp
qed

text \<open>\<open>names_at\<close>: an offset denotes some name.\<close>

definition names_at :: "byte list \<Rightarrow> nat \<Rightarrow> nat \<Rightarrow> bool" where
  "names_at buf eom p \<longleftrightarrow> (\<exists>ks. name_at buf eom p ks)"

lemma name_at_less: "name_at buf eom p ks \<Longrightarrow> p < eom"
  by (cases rule: name_at.cases) auto

lemma names_at_cong:
  "names_at buf eom p \<Longrightarrow> \<forall>i < eom. buf' ! i = buf ! i \<Longrightarrow> eom \<le> length buf' \<Longrightarrow> eom \<le> eom' \<Longrightarrow> names_at buf' eom' p"
  unfolding names_at_def by (blast intro: name_at_cong)

definition refers_to :: "byte list \<Rightarrow> nat \<Rightarrow> label list \<Rightarrow> nat \<Rightarrow> bool" where
  "refers_to buf eom ls t \<longleftrightarrow> t < 0x4000 \<and> t < eom \<and> (\<exists>ks. name_at buf eom t ks \<and> same_name ks ls)"

lemma dn_find_from_name:
  assumes "name_at msg eom sp ks" "eom \<le> length msg" "stands_at dm dn (enc_name ls)" "ls \<noteq> []" "\<forall>l \<in> set ls. ok_label l"
  shows "\<exists>r. dn_find_from dm dn msg sp = Some (Inr r) \<and> (\<forall>t. r = Found t \<longrightarrow> refers_to msg eom ls t)"
  using assms
proof (induction rule: name_at.induct)
  case (root p)
  then show ?case by (subst dn_find_from.simps) (simp add: mem_simps)
next
  case (label k p ks)
  obtain n rest where k: "enc_label k = n # rest" using label.hyps(1) by (rule enc_label_Cons)
  note kc = enc_label_class [OF label.hyps(1) k]
  have n: "rd msg p = Inr n" using label.hyps(3) k by (auto simp: mem_simps)
  have name: "name_at msg eom p (k # ks)" using label.hyps by (rule name_at.label)
  show ?case
  proof (cases "n AND NS_CMPRSFLGS = 0 \<and> p < 0x4000")
    case True
    then have len: "unat n = length rest" using kc by (auto simp: byte_class)
    obtain r where r: "dn_match dm msg p dn p = Some (Inr r)" "\<forall>t. r = Found t \<longrightarrow> t = p \<and> same_name (k # ks) ls"
      using dn_match_name [OF name label.prems] by blast
    have "p + length (enc_label k) = p + unat n + 1" using k len by simp
    then show ?thesis
      using True n kc r label.IH [OF label.prems] name name_at_less [OF name]
      by (subst dn_find_from.simps) (cases r; auto simp: refers_to_def)
  next
    case False
    then show ?thesis using n by (subst dn_find_from.simps) auto
  qed
next
  case (pointer p t ks)
  have "rd msg p = Inr (msg ! p)" "msg ! p AND NS_CMPRSFLGS \<noteq> 0"
    using pointer.hyps(1,2) pointer.prems(1) by (auto simp: mem_simps)
  then show ?case by (subst dn_find_from.simps) auto
qed

lemma dn_find_names:
  assumes "\<forall>p \<in> set ptrs. names_at msg eom p" "eom \<le> length msg" "stands_at dm dn (enc_name ls)" "ls \<noteq> []" "\<forall>l \<in> set ls. ok_label l"
  shows "dn_find dm dn msg ptrs = Inr None \<or> (\<exists>t. dn_find dm dn msg ptrs = Inr (Some t) \<and> refers_to msg eom ls t)"
  using assms(1)
proof (induction ptrs)
  case (Cons p ptrs)
  then obtain ks where "name_at msg eom p ks" by (auto simp: names_at_def)
  then obtain r where "dn_find_from dm dn msg p = Some (Inr r)" "\<forall>t. r = Found t \<longrightarrow> refers_to msg eom ls t"
    using dn_find_from_name assms(2-5) by blast
  then show ?case using Cons by (cases r) auto
qed simp

section \<open>Packing\<close>

lemma mem_put_stands: "p + length (xs @ ys @ zs) \<le> length mem \<Longrightarrow> stands_at (mem_put mem p (xs @ ys @ zs)) (p + length xs) ys"
  using stands_at_self [of "take p mem @ xs" "p + length xs" ys] by (simp add: mem_put_def)

text \<open>What packing promises: it fails, or the bytes it adds denote the name and the array holds names.\<close>

definition packs :: "byte list \<Rightarrow> nat \<Rightarrow> nat \<Rightarrow> byte list \<Rightarrow> nat list \<Rightarrow> label list \<Rightarrow> (byte list \<times> nat list) cres \<Rightarrow> bool" where
  "packs mem dst dstsiz out ptrs ls r \<longleftrightarrow>
     r = Inl Fail \<and> dstsiz \<le> length out + length (enc_name ls) \<or>
     (\<exists>new more_ptrs ks. r = Inr (out @ new, ptrs @ more_ptrs) \<and> length (out @ new) \<le> dstsiz \<and> length new \<le> length (enc_name ls) \<and>
        (let mem' = mem_put mem dst (out @ new); eom = dst + length (out @ new) in
           name_at mem' eom (dst + length out) ks \<and> same_name ks ls \<and> (\<forall>p \<in> set more_ptrs. names_at mem' eom p)))"

lemma packs_root:
  assumes "dst + dstsiz \<le> length mem" "length out + 1 \<le> dstsiz"
  shows "packs mem dst dstsiz out ptrs [] (Inr (out @ [0], ptrs))"
proof -
  have "stands_at (mem_put mem dst (out @ [0] @ [])) (dst + length out) [0]"
    using assms by (intro mem_put_stands) simp
  then show ?thesis
    using assms(2) unfolding packs_def
    by (intro disjI2 exI [of _ "[0]"] exI [of _ "[]"]) (auto simp: Let_def intro!: name_at.root)
qed

lemma packs_pointer:
  assumes "dst + dstsiz \<le> length mem" "length out + 2 \<le> dstsiz" "refers_to (mem_put mem dst out) dst ls t" "ls \<noteq> []"
    "\<forall>l \<in> set ls. ok_label l"
  shows "packs mem dst dstsiz out ptrs ls
    (Inr (out @ [word_of_nat (t div 256) OR NS_CMPRSFLGS, word_of_nat (t mod 256)], ptrs))"
proof -
  define hi where "hi = (word_of_nat (t div 256) OR NS_CMPRSFLGS :: byte)"
  define lo where "lo = (word_of_nat (t mod 256) :: byte)"
  let ?mem = "mem_put mem dst (out @ [hi, lo])" and ?eom = "dst + length (out @ [hi, lo])"
  obtain ks where ks: "name_at (mem_put mem dst out) dst t ks" "same_name ks ls" and t: "t < 0x4000" "t < dst"
    using assms(3) by (auto simp: refers_to_def)
  have ptr: "hi AND NS_CMPRSFLGS = NS_CMPRSFLGS" "ptr_target hi lo = t"
    unfolding hi_def lo_def by (rule ptr_target_written [OF t(1)])+
  have "stands_at (mem_put mem dst (out @ [hi, lo] @ [])) (dst + length out) [hi, lo]"
    using assms(1,2) by (intro mem_put_stands) simp
  then have st: "?mem ! (dst + length out) = hi" "?mem ! (dst + length out + 1) = lo" by simp_all
  have "name_at ?mem ?eom t ks"
    by (rule name_at_cong [OF ks(1)]) (use assms(1,2) in \<open>simp_all add: mem_put_nth\<close>)
  moreover have "dst + length out + 1 < ?eom" "t < ?eom" using t(2) by simp_all
  ultimately have "name_at ?mem ?eom (dst + length out) ks"
    using name_at.pointer [of "dst + length out" ?eom ?mem t ks] by (simp only: st ptr)
  moreover have "2 \<le> length (enc_name ls)"
    using assms(4,5) by (cases ls) (auto elim!: enc_label_Cons simp: Suc_le_eq)
  ultimately show ?thesis
    using ks(2) assms(2) unfolding packs_def hi_def [symmetric] lo_def [symmetric]
    by (intro disjI2 exI [of _ "[hi, lo]"] exI [of _ "[]"] exI [of _ ks]) (simp add: Let_def)
qed

lemma packs_label:
  assumes "packs mem dst dstsiz (out @ enc_label l) (ptrs @ saved) ls r" "ok_label l" "dst + dstsiz \<le> length mem"
    "set saved \<subseteq> {dst + length out}"
  shows "packs mem dst dstsiz out ptrs (l # ls) r"
proof (cases "r = Inl Fail")
  case True
  then show ?thesis using assms(1) by (simp add: packs_def)
next
  case False
  then obtain new more_ptrs ks where r: "r = Inr ((out @ enc_label l) @ new, (ptrs @ saved) @ more_ptrs)"
      "length ((out @ enc_label l) @ new) \<le> dstsiz" "length new \<le> length (enc_name ls)"
    and name: "name_at (mem_put mem dst ((out @ enc_label l) @ new)) (dst + length ((out @ enc_label l) @ new))
        (dst + length (out @ enc_label l)) ks" "same_name ks ls"
      "\<forall>p \<in> set more_ptrs. names_at (mem_put mem dst ((out @ enc_label l) @ new)) (dst + length ((out @ enc_label l) @ new)) p"
    using assms(1) unfolding packs_def by (auto simp: Let_def)
  let ?new = "enc_label l @ new"
  let ?mem = "mem_put mem dst (out @ ?new)" and ?eom = "dst + length (out @ ?new)"
  have "stands_at ?mem (dst + length out) (enc_label l)"
    using assms(3) r(2) by (intro mem_put_stands) simp
  then have "name_at ?mem ?eom (dst + length out) (l # ks)"
    using assms(2) name(1) name_at_less [OF name(1)] by (intro name_at.label) (simp_all add: add.assoc)
  moreover from this have "\<forall>p \<in> set (saved @ more_ptrs). names_at ?mem ?eom p"
    using name(3) assms(4) by (auto simp: names_at_def)
  ultimately show ?thesis
    using r name(2) unfolding packs_def
    by (intro disjI2 exI [of _ ?new] exI [of _ "saved @ more_ptrs"] exI [of _ "l # ks"]) (simp add: Let_def)
qed

lemma pack_loop_packs:
  assumes "\<forall>l \<in> set ls. ok_label l" "stands_at src srcp (enc_name ls)" "dst + dstsiz \<le> length mem"
    "length out \<le> dstsiz" "\<forall>p \<in> set ptrs0. names_at mem dst p"
  shows "packs mem dst dstsiz out ptrs ls (pack_loop src mem dst dstsiz msg ptrs0 lastp srcp out ptrs first)"
  using assms(1,2,4)
proof (induction ls arbitrary: srcp out ptrs first)
  case Nil
  then have "rd_n src srcp (Suc 0) = Inr [0]"
    using rd_n_stands_at [of src srcp "[0]"] by simp
  then have "pack_loop src mem dst dstsiz msg ptrs0 lastp srcp out ptrs first =
      (if length out + 1 \<ge> dstsiz then Inl Fail else Inr (out @ [0], ptrs))"
    using Nil.prems by (subst pack_loop.simps) (simp add: mem_simps labellen_def byte_class Let_def)
  then show ?case
    using packs_root [OF assms(3)] by (simp add: packs_def)
next
  case (Cons k ls)
  obtain n rest where k: "enc_label k = n # rest" "n \<noteq> 0" "n AND NS_CMPRSFLGS \<noteq> NS_CMPRSFLGS" "rest \<noteq> []"
    using Cons.prems(1) by (auto elim!: enc_label_Cons)
  have st: "stands_at src srcp (n # rest)" using Cons.prems(2) k(1) by simp
  have rest: "labellen src srcp = Inr (length rest)" "rd src srcp = Inr n"
    "rd_n src srcp (Suc (length rest)) = Inr (n # rest)"
    using labellen_enc [of k src srcp] Cons.prems(1,2) k(1)
      rd_n_stands_at [OF st stands_at_length [OF st]] by (simp_all add: mem_simps)
  let ?mem = "mem_put mem dst out"
  have "\<forall>p \<in> set ptrs0. names_at ?mem dst p" "dst \<le> length ?mem"
    using assms(3,5) Cons.prems(3) names_at_cong [of mem dst _ ?mem dst] by (auto simp: mem_put_nth)
  then have step: "dn_find src srcp ?mem ptrs0 = Inr None \<or>
      (\<exists>t. dn_find src srcp ?mem ptrs0 = Inr (Some t) \<and> refers_to ?mem dst (k # ls) t)"
    using dn_find_names [of ptrs0 ?mem dst src srcp "k # ls"] Cons.prems(1,2) by blast
  show ?case
  proof (cases "msg \<and> (\<exists>t. dn_find src srcp ?mem ptrs0 = Inr (Some t))")
    case True
    then obtain t where t: "msg" "dn_find src srcp ?mem ptrs0 = Inr (Some t)" "refers_to ?mem dst (k # ls) t"
      using step by auto
    then have "pack_loop src mem dst dstsiz msg ptrs0 lastp srcp out ptrs first =
        (if length out + 1 \<ge> dstsiz then Inl Fail
         else Inr (out @ [word_of_nat (t div 256) OR NS_CMPRSFLGS, word_of_nat (t mod 256)], ptrs))"
      using k(2) rest(2) by (subst pack_loop.simps) (simp add: mem_simps)
    then show ?thesis
      using packs_pointer [OF assms(3) _ t(3) _ Cons.prems(1)] k(1,4) by (cases rest) (auto simp: packs_def)
  next
    case False
    then have "(if n \<noteq> 0 \<and> msg then dn_find src srcp ?mem ptrs0 else Inr None) = Inr None"
      using step by auto
    moreover define save where "save \<longleftrightarrow> n \<noteq> 0 \<and> msg \<and> dst + length out < 0x4000 \<and> first \<and>
      (case lastp of None \<Rightarrow> False | Some i \<Rightarrow> length ptrs + 2 < i)"
    moreover define saved where "saved = (if save then [dst + length out] else [])"
    moreover have "wr dstsiz out (n # rest) = Inr (out @ enc_label k)" if "\<not> length out + 1 + length rest \<ge> dstsiz"
      using that k(1) by (simp add: mem_simps)
    ultimately have "pack_loop src mem dst dstsiz msg ptrs0 lastp srcp out ptrs first =
        (if length out + 1 + length rest \<ge> dstsiz then Inl Fail
         else pack_loop src mem dst dstsiz msg ptrs0 lastp (srcp + length rest + 1) (out @ enc_label k)
           (ptrs @ saved) (first \<and> \<not> save))"
      using k(3,4) rest by (subst pack_loop.simps) (simp add: Let_def)
    moreover have "packs mem dst dstsiz (out @ enc_label k) (ptrs @ saved) ls
        (pack_loop src mem dst dstsiz msg ptrs0 lastp (srcp + length rest + 1) (out @ enc_label k)
           (ptrs @ saved) (first \<and> \<not> save))" if "\<not> length out + 1 + length rest \<ge> dstsiz"
      using that Cons.prems k(1) by (intro Cons.IH) auto
    moreover have "set saved \<subseteq> {dst + length out}" by (auto simp: saved_def)
    ultimately show ?thesis
      using Cons.prems(1) k(1) packs_label [OF _ _ assms(3)] by (auto simp: packs_def [of _ _ _ _ _ _ "Inl Fail"])
  qed
qed

lemma pack_legal_long:
  assumes "\<forall>l \<in> set ls. ok_label l" "stands_at src srcp (enc_name ls)" "NS_MAXCDNAME < l + length (enc_name ls)"
  shows "pack_legal src srcp l = Inl Fail"
  using assms
proof (induction ls arbitrary: srcp l)
  case Nil
  then show ?case
    by (subst pack_legal.simps) (simp add: mem_simps labellen_def byte_class)
next
  case (Cons k ls)
  obtain n rest where k: "enc_label k = n # rest" "n \<noteq> 0" "n AND NS_CMPRSFLGS \<noteq> NS_CMPRSFLGS"
    using Cons.prems(1) by (auto elim!: enc_label_Cons)
  have "labellen src srcp = Inr (length rest)" "rd src srcp = Inr n"
    using labellen_enc [of k src srcp] Cons.prems(1,2) k(1) by (simp_all add: mem_simps)
  moreover have "pack_legal src (srcp + length rest + 1) (l + length rest + 1) = Inl Fail"
    using Cons.prems k(1) by (intro Cons.IH) auto
  ultimately show ?case
    using Cons.prems k by (subst pack_legal.simps) simp
qed

section \<open>Properties\<close>

text \<open>
  C21. Compression is sound. Let the array \<open>dnptrs\<close> point to names of the message, before \<open>dst\<close>, and
  let \<open>dstsiz\<close> bytes be left there. Then \<open>ns_name_pack\<close> of an encoded name fails only if the name
  has more than 255 bytes or does not fit with a byte to spare. Otherwise it writes at most as many
  bytes as the name has which, read as part of the message, denote the name up to the case of its
  letters (through the pointer, if one was written), and every offset of the array it leaves denotes
  a name of the message, so that it can be called again for the next name. In particular the
  search always ends and never reads outside the message or the name.
\<close>

theorem ns_name_pack_denotes:
  assumes "\<forall>l \<in> set ls. ok_label l" "dst + dstsiz \<le> length mem" "\<forall>p \<in> set ptrs. names_at mem dst p"
  shows "case ns_name_pack (enc_name ls) mem dst dstsiz (Some ptrs) lastp of
      Inl e \<Rightarrow> e = Fail \<and> (NS_MAXCDNAME < length (enc_name ls) \<or> dstsiz \<le> length (enc_name ls))
    | Inr (out, ptrs') \<Rightarrow> length out \<le> min dstsiz (length (enc_name ls)) \<and>
        (\<exists>ks. name_at (mem_put mem dst out) (dst + length out) dst ks \<and> same_name ks ls) \<and>
        (\<forall>p \<in> set ptrs'. names_at (mem_put mem dst out) (dst + length out) p)"
proof (cases "NS_MAXCDNAME < length (enc_name ls)")
  case True
  then show ?thesis
    using pack_legal_long [OF assms(1), of "enc_name ls" 0 0] by (simp add: ns_name_pack_def stands_at_def)
next
  case False
  have st: "stands_at (enc_name ls) 0 (enc_name ls)" by (simp add: stands_at_def)
  define r where "r = ns_name_pack (enc_name ls) mem dst dstsiz (Some ptrs) lastp"
  have "r = pack_loop (enc_name ls) mem dst dstsiz True ptrs lastp 0 [] ptrs True"
    unfolding r_def using pack_legal_ok [OF assms(1) st, of 0] False by (simp add: ns_name_pack_def)
  then have packs: "packs mem dst dstsiz [] ptrs ls r"
    using pack_loop_packs [OF assms(1) st assms(2) _ assms(3)] by simp
  have old: "\<forall>p \<in> set ptrs. names_at (mem_put mem dst out) (dst + length out) p" if "length out \<le> dstsiz" for out
    using that assms(2,3) names_at_cong [of mem dst _ "mem_put mem dst out" "dst + length out"]
    by (auto simp: mem_put_nth)
  show ?thesis
  proof (cases r)
    case (Inl e)
    then show ?thesis using packs unfolding r_def [symmetric] by (simp add: packs_def)
  next
    case (Inr p)
    then show ?thesis using packs old unfolding r_def [symmetric] by (auto simp: packs_def Let_def)
  qed
qed

lemma ns_name_pack_denotes_witness:
  "\<exists>out ptrs ks. ns_name_pack [1, 0x41, 1, 0x42, 0] [0, 1, 0x62, 0, 0, 0, 0, 0, 0, 0, 0, 0] 4 8 (Some [1]) (Some 20) = Inr (out, ptrs)
     \<and> name_at (mem_put [0, 1, 0x62, 0, 0, 0, 0, 0, 0, 0, 0, 0] 4 out) (4 + length out) 4 ks
     \<and> same_name ks [Plain [0x41], Plain [0x42]]"
proof -
  let ?mem = "[0, 1, 0x62, 0, 0, 0, 0, 0, 0, 0, 0, 0] :: byte list"
  have "name_at ?mem 4 1 [Plain [0x62]]" by (intro name_at_enc_from) simp_all
  then have "names_at ?mem 4 1" unfolding names_at_def by blast
  then show ?thesis
    using ns_name_pack_denotes [of "[Plain [0x41], Plain [0x42]]" 4 8 ?mem "[1]" "Some 20"]
    by (auto split: sum.splits prod.splits)
qed

end
