(* ===== verification/Query.thy ===== *)
theory Query
  imports Prelude "HOL-Library.Multiset"
begin

text \<open>
  The table of pending queries of query.c: \<open>query_add\<close>, \<open>query_search\<close>, \<open>query_delete\<close>,
  \<open>query_tick\<close>, and the choice of a fresh message id, \<open>ns_newid\<close> of dns.c, which is the client of
  that table. Every \<open>query_t\<close> is allocated for the slot of \<open>qlist\<close> that comes to own it and is
  freed when the slot is cleared, so a pointer to a pending query is the index of its slot.
\<close>

section \<open>Queries and their table\<close>

datatype ns_prot = ns_udp | ns_tcp

text \<open>
  A socket address, as the code uses it: the family, and port and address in network byte order
  (\<open>sin_port\<close> and \<open>sin_addr\<close>, or \<open>sin6_port\<close> and \<open>sin6_addr\<close>).
\<close>

record sockaddr =
  sa_family :: int
  sa_port :: "byte list"
  sa_addr :: "byte list"

record query_t =
  q_id :: "16 word"
  q_qid :: "16 word"
  q_ttl :: int
  q_sock :: int
  q_protocol :: ns_prot
  q_addr :: sockaddr
  q_addrlen :: nat
  q_type :: int
  q_name :: cstr

type_synonym qlist = "query_t option list"

abbreviation (input) QLIST_SIZE :: nat where "QLIST_SIZE \<equiv> 128"

definition qlist_init :: qlist where
  "qlist_init = replicate QLIST_SIZE None"

text \<open>The loop of \<open>query_add\<close>: the first free slot; None is the return value \<open>-1\<close>.\<close>

fun add_loop :: "qlist \<Rightarrow> query_t \<Rightarrow> qlist option" where
  "add_loop [] q = None"
| "add_loop (None # ql) q = Some (Some q # ql)"
| "add_loop (Some p # ql) q = map_option (\<lambda>ql'. Some p # ql') (add_loop ql q)"

definition query_add :: "qlist \<Rightarrow> query_t \<Rightarrow> qlist option" where
  "query_add ql q = add_loop ql (q\<lparr>q_ttl := 10, q_qid := q_id q\<rparr>)"

text \<open>\<open>query_search\<close> returns the slot of the first query with the id.\<close>

fun query_search :: "qlist \<Rightarrow> 16 word \<Rightarrow> nat option" where
  "query_search [] ident = None"
| "query_search (None # ql) ident = map_option Suc (query_search ql ident)"
| "query_search (Some q # ql) ident = (if q_id q = ident then Some 0 else map_option Suc (query_search ql ident))"

fun query_delete :: "qlist \<Rightarrow> 16 word \<Rightarrow> qlist option" where
  "query_delete [] ident = None"
| "query_delete (None # ql) ident = map_option (\<lambda>ql'. None # ql') (query_delete ql ident)"
| "query_delete (Some q # ql) ident =
     (if q_id q = ident then Some (None # ql) else map_option (\<lambda>ql'. Some q # ql') (query_delete ql ident))"

fun query_tick :: "qlist \<Rightarrow> qlist" where
  "query_tick [] = []"
| "query_tick (None # ql) = None # query_tick ql"
| "query_tick (Some q # ql) =
     (let q' = q\<lparr>q_ttl := q_ttl q - 1\<rparr> in (if q_ttl q' = 0 then None else Some q') # query_tick ql)"

text \<open>The store \<open>query->id = id\<close> through the pointer \<open>query_search\<close> returned.\<close>

definition query_set_id :: "qlist \<Rightarrow> nat \<Rightarrow> 16 word \<Rightarrow> qlist" where
  "query_set_id ql i ident = ql[i := map_option (\<lambda>q. q\<lparr>q_id := ident\<rparr>) (ql ! i)]"

section \<open>ns_newid\<close>

text \<open>
  The random numbers the loop draws are supplied as a list; the rest of the list is returned. With
  no number left the loop has not ended.
\<close>

fun newid_loop :: "(16 word \<Rightarrow> bool) \<Rightarrow> 16 word list \<Rightarrow> (16 word \<times> 16 word list) cres" where
  "newid_loop used [] = Inl Diverge"
| "newid_loop used (ident # rnds) = (if ident = 0 \<or> used ident then newid_loop used rnds else Inr (ident, rnds))"

definition ns_newid :: "qlist \<Rightarrow> 16 word list \<Rightarrow> (16 word \<times> 16 word list) cres" where
  "ns_newid ql rnds = newid_loop (\<lambda>ident. query_search ql ident \<noteq> None) rnds"

section \<open>The interface of the table: which ids are taken\<close>

text \<open>
  What \<open>ns_newid\<close> and the callbacks rely on: a search that finds exactly the ids in use, of which
  there are at most \<open>cap\<close>.
\<close>

locale id_table =
  fixes wf :: "'t \<Rightarrow> bool" and ids :: "'t \<Rightarrow> 16 word set"
    and search :: "'t \<Rightarrow> 16 word \<Rightarrow> 'p option" and cap :: nat
  assumes search_None: "search t ident = None \<longleftrightarrow> ident \<notin> ids t"
    and finite_ids: "finite (ids t)"
    and card_ids: "wf t \<Longrightarrow> card (ids t) \<le> cap"
begin

lemma newid_fresh:
  "newid_loop (\<lambda>ident. search t ident \<noteq> None) rnds = Inr (ident, rest) \<Longrightarrow> ident \<noteq> 0 \<and> ident \<notin> ids t"
  by (induction rnds) (auto simp: search_None split: if_splits)

lemma newid_suffix:
  "newid_loop (\<lambda>ident. search t ident \<noteq> None) rnds = Inr (ident, rest) \<Longrightarrow>
   \<exists>skipped. rnds = skipped @ ident # rest \<and> (\<forall>r \<in> set skipped. r = 0 \<or> r \<in> ids t)"
proof (induction rnds)
  case (Cons r rnds)
  show ?case
  proof (cases "r = 0 \<or> r \<in> ids t")
    case True
    with Cons obtain skipped where "rnds = skipped @ ident # rest" "\<forall>r \<in> set skipped. r = 0 \<or> r \<in> ids t"
      by (auto simp: search_None)
    with True show ?thesis by (intro exI [of _ "r # skipped"]) auto
  next
    case False
    with Cons.prems show ?thesis by (auto simp: search_None)
  qed
qed simp

lemma newid_none: "newid_loop (\<lambda>ident. search t ident \<noteq> None) rnds = Inl e \<Longrightarrow> set rnds \<subseteq> insert 0 (ids t)"
  by (induction rnds) (auto simp: search_None split: if_splits)

text \<open>The loop ends as soon as the generator has produced more than \<open>cap + 1\<close> different numbers.\<close>

lemma newid_ends:
  assumes "wf t" "cap + 1 < card (set rnds)"
  shows "\<exists>ident rest. newid_loop (\<lambda>ident. search t ident \<noteq> None) rnds = Inr (ident, rest)"
proof (rule ccontr)
  assume "\<not> ?thesis"
  then obtain e where "newid_loop (\<lambda>ident. search t ident \<noteq> None) rnds = Inl e"
    by (cases "newid_loop (\<lambda>ident. search t ident \<noteq> None) rnds") auto
  then have "set rnds \<subseteq> insert 0 (ids t)" by (rule newid_none)
  then have "card (set rnds) \<le> card (insert 0 (ids t))"
    by (rule card_mono [rotated]) (simp add: finite_ids)
  also have "\<dots> \<le> cap + 1"
    using card_ids [OF assms(1)] finite_ids [of t] by (simp add: card_insert_if)
  finally show False using assms(2) by simp
qed

end

section \<open>Specification: the pending queries\<close>

text \<open>The table as the list of its queries in the order of the slots, and the ids in use.\<close>

fun pending :: "qlist \<Rightarrow> query_t list" where
  "pending [] = []"
| "pending (None # ql) = pending ql"
| "pending (Some q # ql) = q # pending ql"

definition ids :: "qlist \<Rightarrow> 16 word set" where
  "ids ql = q_id ` set (pending ql)"

lemma set_pending: "set (pending ql) = {q. Some q \<in> set ql}"
  by (induction ql rule: pending.induct) auto

lemma length_pending: "length (pending ql) \<le> length ql"
  by (induction ql rule: pending.induct) auto

lemma length_pending_full: "length (pending ql) = length ql \<longleftrightarrow> None \<notin> set ql"
proof (induction ql rule: pending.induct)
  case (2 ql)
  then show ?case using length_pending [of ql] by auto
qed auto

lemma pending_init [simp]: "pending qlist_init = []"
proof -
  have "pending (replicate n None) = []" for n by (induction n) auto
  then show ?thesis by (simp add: qlist_init_def)
qed

lemma query_search_None: "query_search ql ident = None \<longleftrightarrow> ident \<notin> ids ql"
  by (induction ql ident rule: query_search.induct) (auto simp: ids_def)

lemma query_search_Some:
  "query_search ql ident = Some i \<longleftrightarrow> i < length ql \<and> (\<exists>q. ql ! i = Some q \<and> q_id q = ident)
     \<and> (\<forall>j < i. \<forall>q. ql ! j = Some q \<longrightarrow> q_id q \<noteq> ident)"
proof (induction ql ident arbitrary: i rule: query_search.induct)
  case (2 ql ident)
  then show ?case by (cases i) (auto simp: nth_Cons split: nat.splits)
next
  case (3 q ql ident)
  then show ?case by (cases i) (auto simp: nth_Cons split: nat.splits)
qed simp

interpretation qids: id_table "\<lambda>ql. length ql = QLIST_SIZE" ids query_search QLIST_SIZE
proof
  show "query_search t ident = None \<longleftrightarrow> ident \<notin> ids t" for t ident by (rule query_search_None)
  show "finite (ids t)" for t by (simp add: ids_def)
  show "card (ids t) \<le> QLIST_SIZE" if "length t = QLIST_SIZE" for t
  proof -
    have "card (ids t) \<le> card (set (pending t))" unfolding ids_def by (rule card_image_le) simp
    also have "\<dots> \<le> length (pending t)" by (rule card_length)
    finally show ?thesis using length_pending [of t] that by simp
  qed
qed

section \<open>What the operations do to the pending queries\<close>

lemma add_loop_None: "add_loop ql q = None \<longleftrightarrow> length (pending ql) = length ql"
proof (induction ql q rule: add_loop.induct)
  case (2 ql q)
  then show ?case using length_pending [of ql] by simp
qed auto

lemma add_loop_Some:
  "add_loop ql q = Some ql' \<Longrightarrow> length ql' = length ql \<and> mset (pending ql') = add_mset q (mset (pending ql))"
  by (induction ql q arbitrary: ql' rule: add_loop.induct) auto

lemma query_delete_None: "query_delete ql ident = None \<longleftrightarrow> ident \<notin> ids ql"
  by (induction ql ident rule: query_delete.induct) (auto simp: ids_def)

lemma query_delete_search:
  "query_delete ql ident = map_option (\<lambda>i. ql[i := None]) (query_search ql ident)"
  by (induction ql ident rule: query_delete.induct) (auto simp: option.map_comp comp_def)

lemma pending_update_None:
  "i < length ql \<Longrightarrow> ql ! i = Some q \<Longrightarrow> mset (pending ql) = add_mset q (mset (pending (ql[i := None])))"
proof (induction ql arbitrary: i rule: pending.induct)
  case (3 p ql)
  then show ?case by (cases i) auto
qed (auto simp: nth_Cons split: nat.splits)

lemma pending_update:
  assumes "i < length ql" "ql ! i = Some q"
  shows "mset (pending (ql[i := Some p])) + {#q#} = mset (pending ql) + {#p#}"
  using pending_update_None [of i "ql[i := Some p]" p] pending_update_None [of i ql q] assms by simp

lemma length_query_tick [simp]: "length (query_tick ql) = length ql"
  by (induction ql rule: query_tick.induct) (auto simp: Let_def)

lemma length_query_delete: "query_delete ql ident = Some ql' \<Longrightarrow> length ql' = length ql"
  by (auto simp: query_delete_search)

lemma length_query_set_id [simp]: "length (query_set_id ql i ident) = length ql"
  by (simp add: query_set_id_def)

lemma query_tick_pending:
  "pending (query_tick ql) =
     map (\<lambda>q. q\<lparr>q_ttl := q_ttl q - 1\<rparr>) (filter (\<lambda>q. q_ttl q \<noteq> 1) (pending ql))"
  by (induction ql rule: query_tick.induct) (auto simp: Let_def)


lemma query_ticks_pending:
  assumes "\<forall>q \<in> set (pending ql). 0 < q_ttl q"
  shows "pending ((query_tick ^^ k) ql) =
     map (\<lambda>q. q\<lparr>q_ttl := q_ttl q - int k\<rparr>) (filter (\<lambda>q. int k < q_ttl q) (pending ql))"
proof (induction k)
  case 0
  have "filter (\<lambda>q. 0 < q_ttl q) (pending ql) = pending ql" using assms by simp
  then show ?case by simp
next
  case (Suc k)
  have less: "int k < t \<and> t - int k \<noteq> 1 \<longleftrightarrow> int (Suc k) < t" for t by auto
  have "pending ((query_tick ^^ Suc k) ql) =
      map (\<lambda>q. q\<lparr>q_ttl := q_ttl q - 1\<rparr>) (filter (\<lambda>q. q_ttl q \<noteq> 1) (pending ((query_tick ^^ k) ql)))"
    by (simp add: query_tick_pending)
  also have "\<dots> = map (\<lambda>q. q\<lparr>q_ttl := q_ttl q - int k - 1\<rparr>)
      (filter (\<lambda>q. int k < q_ttl q \<and> q_ttl q - int k \<noteq> 1) (pending ql))"
    by (simp add: Suc.IH filter_map comp_def conj_commute)
  finally show ?case by (simp only: less) (simp add: algebra_simps)
qed

text \<open>Giving one query an id nobody has keeps the ids distinct, even where it had shared its own.\<close>

lemma ids_mset: "ids ql = set_mset (image_mset q_id (mset (pending ql)))"
  by (simp add: ids_def)

lemma query_set_id_pending:
  assumes "i < length ql" "ql ! i = Some q"
  shows "mset (pending (query_set_id ql i n)) + {#q#} = mset (pending ql) + {#q\<lparr>q_id := n\<rparr>#}"
  using pending_update [OF assms, of "q\<lparr>q_id := n\<rparr>"] assms by (simp add: query_set_id_def)

section \<open>Properties\<close>

text \<open>
  C31. \<open>query_add\<close> fails exactly when all slots are taken; otherwise the new query joins the pending
  ones, with ten ticks to live and its id remembered as the client's, and nothing else changes.
\<close>

theorem query_add_pending:
  "case query_add ql q of
     None \<Rightarrow> length (pending ql) = length ql
   | Some ql' \<Rightarrow> length (pending ql) < length ql \<and> length ql' = length ql
       \<and> mset (pending ql') = add_mset (q\<lparr>q_ttl := 10, q_qid := q_id q\<rparr>) (mset (pending ql))"
proof (cases "query_add ql q")
  case None
  then have "length (pending ql) = length ql"
    using add_loop_None [of ql "q\<lparr>q_ttl := 10, q_qid := q_id q\<rparr>"] by (simp add: query_add_def)
  with None show ?thesis by simp
next
  case (Some ql')
  moreover have "length (pending ql) \<noteq> length ql"
    using Some add_loop_None [of ql "q\<lparr>q_ttl := 10, q_qid := q_id q\<rparr>"] by (simp add: query_add_def)
  moreover have "length (pending ql) \<le> length ql" by (rule length_pending)
  ultimately show ?thesis using add_loop_Some [of ql _ ql'] by (simp add: query_add_def)
qed

text \<open>
  C32. \<open>query_delete\<close> clears the slot \<open>query_search\<close> finds, and that one only: exactly one query
  leaves the table, one with the id asked for. It fails when no query has the id.
\<close>

theorem query_delete_pending:
  "case query_delete ql ident of
     None \<Rightarrow> query_search ql ident = None \<and> ident \<notin> q_id ` set (pending ql)
   | Some ql' \<Rightarrow> (\<exists>i q. query_search ql ident = Some i \<and> ql ! i = Some q \<and> q_id q = ident
       \<and> ql' = ql[i := None] \<and> mset (pending ql) = add_mset q (mset (pending ql')))"
proof (cases "query_search ql ident")
  case None
  then have "ident \<notin> ids ql" by (simp add: query_search_None)
  with None show ?thesis by (simp add: query_delete_search ids_def)
next
  case (Some i)
  then obtain q where "i < length ql" "ql ! i = Some q" "q_id q = ident"
    by (auto simp: query_search_Some)
  then show ?thesis using Some by (simp add: query_delete_search pending_update_None)
qed

text \<open>
  C22. Expiry: after \<open>k\<close> ticks exactly the queries that had more than \<open>k\<close> ticks to live are pending, in
  their order, each with \<open>k\<close> fewer.
\<close>

theorem query_ticks_expire:
  assumes "\<forall>q \<in> set (pending ql). 0 < q_ttl q"
  shows "pending ((query_tick ^^ k) ql) =
     map (\<lambda>q. q\<lparr>q_ttl := q_ttl q - int k\<rparr>) (filter (\<lambda>q. int k < q_ttl q) (pending ql))"
  using assms by (rule query_ticks_pending)

definition sample_query :: query_t where
  "sample_query = \<lparr>q_id = 7, q_qid = 0, q_ttl = 0, q_sock = 4, q_protocol = ns_udp,
     q_addr = \<lparr>sa_family = 2, sa_port = [0, 53], sa_addr = [127, 0, 0, 1]\<rparr>, q_addrlen = 16, q_type = 1, q_name = [0x61]\<rparr>"

lemma query_ticks_expire_witness:
  "pending ((query_tick ^^ 2) [None, Some (sample_query\<lparr>q_ttl := 2\<rparr>), Some (sample_query\<lparr>q_ttl := 10\<rparr>)])
     = [sample_query\<lparr>q_ttl := 8\<rparr>]"
  by (subst query_ticks_expire) (simp_all add: sample_query_def)

text \<open>
  The lifetime of a query: from \<open>query_add\<close> on it is pending for nine ticks of the clock, and
  the tenth removes it.
\<close>

theorem query_lifetime:
  assumes "query_add qlist_init q = Some ql"
  shows "length (pending ((query_tick ^^ k) ql)) = (if k < 10 then 1 else 0)"
proof -
  have "pending ql = [q\<lparr>q_ttl := 10, q_qid := q_id q\<rparr>]"
    using query_add_pending [of qlist_init q] assms by simp
  then show ?thesis by (subst query_ticks_pending) simp_all
qed

lemma query_lifetime_witness:
  "\<exists>ql. query_add qlist_init sample_query = Some ql
     \<and> length (pending ((query_tick ^^ 9) ql)) = 1 \<and> length (pending ((query_tick ^^ 10) ql)) = 0"
proof -
  obtain ql where "query_add qlist_init sample_query = Some ql"
    by (cases "query_add qlist_init sample_query") (auto simp: qlist_init_def query_add_def numeral_eq_Suc)
  then show ?thesis
    using query_lifetime [of sample_query ql 9] query_lifetime [of sample_query ql 10] by auto
qed

text \<open>
  C29. \<open>ns_newid\<close> returns a nonzero id that no pending query has, and it is the first such number
  the generator produced.
\<close>

theorem ns_newid_fresh:
  assumes "ns_newid ql rnds = Inr (ident, rest)"
  shows "ident \<noteq> 0 \<and> query_search ql ident = None
    \<and> (\<exists>skipped. rnds = skipped @ ident # rest \<and> (\<forall>r \<in> set skipped. r = 0 \<or> query_search ql r \<noteq> None))"
  using qids.newid_fresh [of ql rnds ident rest] qids.newid_suffix [of ql rnds ident rest] assms
  by (simp add: ns_newid_def query_search_None)

lemma ns_newid_fresh_witness:
  "ns_newid [Some sample_query] [7, 0, 9, 3] = Inr (9, [3]) \<and> (9 :: 16 word) \<noteq> 0
     \<and> query_search [Some sample_query] 9 = None"
proof -
  have "ns_newid [Some sample_query] [7, 0, 9, 3] = Inr (9, [3])"
    by (simp add: ns_newid_def sample_query_def)
  then show ?thesis using ns_newid_fresh [of "[Some sample_query]" "[7, 0, 9, 3]" 9 "[3]"] by simp
qed

text \<open>
  C30. Termination of \<open>ns_newid\<close>: with the 128 slots of \<open>qlist\<close>, 130 different random numbers are
  enough for the loop to return, however many queries are pending.
\<close>

theorem ns_newid_ends:
  assumes "length ql = QLIST_SIZE" "129 < card (set rnds)"
  shows "\<exists>ident rest. ns_newid ql rnds = Inr (ident, rest)"
  using qids.newid_ends [of ql rnds] assms by (simp add: ns_newid_def)

lemma ns_newid_ends_witness: "\<exists>ident rest. ns_newid qlist_init (map word_of_nat [0..<130]) = Inr (ident, rest)"
proof (rule ns_newid_ends)
  have "inj_on (word_of_nat :: nat \<Rightarrow> 16 word) {0..<130}"
    by (rule inj_onI) (auto simp: word_of_nat_eq_iff take_bit_eq_mod)
  then show "129 < card (set (map (word_of_nat :: nat \<Rightarrow> 16 word) [0..<130]))"
    by (simp add: card_image)
qed (simp add: qlist_init_def)

end
