(* ===== verification/Cache.thy ===== *)
theory Cache
  imports Prelude "HOL-Library.Signed_Division"
begin

text \<open>
  The cache of verdicts of cache.c: a hash table with chains on the heap. The entries \<open>entry_t\<close> live
  at addresses of an explicit heap, so a freed entry is an address that is no longer mapped and
  reading it is \<open>Uaf\<close>. The \<open>cache_t\<close> item of an entry is allocated for it, never freed and never
  shared (test_cb allocates one for each call of \<open>cache_insert\<close>), so it is stored in the entry by
  value. \<open>malloc\<close> is an argument: the address it returns, or None when it fails.
\<close>

section \<open>The table\<close>

record cache_t =
  c_name :: cstr
  c_ttl :: "32 word"
  c_type :: int
  c_block :: int

record entry_t =
  e_data :: cache_t
  e_next :: "nat option"

type_synonym eheap = "nat \<Rightarrow> entry_t option"

record cache =
  htable :: "nat option list"
  eheap :: eheap

abbreviation (input) HASH_SIZE :: nat where "HASH_SIZE \<equiv> 2039"

definition cache_init :: cache where
  "cache_init = \<lparr>htable = replicate HASH_SIZE None, eheap = (\<lambda>a. None)\<rparr>"

text \<open>
  \<open>hash\<close> with the remainder of C, whose sign is the dividend's. For a record type of 16 bits nothing
  overflows an \<open>int\<close>. With an empty name the hash is the type itself.
\<close>

definition hash :: "cstr \<Rightarrow> int \<Rightarrow> int" where
  "hash name type = foldl (\<lambda>h c. (h * 257 + int (unat c)) smod int HASH_SIZE) type name"

definition ht_get :: "nat option list \<Rightarrow> int \<Rightarrow> nat option cres" where
  "ht_get ht h = (if 0 \<le> h \<and> nat h < length ht then Inr (ht ! nat h) else Inl Oob)"

definition matches :: "cstr \<Rightarrow> int \<Rightarrow> cache_t \<Rightarrow> bool" where
  "matches name type c \<longleftrightarrow> c_type c = type \<and> c_name c = name"

text \<open>A loop that does not end is \<open>Diverge\<close>.\<close>

definition ends :: "'a cres option \<Rightarrow> 'a cres" where
  "ends r = (case r of None \<Rightarrow> Inl Diverge | Some x \<Rightarrow> x)"

section \<open>cache_search and cache_insert\<close>

text \<open>Following the pointer \<open>entry\<close>: None for NULL, else the address and the entry there.\<close>

definition entry_at :: "eheap \<Rightarrow> nat option \<Rightarrow> (nat \<times> entry_t) option cres" where
  "entry_at heap entry = (case entry of
      None \<Rightarrow> Inr None
    | Some a \<Rightarrow> (case heap a of None \<Rightarrow> Inl Uaf | Some e \<Rightarrow> Inr (Some (a, e))))"

text \<open>The walk along a chain that \<open>cache_search\<close> and \<open>cache_insert\<close> have in common.\<close>

partial_function (option) search_loop ::
  "eheap \<Rightarrow> cstr \<Rightarrow> int \<Rightarrow> nat option \<Rightarrow> cache_t option cres option"
where
  "search_loop heap name type entry =
     (case entry_at heap entry of
        Inl x \<Rightarrow> Some (Inl x)
      | Inr None \<Rightarrow> Some (Inr None)
      | Inr (Some (a, e)) \<Rightarrow>
          if matches name type (e_data e) then Some (Inr (Some (e_data e)))
          else search_loop heap name type (e_next e))"

definition cache_search :: "cache \<Rightarrow> cstr \<Rightarrow> int \<Rightarrow> cache_t option cres" where
  "cache_search c name type =
     bindE (ht_get (htable c) (hash name type)) (\<lambda>entry. ends (search_loop (eheap c) name type entry))"

text \<open>\<open>cache_insert\<close> returns the table and whether it returned 0.\<close>

definition cache_insert :: "cache \<Rightarrow> cache_t \<Rightarrow> nat option \<Rightarrow> (cache \<times> bool) cres" where
  "cache_insert c item malloc =
     (let h = hash (c_name item) (c_type item) in
      bindE (ht_get (htable c) h) (\<lambda>entry.
      bindE (ends (search_loop (eheap c) (c_name item) (c_type item) entry)) (\<lambda>found.
        if found \<noteq> None then Inr (c, False)
        else case malloc of
            None \<Rightarrow> Inr (c, False)
          | Some a \<Rightarrow> Inr (\<lparr>htable = (htable c)[nat h := Some a],
              eheap = (eheap c)(a \<mapsto> \<lparr>e_data = item, e_next = entry\<rparr>)\<rparr>, True))))"

section \<open>cache_delete\<close>

text \<open>Taking \<open>entry\<close> (at \<open>a\<close>) out of the chain behind \<open>last\<close>, or the whole chain off the bucket.\<close>

definition unlink_entry :: "cache \<Rightarrow> nat \<Rightarrow> nat option \<Rightarrow> nat \<Rightarrow> nat option \<Rightarrow> cache cres" where
  "unlink_entry c i prev a next =
     (case prev of
        None \<Rightarrow> Inr \<lparr>htable = (htable c)[i := None], eheap = (eheap c)(a := None)\<rparr>
      | Some b \<Rightarrow>
         (case eheap c b of
            None \<Rightarrow> Inl Uaf
          | Some p \<Rightarrow> Inr (c\<lparr>eheap := (eheap c)(b \<mapsto> p\<lparr>e_next := next\<rparr>, a := None)\<rparr>)))"

partial_function (option) delete_loop ::
  "cache \<Rightarrow> nat \<Rightarrow> cstr \<Rightarrow> int \<Rightarrow> nat option \<Rightarrow> nat option \<Rightarrow> (cache \<times> bool) cres option"
where
  "delete_loop c i name type prev entry =
     (case entry_at (eheap c) entry of
        Inl x \<Rightarrow> Some (Inl x)
      | Inr None \<Rightarrow> Some (Inr (c, False))
      | Inr (Some (a, e)) \<Rightarrow>
          if matches name type (e_data e) then
            Some (bindE (unlink_entry c i prev a (e_next e)) (\<lambda>c'. Inr (c', True)))
          else delete_loop c i name type (Some a) (e_next e))"

definition cache_delete :: "cache \<Rightarrow> cstr \<Rightarrow> int \<Rightarrow> (cache \<times> bool) cres" where
  "cache_delete c name type =
     (let h = hash name type in
      bindE (ht_get (htable c) h) (\<lambda>entry. ends (delete_loop c (nat h) name type None entry)))"

section \<open>cache_tick\<close>

text \<open>
  The inner \<open>while\<close> for bucket \<open>i\<close>. After \<open>free(entry)\<close> the code still reads \<open>entry->next\<close>.
\<close>

definition tick_entry :: "cache \<Rightarrow> nat \<Rightarrow> nat option \<Rightarrow> nat \<Rightarrow> entry_t \<Rightarrow> cache cres" where
  "tick_entry c i prev a e =
     (let d = e_data e; d' = d\<lparr>c_ttl := c_ttl d - 1\<rparr>;
          c' = c\<lparr>eheap := (eheap c)(a \<mapsto> e\<lparr>e_data := d'\<rparr>)\<rparr>
      in if c_ttl d' = 0 then unlink_entry c' i prev a (e_next e) else Inr c')"

partial_function (option) tick_chain ::
  "cache \<Rightarrow> nat \<Rightarrow> nat option \<Rightarrow> nat option \<Rightarrow> cache cres option"
where
  "tick_chain c i prev entry =
     (case entry_at (eheap c) entry of
        Inl x \<Rightarrow> Some (Inl x)
      | Inr None \<Rightarrow> Some (Inr c)
      | Inr (Some (a, e)) \<Rightarrow>
         (case bindE (tick_entry c i prev a e) (\<lambda>c'. bindE (entry_at (eheap c') (Some a)) (\<lambda>r. Inr (c', r))) of
            Inl x \<Rightarrow> Some (Inl x)
          | Inr (c', r) \<Rightarrow> tick_chain c' i (Some a) (case r of None \<Rightarrow> None | Some (_, e') \<Rightarrow> e_next e')))"

fun tick_buckets :: "cache \<Rightarrow> nat list \<Rightarrow> cache cres" where
  "tick_buckets c [] = Inr c"
| "tick_buckets c (i # is) =
     bindE (ends (tick_chain c i None (htable c ! i))) (\<lambda>c'. tick_buckets c' is)"

definition cache_tick :: "cache \<Rightarrow> cache cres" where
  "cache_tick c = tick_buckets c [0..<HASH_SIZE]"

section \<open>The hash\<close>

lemma hash_bounds:
  assumes "0 \<le> type" "type < int HASH_SIZE"
  shows "0 \<le> hash name type \<and> hash name type < int HASH_SIZE"
  using assms
proof (induction name arbitrary: type)
  case (Cons c name)
  let ?h = "(type * 257 + int (unat c)) smod int HASH_SIZE"
  have "0 \<le> type * 257 + int (unat c)" using Cons.prems by simp
  then have "?h = (type * 257 + int (unat c)) mod int HASH_SIZE"
    by (simp add: signed_modulo_int_def sgn_if)
  then have "0 \<le> ?h" "?h < int HASH_SIZE" by simp_all
  then have "0 \<le> hash name ?h \<and> hash name ?h < int HASH_SIZE" by (rule Cons.IH)
  then show ?case by (simp add: hash_def)
qed (simp add: hash_def)

section \<open>Chains\<close>

text \<open>\<open>chain heap p as\<close>: following \<open>next\<close> from \<open>p\<close> passes the entries at \<open>as\<close> and then meets NULL.\<close>

fun chain :: "eheap \<Rightarrow> nat option \<Rightarrow> nat list \<Rightarrow> bool" where
  "chain heap p [] \<longleftrightarrow> p = None"
| "chain heap p (a # as) \<longleftrightarrow> p = Some a \<and> (case heap a of None \<Rightarrow> False | Some e \<Rightarrow> chain heap (e_next e) as)"

definition item_at :: "eheap \<Rightarrow> nat \<Rightarrow> cache_t" where
  "item_at heap a = e_data (the (heap a))"

definition items :: "eheap \<Rightarrow> nat list \<Rightarrow> cache_t list" where
  "items heap as = map (item_at heap) as"

definition key :: "cache_t \<Rightarrow> cstr \<times> int" where
  "key c = (c_name c, c_type c)"

lemma items_simps [simp]: "items heap [] = []" "items heap (a # as) = item_at heap a # items heap as"
  by (simp_all add: items_def)

lemma chain_Cons [simp]:
  "chain heap p (a # as) \<longleftrightarrow> p = Some a \<and> (\<exists>e. heap a = Some e \<and> chain heap (e_next e) as)"
  by (auto split: option.splits)

declare chain.simps(2) [simp del]

lemma item_at_Some [simp]: "heap a = Some e \<Longrightarrow> item_at heap a = e_data e"
  by (simp add: item_at_def)

lemma chain_mapped: "chain heap p as \<Longrightarrow> a \<in> set as \<Longrightarrow> heap a \<noteq> None"
  by (induction as arbitrary: p) auto

lemma matches_key: "matches name type c \<longleftrightarrow> key c = (name, type)"
  by (auto simp: matches_def key_def)

lemma entry_at_simps [simp]:
  "entry_at heap None = Inr None" "heap a = Some e \<Longrightarrow> entry_at heap (Some a) = Inr (Some (a, e))"
  "heap a = None \<Longrightarrow> entry_at heap (Some a) = Inl Uaf"
  by (simp_all add: entry_at_def)

text \<open>On a chain the walk ends and finds the first item with the key.\<close>

lemma search_loop_chain:
  "chain heap p as \<Longrightarrow> search_loop heap name type p = Some (Inr (List.find (matches name type) (items heap as)))"
proof (induction as arbitrary: p)
  case (Cons a as)
  then obtain e where "p = Some a" "heap a = Some e" "chain heap (e_next e) as"
    by auto
  then show ?case using Cons.IH by (subst search_loop.simps) simp
qed (simp add: search_loop.simps)

lemma chain_upd_other:
  "a \<notin> set as \<Longrightarrow> chain (heap(a := x)) p as = chain heap p as"
  by (induction as arbitrary: p) auto

lemma items_upd_other: "a \<notin> set as \<Longrightarrow> items (heap(a := x)) as = items heap as"
  by (auto simp: items_def item_at_def)

section \<open>The invariant of the table\<close>

text \<open>
  Every bucket is a chain of entries whose keys hash to it, each key at most once. The types are in
  the range of the table's indices, as the one type sans stores, \<open>ns_t_block\<close>, is.
\<close>

definition key_ok :: "int \<Rightarrow> bool" where
  "key_ok type \<longleftrightarrow> 0 \<le> type \<and> type < int HASH_SIZE"

definition bucket_ok :: "eheap \<Rightarrow> nat \<Rightarrow> nat option \<Rightarrow> nat list \<Rightarrow> bool" where
  "bucket_ok heap i p as \<longleftrightarrow> chain heap p as \<and> distinct (map key (items heap as))
     \<and> (\<forall>c \<in> set (items heap as). hash (c_name c) (c_type c) = int i \<and> key_ok (c_type c))"

definition wf_cache :: "cache \<Rightarrow> bool" where
  "wf_cache c \<longleftrightarrow> length (htable c) = HASH_SIZE
     \<and> (\<forall>i < HASH_SIZE. \<exists>as. bucket_ok (eheap c) i (htable c ! i) as)"

lemma wf_cache_init: "wf_cache cache_init"
  by (auto simp: wf_cache_def cache_init_def bucket_ok_def intro: exI [of _ "[]"])

lemma wf_cacheE:
  assumes "wf_cache c" "key_ok type"
  obtains as where "nat (hash name type) < HASH_SIZE" "0 \<le> hash name type"
    "ht_get (htable c) (hash name type) = Inr (htable c ! nat (hash name type))"
    "bucket_ok (eheap c) (nat (hash name type)) (htable c ! nat (hash name type)) as"
proof -
  have h: "0 \<le> hash name type \<and> hash name type < int HASH_SIZE"
    using assms(2) by (intro hash_bounds) (auto simp: key_ok_def)
  then have i: "nat (hash name type) < HASH_SIZE" by auto
  then obtain as where "bucket_ok (eheap c) (nat (hash name type)) (htable c ! nat (hash name type)) as"
    using assms(1) by (auto simp: wf_cache_def)
  then show ?thesis using that h i assms(1) by (auto simp: ht_get_def wf_cache_def)
qed

text \<open>A search in a well-formed table ends without touching freed memory.\<close>

lemma cache_search_eq:
  assumes "wf_cache c" "key_ok type" "bucket_ok (eheap c) (nat (hash name type)) (htable c ! nat (hash name type)) as"
  shows "cache_search c name type = Inr (List.find (matches name type) (items (eheap c) as))"
proof -
  have "ht_get (htable c) (hash name type) = Inr (htable c ! nat (hash name type))"
    using assms(1,2) by (rule wf_cacheE)
  moreover have "chain (eheap c) (htable c ! nat (hash name type)) as"
    using assms(3) by (simp add: bucket_ok_def)
  ultimately show ?thesis by (simp add: cache_search_def ends_def search_loop_chain)
qed

lemma cache_search_total:
  assumes "wf_cache c" "key_ok type"
  shows "\<exists>r. cache_search c name type = Inr r"
  using assms by (rule wf_cacheE [where name = name]) (use cache_search_eq [OF assms] in blast)

text \<open>Buckets cannot share an entry, because an entry's key decides its bucket.\<close>

lemma bucket_disjoint:
  assumes "bucket_ok heap i p as" "bucket_ok heap j q bs" "a \<in> set as" "a \<in> set bs"
  shows "i = j"
  using assms by (auto simp: bucket_ok_def items_def)

lemma bucket_distinct: "bucket_ok heap i p as \<Longrightarrow> distinct as"
  by (auto simp: bucket_ok_def items_def distinct_map)

lemma bucket_fresh: "bucket_ok heap i p as \<Longrightarrow> heap a = None \<Longrightarrow> a \<notin> set as"
  using chain_mapped by (fastforce simp: bucket_ok_def)

lemma bucket_upd_other: "a \<notin> set as \<Longrightarrow> bucket_ok (heap(a := x)) i p as = bucket_ok heap i p as"
  by (simp add: bucket_ok_def chain_upd_other items_upd_other)

text \<open>A pointer is the head of one chain only; a search through a list of lists.\<close>

lemma chain_unique: "chain heap p as \<Longrightarrow> chain heap p bs \<Longrightarrow> as = bs"
proof (induction as arbitrary: p bs)
  case Nil
  then show ?case by (cases bs) auto
next
  case (Cons a as)
  then show ?case by (cases bs) auto
qed

lemma find_append: "List.find P (xs @ ys) = (case List.find P xs of None \<Rightarrow> List.find P ys | Some x \<Rightarrow> Some x)"
  by (induction xs) auto

lemma find_concat:
  "i < length xss \<Longrightarrow> \<forall>j < length xss. j \<noteq> i \<longrightarrow> List.find P (xss ! j) = None \<Longrightarrow> List.find P (concat xss) = List.find P (xss ! i)"
proof (induction xss arbitrary: i)
  case (Cons xs xss)
  show ?case
  proof (cases i)
    case 0
    have "List.find P ys = None" if "ys \<in> set xss" for ys
      using that Cons.prems(2) 0 by (force simp: in_set_conv_nth)
    then have "List.find P (concat xss) = None" by (auto simp: find_None_iff)
    then show ?thesis using 0 by (simp add: find_append split: option.split)
  next
    case (Suc k)
    then have "List.find P xs = None" "k < length xss" "\<forall>j < length xss. j \<noteq> k \<longrightarrow> List.find P (xss ! j) = None"
      using Cons.prems by force+
    then show ?thesis using Cons.IH Suc by (simp add: find_append)
  qed
qed simp

lemma concat_update_one: "i < n \<Longrightarrow> concat ((replicate n [])[i := xs]) = xs"
  by (simp add: upd_conv_take_nth_drop take_replicate drop_replicate)

section \<open>Insertion\<close>

lemma find_None_key: "List.find (matches name type) cs = None \<longleftrightarrow> (name, type) \<notin> key ` set cs"
  by (force simp: find_None_iff matches_key)

text \<open>Putting a new entry at the head of its bucket.\<close>

lemma insert_new:
  assumes wf: "wf_cache c" and ok: "key_ok (c_type item)" and fresh: "eheap c a = None"
    and i: "i = nat (hash (c_name item) (c_type item))"
    and new: "cache_search c (c_name item) (c_type item) = Inr None"
    and c': "c' = \<lparr>htable = (htable c)[i := Some a],
      eheap = (eheap c)(a \<mapsto> \<lparr>e_data = item, e_next = htable c ! i\<rparr>)\<rparr>"
  shows "wf_cache c'"
    and "key_ok t \<Longrightarrow> cache_search c' n t = (if (n, t) = key item then Inr (Some item) else cache_search c n t)"
proof -
  obtain as where as: "bucket_ok (eheap c) i (htable c ! i) as" and h: "i < HASH_SIZE"
    "0 \<le> hash (c_name item) (c_type item)"
    using wf ok i by (metis wf_cacheE)
  have "List.find (matches (c_name item) (c_type item)) (items (eheap c) as) = None"
    using cache_search_eq [OF wf ok as [unfolded i]] new by simp
  then have nokey: "key item \<notin> key ` set (items (eheap c) as)" by (simp add: find_None_key key_def)
  have len: "length (htable c) = HASH_SIZE" using wf by (simp add: wf_cache_def)
  have a: "a \<notin> set bs" if "bucket_ok (eheap c) j p bs" for j p bs
    using bucket_fresh [OF that fresh] .
  have head: "bucket_ok (eheap c') i (htable c' ! i) (a # as)"
    using as a [OF as] nokey ok h len i
    by (auto simp: c' bucket_ok_def chain_upd_other items_upd_other)
  have other: "bucket_ok (eheap c') j (htable c' ! j) bs"
    if "bucket_ok (eheap c) j (htable c ! j) bs" "j \<noteq> i" for j bs
    using that a [OF that(1)] by (simp add: c' bucket_upd_other)
  show wf': "wf_cache c'"
    unfolding wf_cache_def
  proof (intro conjI allI impI)
    show "length (htable c') = HASH_SIZE" using len by (simp add: c')
    show "\<exists>bs. bucket_ok (eheap c') j (htable c' ! j) bs" if j: "j < HASH_SIZE" for j
    proof -
      obtain bs where "bucket_ok (eheap c) j (htable c ! j) bs"
        using j wf unfolding wf_cache_def by blast
      then show ?thesis using head other [of j bs] by (cases "j = i") blast+
    qed
  qed
  assume t: "key_ok t"
  let ?j = "nat (hash n t)"
  show "cache_search c' n t = (if (n, t) = key item then Inr (Some item) else cache_search c n t)"
  proof (cases "?j = i")
    case True
    have "cache_search c' n t = Inr (List.find (matches n t) (items (eheap c') (a # as)))"
      using cache_search_eq [OF wf' t] head True by blast
    also have "\<dots> = Inr (if (n, t) = key item then Some item else List.find (matches n t) (items (eheap c) as))"
      using a [OF as] by (auto simp: c' items_upd_other matches_key)
    finally show ?thesis using cache_search_eq [OF wf t] as True by (simp split: if_splits)
  next
    case False
    obtain bs where bs: "bucket_ok (eheap c) ?j (htable c ! ?j) bs"
      using wf t by (rule wf_cacheE [where name = n])
    have "cache_search c' n t = Inr (List.find (matches n t) (items (eheap c') bs))"
      using cache_search_eq [OF wf' t] other [OF bs False] by blast
    also have "\<dots> = cache_search c n t"
      using cache_search_eq [OF wf t bs] a [OF bs] by (simp add: c' items_upd_other)
    finally show ?thesis using False i by (auto simp: key_def)
  qed
qed

lemma cache_insert_spec:
  assumes "wf_cache c" "key_ok (c_type item)" "\<forall>a. malloc = Some a \<longrightarrow> eheap c a = None"
  shows "\<exists>c' ok. cache_insert c item malloc = Inr (c', ok) \<and> wf_cache c'
    \<and> (ok \<longleftrightarrow> malloc \<noteq> None \<and> cache_search c (c_name item) (c_type item) = Inr None)
    \<and> (\<forall>n t. key_ok t \<longrightarrow> cache_search c' n t =
         (if ok \<and> (n, t) = key item then Inr (Some item) else cache_search c n t))"
proof -
  let ?h = "hash (c_name item) (c_type item)"
  have g: "ht_get (htable c) ?h = Inr (htable c ! nat ?h)" using assms(1,2) by (rule wf_cacheE)
  obtain r where r: "cache_search c (c_name item) (c_type item) = Inr r"
    using cache_search_total [OF assms(1,2)] by blast
  then have run: "cache_insert c item malloc = (if r \<noteq> None then Inr (c, False) else
      case malloc of None \<Rightarrow> Inr (c, False)
      | Some a \<Rightarrow> Inr (\<lparr>htable = (htable c)[nat ?h := Some a],
          eheap = (eheap c)(a \<mapsto> \<lparr>e_data = item, e_next = htable c ! nat ?h\<rparr>)\<rparr>, True))"
    using g by (auto simp: cache_insert_def cache_search_def Let_def bindE_Inr_iff)
  show ?thesis
  proof (cases "r = None \<and> malloc \<noteq> None")
    case True
    then obtain a where a: "malloc = Some a" by auto
    note new = insert_new [OF assms(1,2) assms(3) [rule_format, OF a] refl _ refl]
    show ?thesis using True r run a new by (intro exI conjI) auto
  next
    case False
    then show ?thesis using assms(1) r run by (auto split: option.splits)
  qed
qed

lemma cache_insert_heap:
  "cache_insert c item malloc = Inr (c', ok) \<Longrightarrow> eheap c' a \<noteq> None \<Longrightarrow> eheap c a \<noteq> None \<or> malloc = Some a"
  by (auto simp: cache_insert_def Let_def bindE_Inr_iff split: if_splits option.splits)

section \<open>The tick\<close>

text \<open>Counting down the items at the addresses of a set.\<close>

definition decr :: "cache_t \<Rightarrow> cache_t" where
  "decr c = c\<lparr>c_ttl := c_ttl c - 1\<rparr>"

definition decr_heap :: "eheap \<Rightarrow> nat set \<Rightarrow> eheap" where
  "decr_heap heap S = (\<lambda>a. if a \<in> S then map_option (\<lambda>e. e\<lparr>e_data := decr (e_data e)\<rparr>) (heap a) else heap a)"

definition expiring :: "eheap \<Rightarrow> nat list \<Rightarrow> bool" where
  "expiring heap as \<longleftrightarrow> (\<exists>c \<in> set (items heap as). c_ttl c = 1)"

lemma expiring_simps [simp]:
  "\<not> expiring heap []" "expiring heap (a # as) \<longleftrightarrow> c_ttl (item_at heap a) = 1 \<or> expiring heap as"
  by (auto simp: expiring_def)

lemma key_decr [simp]: "key (decr c) = key c" "c_name (decr c) = c_name c" "c_type (decr c) = c_type c"
  by (simp_all add: key_def decr_def)

lemma chain_agree: "\<forall>a \<in> set as. heap' a = heap a \<Longrightarrow> chain heap' p as = chain heap p as"
  by (induction as arbitrary: p) auto

lemma items_agree: "\<forall>a \<in> set as. heap' a = heap a \<Longrightarrow> items heap' as = items heap as"
  by (auto simp: items_def item_at_def)

lemma bucket_agree: "\<forall>a \<in> set as. heap' a = heap a \<Longrightarrow> bucket_ok heap' i p as = bucket_ok heap i p as"
  unfolding bucket_ok_def by (simp only: chain_agree items_agree)

lemma expiring_agree: "\<forall>a \<in> set as. heap' a = heap a \<Longrightarrow> expiring heap' as = expiring heap as"
  unfolding expiring_def by (simp only: items_agree)

lemma chain_decr: "chain heap p as \<Longrightarrow> chain (decr_heap heap S) p as"
  by (induction as arbitrary: p) (auto simp: decr_heap_def)

lemma items_decr: "chain heap p as \<Longrightarrow> set as \<subseteq> S \<Longrightarrow> items (decr_heap heap S) as = map decr (items heap as)"
  by (induction as arbitrary: p) (auto simp: decr_heap_def item_at_def)

lemma bucket_decr: "bucket_ok heap i p as \<Longrightarrow> set as \<subseteq> S \<Longrightarrow> bucket_ok (decr_heap heap S) i p as"
  using chain_decr items_decr by (auto simp: bucket_ok_def comp_def)

lemma decr_heap_decr_heap: "S \<inter> T = {} \<Longrightarrow> decr_heap (decr_heap heap S) T = decr_heap heap (S \<union> T)"
  by (rule ext) (auto simp: decr_heap_def)

lemma decr_heap_insert: "heap a = Some e \<Longrightarrow> a \<notin> S \<Longrightarrow>
  decr_heap (heap(a \<mapsto> e\<lparr>e_data := decr (e_data e)\<rparr>)) S = decr_heap heap (insert a S)"
  by (auto simp: decr_heap_def)

lemma decr_heap_empty [simp]: "decr_heap heap {} = heap"
  by (simp add: decr_heap_def)

lemma word_pred_eq_0: "(w :: 32 word) - 1 = 0 \<longleftrightarrow> w = 1"
  by simp

text \<open>
  One bucket: if an item runs out the walk frees its entry and then reads the freed entry;
  otherwise all items of the chain are counted down.
\<close>

lemma tick_chain_eq:
  assumes "chain (eheap c) p as" "distinct as" "\<And>b. prev = Some b \<Longrightarrow> eheap c b \<noteq> None"
  shows "tick_chain c i prev p =
    Some (if expiring (eheap c) as then Inl Uaf else Inr (c\<lparr>eheap := decr_heap (eheap c) (set as)\<rparr>))"
  using assms
proof (induction as arbitrary: c p prev)
  case Nil
  then show ?case by (simp add: tick_chain.simps)
next
  case (Cons a as)
  then obtain e where e: "p = Some a" "eheap c a = Some e" "chain (eheap c) (e_next e) as" "a \<notin> set as"
    by auto
  let ?c' = "c\<lparr>eheap := (eheap c)(a \<mapsto> e\<lparr>e_data := decr (e_data e)\<rparr>)\<rparr>"
  have entry: "tick_entry c i prev a e = (if c_ttl (e_data e) = 1 then unlink_entry ?c' i prev a (e_next e) else Inr ?c')"
    by (simp add: tick_entry_def Let_def decr_def)
  show ?case
  proof (cases "c_ttl (e_data e) = 1")
    case True
    have "\<exists>c2. unlink_entry ?c' i prev a (e_next e) = Inr c2 \<and> eheap c2 a = None"
      using Cons.prems(3) by (cases prev) (auto simp: unlink_entry_def)
    then show ?thesis using e entry True by (subst tick_chain.simps) auto
  next
    case False
    have "tick_chain c i prev p = tick_chain ?c' i (Some a) (e_next e)"
      using e entry False by (subst tick_chain.simps) simp
    also have "\<dots> = Some (if expiring (eheap ?c') as then Inl Uaf
        else Inr (?c'\<lparr>eheap := decr_heap (eheap ?c') (set as)\<rparr>))"
    proof (rule Cons.IH)
      have "eheap ?c' = (eheap c)(a \<mapsto> e\<lparr>e_data := decr (e_data e)\<rparr>)" by simp
      then show "chain (eheap ?c') (e_next e) as" using e(3) chain_upd_other [OF e(4)] by metis
    qed (use Cons.prems(2) in auto)
    finally show ?thesis
      using e False expiring_agree [of as "eheap ?c'" "eheap c"]
      by (simp add: decr_heap_insert)
  qed
qed

lemma tick_buckets_eq:
  assumes "\<And>i. i \<in> set is \<Longrightarrow> bucket_ok (eheap c) i (htable c ! i) (A i)" "distinct is"
  shows "tick_buckets c is = (if \<exists>i \<in> set is. expiring (eheap c) (A i) then Inl Uaf
    else Inr (c\<lparr>eheap := decr_heap (eheap c) (\<Union>i \<in> set is. set (A i))\<rparr>))"
  using assms
proof (induction "is" arbitrary: c)
  case (Cons i js)
  have b: "bucket_ok (eheap c) i (htable c ! i) (A i)" using Cons.prems(1) by simp
  then have run: "tick_chain c i None (htable c ! i) =
      Some (if expiring (eheap c) (A i) then Inl Uaf else Inr (c\<lparr>eheap := decr_heap (eheap c) (set (A i))\<rparr>))"
    using bucket_distinct [OF b] by (intro tick_chain_eq) (auto simp: bucket_ok_def)
  show ?case
  proof (cases "expiring (eheap c) (A i)")
    case True
    then show ?thesis using run by (simp add: ends_def)
  next
    case False
    let ?c' = "c\<lparr>eheap := decr_heap (eheap c) (set (A i))\<rparr>"
    have disj: "set (A i) \<inter> set (A j) = {}" if "j \<in> set js" for j
      using bucket_disjoint [OF b Cons.prems(1) [of j]] that Cons.prems(2) by auto
    have agree: "decr_heap (eheap c) (set (A i)) a = eheap c a" if "j \<in> set js" "a \<in> set (A j)" for j a
      using disj [OF that(1)] that(2) by (auto simp: decr_heap_def)
    have agrees: "\<forall>a \<in> set (A j). decr_heap (eheap c) (set (A i)) a = eheap c a" if "j \<in> set js" for j
      using agree that by blast
    have "bucket_ok (eheap ?c') j (htable ?c' ! j) (A j)" if "j \<in> set js" for j
      using bucket_agree [OF agrees [OF that]] Cons.prems(1) [of j] that by simp
    then have "tick_buckets ?c' js = (if \<exists>j \<in> set js. expiring (eheap ?c') (A j) then Inl Uaf
        else Inr (?c'\<lparr>eheap := decr_heap (eheap ?c') (\<Union>j \<in> set js. set (A j))\<rparr>))"
      using Cons.prems(2) by (intro Cons.IH) simp_all
    moreover have "expiring (eheap ?c') (A j) = expiring (eheap c) (A j)" if "j \<in> set js" for j
      using expiring_agree [OF agrees [OF that]] by simp
    moreover have "decr_heap (decr_heap (eheap c) (set (A i))) (\<Union>j \<in> set js. set (A j)) =
        decr_heap (eheap c) (set (A i) \<union> (\<Union>j \<in> set js. set (A j)))"
      using disj by (intro decr_heap_decr_heap) blast
    ultimately show ?thesis using False run by (simp add: ends_def)
  qed
qed simp

lemma find_key:
  "distinct (map key cs) \<Longrightarrow> x \<in> set cs \<Longrightarrow> List.find (matches (c_name x) (c_type x)) cs = Some x"
  by (induction cs) (auto simp: matches_key key_def image_iff)

lemma find_map_decr: "List.find (matches n t) (map decr cs) = map_option decr (List.find (matches n t) cs)"
  by (induction cs) (simp_all add: matches_key)

text \<open>An item is about to expire if and only if a search shows it.\<close>

lemma expiring_search:
  assumes "wf_cache c" "i < HASH_SIZE" "bucket_ok (eheap c) i (htable c ! i) as" "expiring (eheap c) as"
  shows "\<exists>n t item. key_ok t \<and> cache_search c n t = Inr (Some item) \<and> c_ttl item = 1"
proof -
  obtain x where x: "x \<in> set (items (eheap c) as)" "c_ttl x = 1"
    using assms(4) by (auto simp: expiring_def)
  have h: "hash (c_name x) (c_type x) = int i" "key_ok (c_type x)" "distinct (map key (items (eheap c) as))"
    using assms(3) x(1) by (auto simp: bucket_ok_def)
  then have "cache_search c (c_name x) (c_type x) = Inr (Some x)"
    using cache_search_eq [OF assms(1) h(2)] assms(3) find_key [OF h(3) x(1)] by simp
  then show ?thesis using h(2) x(2) by blast
qed

lemma search_expiring:
  assumes "wf_cache c" "key_ok t" "cache_search c n t = Inr (Some item)" "c_ttl item = 1"
    "bucket_ok (eheap c) (nat (hash n t)) (htable c ! nat (hash n t)) as"
  shows "expiring (eheap c) as"
proof -
  have "List.find (matches n t) (items (eheap c) as) = Some item"
    using cache_search_eq [OF assms(1,2,5)] assms(3) by simp
  then show ?thesis using assms(4) by (auto simp: expiring_def find_Some_iff)
qed

lemma cache_tick_cases:
  assumes wf: "wf_cache c"
  shows "if \<exists>n t item. key_ok t \<and> cache_search c n t = Inr (Some item) \<and> c_ttl item = 1
    then cache_tick c = Inl Uaf
    else \<exists>c'. cache_tick c = Inr c' \<and> wf_cache c' \<and> dom (eheap c') = dom (eheap c)
      \<and> (\<forall>n t. key_ok t \<longrightarrow> (\<exists>r. cache_search c n t = Inr r \<and> cache_search c' n t = Inr (map_option decr r)))"
proof -
  obtain A where A: "\<And>i. i < HASH_SIZE \<Longrightarrow> bucket_ok (eheap c) i (htable c ! i) (A i)"
    using wf unfolding wf_cache_def by metis
  let ?S = "\<Union>i \<in> set [0..<HASH_SIZE]. set (A i)"
  let ?c' = "c\<lparr>eheap := decr_heap (eheap c) ?S\<rparr>"
  have run: "cache_tick c = (if \<exists>i \<in> set [0..<HASH_SIZE]. expiring (eheap c) (A i) then Inl Uaf else Inr ?c')"
    unfolding cache_tick_def by (rule tick_buckets_eq) (simp_all add: A del: upt_rec_numeral)
  have bucket: "nat (hash n t) < HASH_SIZE" if "key_ok t" for n t
    using wf that by (rule wf_cacheE)
  show ?thesis
  proof (cases "\<exists>i \<in> set [0..<HASH_SIZE]. expiring (eheap c) (A i)")
    case True
    then have "\<exists>n t item. key_ok t \<and> cache_search c n t = Inr (Some item) \<and> c_ttl item = 1"
      using expiring_search [OF wf _ A] by (auto simp del: upt_rec_numeral)
    then show ?thesis using run True by (simp only: if_True)
  next
    case False
    have no: "\<not> (\<exists>n t item. key_ok t \<and> cache_search c n t = Inr (Some item) \<and> c_ttl item = 1)"
    proof (intro notI, elim exE conjE)
      fix n t item
      assume k: "key_ok t" and s: "cache_search c n t = Inr (Some item)" "c_ttl item = 1"
      have "expiring (eheap c) (A (nat (hash n t)))"
        by (rule search_expiring [OF wf k s A [OF bucket [OF k]]])
      then show False using False bucket [OF k] by (auto simp del: upt_rec_numeral)
    qed
    have new: "bucket_ok (eheap ?c') i (htable ?c' ! i) (A i)" if "i < HASH_SIZE" for i
    proof -
      have "set (A i) \<subseteq> ?S" using that by (auto simp del: upt_rec_numeral)
      then show ?thesis using bucket_decr [OF A [OF that]] by simp
    qed
    have wf': "wf_cache ?c'" using new wf by (auto simp: wf_cache_def)
    have "cache_search ?c' n t = Inr (map_option decr (List.find (matches n t) (items (eheap c) (A (nat (hash n t))))))
        \<and> cache_search c n t = Inr (List.find (matches n t) (items (eheap c) (A (nat (hash n t)))))"
      if k: "key_ok t" for n t
    proof -
      note b = bucket [OF k, of n]
      have "set (A (nat (hash n t))) \<subseteq> ?S" using b by (auto simp del: upt_rec_numeral)
      then have "items (eheap ?c') (A (nat (hash n t))) = map decr (items (eheap c) (A (nat (hash n t))))"
      proof -
        have "chain (eheap c) (htable c ! nat (hash n t)) (A (nat (hash n t)))"
          using A [OF b] by (simp add: bucket_ok_def)
        from items_decr [OF this \<open>set (A (nat (hash n t))) \<subseteq> ?S\<close>] show ?thesis by simp
      qed
      then show ?thesis
        using cache_search_eq [OF wf' k new [OF b]] cache_search_eq [OF wf k A [OF b]]
        by (simp add: find_map_decr)
    qed
    then have "\<forall>n t. key_ok t \<longrightarrow> (\<exists>r. cache_search c n t = Inr r \<and> cache_search ?c' n t = Inr (map_option decr r))"
      by blast
    moreover have "dom (eheap ?c') = dom (eheap c)" by (auto simp: decr_heap_def dom_def)
    ultimately show ?thesis using run False wf' unfolding if_not_P [OF no] if_not_P [OF False] by blast
  qed
qed

section \<open>Deletion\<close>

lemma delete_loop_found:
  assumes "chain (eheap c) p (pre @ a # post)" "\<forall>x \<in> set (items (eheap c) pre). key x \<noteq> (n, t)"
    "key (item_at (eheap c) a) = (n, t)" "eheap c a = Some e"
  shows "delete_loop c i n t prev p = Some (bindE (unlink_entry c i (if pre = [] then prev else Some (last pre)) a (e_next e))
    (\<lambda>c'. Inr (c', True)))"
  using assms
proof (induction pre arbitrary: p prev)
  case Nil
  then show ?case by (subst delete_loop.simps) (simp add: matches_key)
next
  case (Cons b pre)
  then obtain q where q: "p = Some b" "eheap c b = Some q" "chain (eheap c) (e_next q) (pre @ a # post)"
    by auto
  then have "delete_loop c i n t prev p = delete_loop c i n t (Some b) (e_next q)"
    using Cons.prems(2) by (subst delete_loop.simps) (simp add: matches_key)
  also have "\<dots> = Some (bindE (unlink_entry c i (if pre = [] then Some b else Some (last pre)) a (e_next e))
    (\<lambda>c'. Inr (c', True)))"
    using q Cons.prems by (intro Cons.IH) auto
  finally show ?case by simp
qed

lemma delete_loop_none:
  assumes "chain (eheap c) p as" "\<forall>x \<in> set (items (eheap c) as). key x \<noteq> (n, t)"
  shows "delete_loop c i n t prev p = Some (Inr (c, False))"
  using assms
proof (induction as arbitrary: p prev)
  case Nil
  then show ?case by (simp add: delete_loop.simps)
next
  case (Cons b as)
  then obtain q where q: "p = Some b" "eheap c b = Some q" "chain (eheap c) (e_next q) as" by auto
  then have "delete_loop c i n t prev p = delete_loop c i n t (Some b) (e_next q)"
    using Cons.prems(2) by (subst delete_loop.simps) (simp add: matches_key)
  then show ?case using Cons q by simp
qed

lemma chain_splice:
  assumes "chain heap p (pre @ b # a # post)" "distinct (pre @ b # a # post)" "heap a = Some e"
    "heap b = Some q" "heap' b = Some (q\<lparr>e_next := e_next e\<rparr>)" "\<forall>x. x \<noteq> a \<and> x \<noteq> b \<longrightarrow> heap' x = heap x"
  shows "chain heap' p (pre @ b # post)"
  using assms
proof (induction pre arbitrary: p)
  case Nil
  then have "chain heap (e_next e) post" by auto
  moreover have "\<forall>x \<in> set post. heap' x = heap x" using Nil.prems(2,6) by auto
  ultimately have "chain heap' (e_next e) post" by (simp only: chain_agree)
  then show ?case using Nil by auto
next
  case (Cons d pre)
  then show ?case by auto
qed

text \<open>
  What a successful \<open>cache_delete\<close> leaves of the bucket: an entry that is not the first is taken out
  of the chain; when it is the first, the whole chain is lost.
\<close>

lemma cache_delete_bucket:
  assumes wf: "wf_cache c" and t: "key_ok t"
    and as: "bucket_ok (eheap c) (nat (hash n t)) (htable c ! nat (hash n t)) (pre @ a # post)"
    and a: "key (item_at (eheap c) a) = (n, t)"
  shows "\<exists>c'. cache_delete c n t = Inr (c', True) \<and> length (htable c') = HASH_SIZE
    \<and> bucket_ok (eheap c') (nat (hash n t)) (htable c' ! nat (hash n t)) (if pre = [] then [] else pre @ post)
    \<and> (\<forall>i \<noteq> nat (hash n t). \<forall>bs. bucket_ok (eheap c) i (htable c ! i) bs \<longrightarrow>
         bucket_ok (eheap c') i (htable c' ! i) bs \<and> items (eheap c') bs = items (eheap c) bs)
    \<and> items (eheap c') (pre @ post) = items (eheap c) (pre @ post)"
proof -
  let ?i = "nat (hash n t)"
  have g: "ht_get (htable c) (hash n t) = Inr (htable c ! ?i)" using wf t by (rule wf_cacheE)
  have i: "?i < HASH_SIZE" using wf t by (rule wf_cacheE)
  have len: "length (htable c) = HASH_SIZE" using wf by (simp add: wf_cache_def)
  have dist: "distinct (pre @ a # post)" using as by (rule bucket_distinct)
  have ch: "chain (eheap c) (htable c ! ?i) (pre @ a # post)" using as by (simp add: bucket_ok_def)
  then obtain e where e: "eheap c a = Some e" using chain_mapped by fastforce
  have keys: "\<forall>x \<in> set (items (eheap c) pre). key x \<noteq> (n, t)"
    using as a by (auto simp: bucket_ok_def items_def image_iff)
  have loop: "cache_delete c n t = bindE (unlink_entry c ?i (if pre = [] then None else Some (last pre)) a (e_next e))
      (\<lambda>c'. Inr (c', True))"
    using g delete_loop_found [OF ch keys a e] by (simp add: cache_delete_def Let_def ends_def)
  have away: "\<forall>x \<in> set bs. x \<notin> set (pre @ a # post)"
    if "bucket_ok (eheap c) j (htable c ! j) bs" "j \<noteq> ?i" for j bs
    using bucket_disjoint [OF that(1) as] that(2) by blast
  show ?thesis
  proof (cases pre rule: rev_cases)
    case Nil
    define c' where "c' = \<lparr>htable = (htable c)[?i := None], eheap = (eheap c)(a := None)\<rparr>"
    have h: "eheap c' = (eheap c)(a := None)" "htable c' = (htable c)[?i := None]" by (simp_all add: c'_def)
    have "cache_delete c n t = Inr (c', True)" using loop Nil by (simp add: unlink_entry_def c'_def)
    moreover have "length (htable c') = HASH_SIZE" using h len by simp
    moreover have "bucket_ok (eheap c') ?i (htable c' ! ?i) (if pre = [] then [] else pre @ post)"
      using h Nil i len by (simp add: bucket_ok_def)
    moreover have "bucket_ok (eheap c') j (htable c' ! j) bs \<and> items (eheap c') bs = items (eheap c) bs"
      if "bucket_ok (eheap c) j (htable c ! j) bs" "j \<noteq> ?i" for j bs
    proof -
      have "a \<notin> set bs" using away [OF that] by auto
      then show ?thesis using that h by (simp add: bucket_upd_other items_upd_other)
    qed
    moreover have "items (eheap c') (pre @ post) = items (eheap c) (pre @ post)"
      using dist h by (intro items_agree) auto
    ultimately show ?thesis by blast
  next
    case (snoc pre' b)
    then obtain q where q: "eheap c b = Some q" using chain_mapped [OF ch, of b] by auto
    define h where "h = (eheap c)(b \<mapsto> q\<lparr>e_next := e_next e\<rparr>, a := None)"
    define c' where "c' = c\<lparr>eheap := h\<rparr>"
    have c': "eheap c' = h" "htable c' = htable c" by (simp_all add: c'_def)
    have ab: "a \<noteq> b" using dist snoc by auto
    have hb: "h b = Some (q\<lparr>e_next := e_next e\<rparr>)" "\<forall>x. x \<noteq> a \<and> x \<noteq> b \<longrightarrow> h x = eheap c x"
      using ab by (simp_all add: h_def)
    have run: "cache_delete c n t = Inr (c', True)" using loop snoc q by (simp add: unlink_entry_def h_def c'_def)
    have its: "items h bs = items (eheap c) bs" if "a \<notin> set bs" for bs
    proof -
      have "item_at h x = item_at (eheap c) x" if "x \<noteq> a" for x
        using that hb q by (cases "x = b") (auto simp: item_at_def)
      then show ?thesis using that unfolding items_def by (metis map_cong)
    qed
    have "chain h (htable c ! ?i) (pre' @ b # post)"
      by (rule chain_splice [OF _ _ e q hb]) (use ch dist snoc in simp_all)
    moreover have rest: "items h (pre @ post) = items (eheap c) (pre @ post)" using dist by (intro its) auto
    ultimately have new: "bucket_ok h ?i (htable c ! ?i) (pre @ post)"
      using as snoc unfolding bucket_ok_def rest by (auto simp: items_def)
    have others: "bucket_ok h j (htable c ! j) bs \<and> items h bs = items (eheap c) bs"
      if "bucket_ok (eheap c) j (htable c ! j) bs" "j \<noteq> ?i" for j bs
    proof -
      have "a \<notin> set bs" "b \<notin> set bs" using away [OF that] snoc by auto
      then have "\<forall>x \<in> set bs. h x = eheap c x" using hb(2) by metis
      then show ?thesis using bucket_agree items_agree that(1) by blast
    qed
    have "(if pre = [] then [] else pre @ post) = pre @ post" using snoc by simp
    then have "length (htable c') = HASH_SIZE
      \<and> bucket_ok (eheap c') ?i (htable c' ! ?i) (if pre = [] then [] else pre @ post)
      \<and> items (eheap c') (pre @ post) = items (eheap c) (pre @ post)"
      using new rest len by (simp only: c')
    moreover have "\<forall>j \<noteq> ?i. \<forall>bs. bucket_ok (eheap c) j (htable c ! j) bs \<longrightarrow>
        bucket_ok (eheap c') j (htable c' ! j) bs \<and> items (eheap c') bs = items (eheap c) bs"
      using others unfolding c' by blast
    ultimately show ?thesis using run by blast
  qed
qed

text \<open>The same in terms of searches, for the first entry of a bucket.\<close>

lemma cache_delete_head_aux:
  assumes wf: "wf_cache c" and t: "key_ok t"
    and a: "htable c ! nat (hash n t) = Some a" "key (item_at (eheap c) a) = (n, t)"
  shows "\<exists>c'. cache_delete c n t = Inr (c', True) \<and> wf_cache c'
    \<and> (\<forall>n' t'. key_ok t' \<longrightarrow>
         cache_search c' n' t' = (if hash n' t' = hash n t then Inr None else cache_search c n' t'))"
proof -
  let ?i = "nat (hash n t)"
  obtain as where as: "bucket_ok (eheap c) ?i (htable c ! ?i) as" using wf t by (rule wf_cacheE)
  then obtain post where post: "as = a # post" using a(1) by (cases as) (auto simp: bucket_ok_def)
  obtain c' where run: "cache_delete c n t = Inr (c', True)" and len: "length (htable c') = HASH_SIZE"
    and b: "bucket_ok (eheap c') ?i (htable c' ! ?i) []"
    and others: "\<forall>i \<noteq> ?i. \<forall>bs. bucket_ok (eheap c) i (htable c ! i) bs \<longrightarrow>
         bucket_ok (eheap c') i (htable c' ! i) bs \<and> items (eheap c') bs = items (eheap c) bs"
    using cache_delete_bucket [OF wf t, of n "[]" a post] as a(2) post by auto
  have "\<exists>bs. bucket_ok (eheap c') i (htable c' ! i) bs" if "i < HASH_SIZE" for i
  proof (cases "i = ?i")
    case False
    have "\<exists>bs. bucket_ok (eheap c) i (htable c ! i) bs" using that wf unfolding wf_cache_def by blast
    then show ?thesis using others False by blast
  qed (use b in blast)
  then have wf': "wf_cache c'" using len by (simp add: wf_cache_def)
  have "cache_search c' n' t' = (if hash n' t' = hash n t then Inr None else cache_search c n' t')"
    if t': "key_ok t'" for n' t'
  proof (cases "hash n' t' = hash n t")
    case True
    then show ?thesis using cache_search_eq [OF wf' t'] b by simp
  next
    case False
    have "0 \<le> hash n t" "0 \<le> hash n' t'" using wf t t' by (auto elim: wf_cacheE)
    then have ne: "nat (hash n' t') \<noteq> ?i" using False by (simp add: nat_eq_iff2)
    obtain bs where bs: "bucket_ok (eheap c) (nat (hash n' t')) (htable c ! nat (hash n' t')) bs"
      using wf t' by (rule wf_cacheE [where name = n'])
    then show ?thesis
      using cache_search_eq [OF wf t' bs] cache_search_eq [OF wf' t'] others ne False by metis
  qed
  then show ?thesis using run wf' by blast
qed

section \<open>The interface the callbacks use\<close>

text \<open>
  sans.c relies on a store of verdicts: searches in a good state end, an insertion makes the key
  known and keeps what was known. Deletion and the tick are not part of this contract; what they do
  to it is stated as properties below.
\<close>

locale verdict_store =
  fixes wf :: "'c \<Rightarrow> bool" and search :: "'c \<Rightarrow> cstr \<Rightarrow> int \<Rightarrow> cache_t option cres"
    and ins :: "'c \<Rightarrow> cache_t \<Rightarrow> nat option \<Rightarrow> ('c \<times> bool) cres" and fresh :: "'c \<Rightarrow> nat \<Rightarrow> bool"
  assumes search_ends: "wf c \<Longrightarrow> key_ok t \<Longrightarrow> \<exists>r. search c n t = Inr r"
    and ins_spec: "wf c \<Longrightarrow> key_ok (c_type item) \<Longrightarrow> \<forall>a. malloc = Some a \<longrightarrow> fresh c a \<Longrightarrow>
      \<exists>c' ok. ins c item malloc = Inr (c', ok) \<and> wf c'
        \<and> (ok \<longleftrightarrow> malloc \<noteq> None \<and> search c (c_name item) (c_type item) = Inr None)
        \<and> (\<forall>n t. key_ok t \<longrightarrow> search c' n t = (if ok \<and> (n, t) = key item then Inr (Some item) else search c n t))"
begin

lemma ins_wf:
  assumes "wf c" "key_ok (c_type item)" "\<forall>a. malloc = Some a \<longrightarrow> fresh c a" "ins c item malloc = Inr (c', ok)"
  shows "wf c'"
proof -
  obtain c1 ok1 where "ins c item malloc = Inr (c1, ok1)" "wf c1"
    using ins_spec [OF assms(1-3)] by blast
  then show ?thesis using assms(4) by simp
qed

text \<open>The first verdict stays: inserting never changes the answer for a key that has one.\<close>

lemma first_verdict_stays:
  assumes "wf c" "key_ok (c_type item)" "\<forall>a. malloc = Some a \<longrightarrow> fresh c a" "ins c item malloc = Inr (c', ok)"
    "key_ok t" "search c n t = Inr (Some x)"
  shows "search c' n t = Inr (Some x)"
proof -
  have s: "ok \<longleftrightarrow> malloc \<noteq> None \<and> search c (c_name item) (c_type item) = Inr None"
    "search c' n t = (if ok \<and> (n, t) = key item then Inr (Some item) else search c n t)"
    using ins_spec [OF assms(1-3)] assms(4,5) by fastforce+
  show ?thesis
  proof (cases "ok \<and> (n, t) = key item")
    case True
    then show ?thesis using s(1) assms(6) by (simp add: key_def)
  next
    case False
    then show ?thesis using s(2) assms(6) unfolding if_not_P [OF False] by simp
  qed
qed

text \<open>After an insertion with memory the key is known, with the old or the new verdict.\<close>

lemma known_after_insert:
  assumes "wf c" "key_ok (c_type item)" "fresh c a" "ins c item (Some a) = Inr (c', ok)"
  shows "\<exists>x. search c' (c_name item) (c_type item) = Inr (Some x)
    \<and> (x = item \<or> search c (c_name item) (c_type item) = Inr (Some x))"
proof -
  have s: "ok \<longleftrightarrow> search c (c_name item) (c_type item) = Inr None"
    "search c' (c_name item) (c_type item) =
       (if ok then Inr (Some item) else search c (c_name item) (c_type item))"
    using ins_spec [OF assms(1,2), of "Some a"] assms(2-4) by (fastforce simp: key_def)+
  obtain r where "search c (c_name item) (c_type item) = Inr r"
    using search_ends [OF assms(1,2)] by blast
  then show ?thesis using s by (cases r) auto
qed

end

interpretation verdicts: verdict_store wf_cache cache_search cache_insert "\<lambda>c a. eheap c a = None"
proof
  show "\<exists>r. cache_search c n t = Inr r" if "wf_cache c" "key_ok t" for c n t
    using that by (rule cache_search_total)
qed (rule cache_insert_spec)

section \<open>Properties\<close>

text \<open>
  C23. \<open>cache_insert\<close> is an insertion into a map: in a well-formed table it ends, keeps the table
  well-formed, succeeds exactly when there is memory and the key is new, then makes a search for
  its key find the item, and leaves every other search as it was.
\<close>

theorem cache_insert_correct:
  assumes "wf_cache c" "key_ok (c_type item)" "\<forall>a. malloc = Some a \<longrightarrow> eheap c a = None"
  shows "\<exists>c' ok. cache_insert c item malloc = Inr (c', ok) \<and> wf_cache c'
    \<and> (ok \<longleftrightarrow> malloc \<noteq> None \<and> cache_search c (c_name item) (c_type item) = Inr None)
    \<and> (\<forall>n t. key_ok t \<longrightarrow> cache_search c' n t =
         (if ok \<and> (n, t) = key item then Inr (Some item) else cache_search c n t))"
  using assms by (rule cache_insert_spec)

text \<open>Two names whose keys with type \<open>ns_t_block\<close> share a bucket: \<open>ar\<close> and \<open>ia\<close>.\<close>

definition item_ar :: cache_t where
  "item_ar = \<lparr>c_name = [0x61, 0x72], c_ttl = 518400, c_type = 256, c_block = 1\<rparr>"

definition item_ia :: cache_t where
  "item_ia = \<lparr>c_name = [0x69, 0x61], c_ttl = 518400, c_type = 256, c_block = 0\<rparr>"

lemma sample_hash:
  "hash [0x61, 0x72] 256 = 1731" "hash [0x69, 0x61] 256 = 1731"
  by (simp_all add: hash_def signed_modulo_int_def)

lemma sample_keys [simp]: "key item_ar = ([0x61, 0x72], 256)" "key item_ia = ([0x69, 0x61], 256)" "key_ok 256"
  by (simp_all add: key_def key_ok_def item_ar_def item_ia_def)

lemma item_ar_fields [simp]: "c_name item_ar = [0x61, 0x72]" "c_type item_ar = 256" "c_ttl item_ar = 518400"
  by (simp_all add: item_ar_def)

lemma heap_init [simp]: "eheap cache_init = (\<lambda>a. None)"
  by (simp add: cache_init_def)

lemma search_empty: "key_ok t \<Longrightarrow> cache_search cache_init n t = Inr None"
proof -
  assume t: "key_ok t"
  have "bucket_ok (eheap cache_init) (nat (hash n t)) (htable cache_init ! nat (hash n t)) []"
    using wf_cache_init t by (rule wf_cacheE [where name = n]) (auto simp: cache_init_def bucket_ok_def)
  then show ?thesis using cache_search_eq [OF wf_cache_init t] by fastforce
qed

lemma search_init: "cache_search cache_init n 256 = Inr None"
  using sample_keys(3) by (rule search_empty)

lemma cache_insert_correct_witness:
  "\<exists>c'. cache_insert cache_init item_ar (Some 1) = Inr (c', True) \<and> wf_cache c'
    \<and> cache_search c' [0x61, 0x72] 256 = Inr (Some item_ar)"
  using cache_insert_correct [OF wf_cache_init, of item_ar "Some 1"]
  by (auto simp: search_init)

text \<open>
  The first verdict stays: once the table answers for a name, no later insertion changes the
  answer until the item expires.
\<close>

theorem cached_verdict_stays:
  assumes "wf_cache c" "key_ok (c_type item)" "\<forall>a. malloc = Some a \<longrightarrow> eheap c a = None"
    "cache_insert c item malloc = Inr (c', ok)" "key_ok t" "cache_search c n t = Inr (Some x)"
  shows "wf_cache c' \<and> cache_search c' n t = Inr (Some x)"
  using verdicts.first_verdict_stays [OF assms] verdicts.ins_wf [OF assms(1-4)] by simp

text \<open>The table after inserting the two sample items.\<close>

definition sample_cache :: cache where
  "sample_cache = \<lparr>htable = (replicate HASH_SIZE None)[1731 := Some 2],
     eheap = [1 \<mapsto> \<lparr>e_data = item_ar, e_next = None\<rparr>, 2 \<mapsto> \<lparr>e_data = item_ia, e_next = Some 1\<rparr>]\<rparr>"

lemma sample_cache_wf: "wf_cache sample_cache"
proof -
  have "bucket_ok (eheap sample_cache) i (htable sample_cache ! i) (if i = 1731 then [2, 1] else [])"
    if "i < HASH_SIZE" for i
    using that sample_hash
    by (auto simp: sample_cache_def bucket_ok_def key_def item_ar_def item_ia_def key_ok_def nth_list_update)
  moreover have "length (htable sample_cache) = HASH_SIZE" by (simp add: sample_cache_def)
  ultimately show ?thesis unfolding wf_cache_def by blast
qed

lemma sample_cache_search:
  "cache_search sample_cache [0x61, 0x72] 256 = Inr (Some item_ar)"
  "cache_search sample_cache [0x69, 0x61] 256 = Inr (Some item_ia)"
  by (simp_all add: cache_search_def sample_hash sample_cache_def ht_get_def ends_def matches_def
      search_loop.simps entry_at_def item_ar_def item_ia_def)

lemma cached_verdict_stays_witness:
  "\<exists>c' ok. cache_insert sample_cache (item_ar\<lparr>c_block := 0\<rparr>) (Some 3) = Inr (c', ok)
    \<and> cache_search c' [0x61, 0x72] 256 = Inr (Some item_ar)"
proof -
  have p: "key_ok (c_type (item_ar\<lparr>c_block := 0\<rparr>))" "\<forall>a. Some (3 :: nat) = Some a \<longrightarrow> eheap sample_cache a = None"
    by (simp_all add: item_ar_def key_ok_def sample_cache_def)
  obtain c' ok where r: "cache_insert sample_cache (item_ar\<lparr>c_block := 0\<rparr>) (Some 3) = Inr (c', ok)"
    using cache_insert_spec [OF sample_cache_wf p] by blast
  show ?thesis
    using cached_verdict_stays [OF sample_cache_wf p r sample_keys(3) sample_cache_search(1)] r by blast
qed

text \<open>
  C17. Searching the hash table is the same as searching all of it: in a well-formed table, whatever
  lists \<open>ass\<close> of entries the buckets point to, \<open>cache_search\<close> gives what a linear search through the
  items of all buckets gives.
\<close>

theorem cache_search_linear:
  assumes "wf_cache c" "key_ok type" "length ass = HASH_SIZE" "\<forall>i < HASH_SIZE. chain (eheap c) (htable c ! i) (ass ! i)"
  shows "cache_search c name type = Inr (List.find (matches name type) (concat (map (items (eheap c)) ass)))"
proof -
  have ok: "bucket_ok (eheap c) i (htable c ! i) (ass ! i)" if "i < HASH_SIZE" for i
    using assms(1,4) that chain_unique unfolding wf_cache_def bucket_ok_def by metis
  let ?h = "nat (hash name type)" and ?P = "matches name type"
  have h: "?h < HASH_SIZE" using assms(1,2) by (rule wf_cacheE [where name = name])
  have "List.find ?P (items (eheap c) (ass ! i)) = None" if "i < HASH_SIZE" "i \<noteq> ?h" for i
    using ok [OF that(1)] that(2) by (auto simp: find_None_iff matches_key key_def bucket_ok_def)
  then have "List.find ?P (concat (map (items (eheap c)) ass)) = List.find ?P (map (items (eheap c)) ass ! ?h)"
    using assms(3) h by (intro find_concat) auto
  then show ?thesis using cache_search_eq [OF assms(1,2) ok [OF h]] assms(3) h by simp
qed

lemma cache_search_linear_witness:
  "cache_search sample_cache [0x69, 0x61] 256 = Inr (List.find (matches [0x69, 0x61] 256) [item_ia, item_ar])"
proof -
  let ?ass = "(replicate HASH_SIZE [])[1731 := [2, 1]]"
  have "\<forall>i < HASH_SIZE. chain (eheap sample_cache) (htable sample_cache ! i) (?ass ! i)"
    by (simp add: sample_cache_def nth_list_update)
  moreover have "concat (map (items (eheap sample_cache)) ?ass) = [item_ia, item_ar]"
    by (simp add: map_update concat_update_one) (simp add: sample_cache_def item_at_def)
  ultimately show ?thesis
    using cache_search_linear [OF sample_cache_wf, of 256 ?ass "[0x69, 0x61]"] by simp
qed

text \<open>
  C24. \<open>cache_tick\<close>: as long as no item is in its last second, the tick keeps the table well-formed
  and counts every item down by one; but if some item is in its last second, the tick frees its
  entry and then reads the freed entry's \<open>next\<close>. So every verdict ends in a use after free,
  518400 ticks after it was stored.
\<close>

theorem cache_tick_correct:
  assumes "wf_cache c"
  shows "if \<exists>n t item. key_ok t \<and> cache_search c n t = Inr (Some item) \<and> c_ttl item = 1
    then cache_tick c = Inl Uaf
    else \<exists>c'. cache_tick c = Inr c' \<and> wf_cache c'
      \<and> (\<forall>n t. key_ok t \<longrightarrow> (\<exists>r. cache_search c n t = Inr r \<and> cache_search c' n t = Inr (map_option decr r)))"
proof (cases "\<exists>n t item. key_ok t \<and> cache_search c n t = Inr (Some item) \<and> c_ttl item = 1")
  case True
  then show ?thesis using cache_tick_cases [OF assms] unfolding if_P [OF True] by blast
next
  case False
  then show ?thesis using cache_tick_cases [OF assms] unfolding if_not_P [OF False] by blast
qed

lemma cache_tick_correct_witness: "cache_tick cache_init \<noteq> Inl Uaf \<and> (\<exists>c. wf_cache c \<and> cache_tick c = Inl Uaf)"
proof
  show "cache_tick cache_init \<noteq> Inl Uaf"
    using cache_tick_correct [OF wf_cache_init] search_empty by (auto split: if_splits)
  let ?item = "item_ar\<lparr>c_ttl := 1\<rparr>"
  have k: "key_ok (c_type ?item)" "key ?item = ([0x61, 0x72], 256)" by (simp_all add: key_def)
  obtain c where c: "wf_cache c" "cache_search c [0x61, 0x72] 256 = Inr (Some ?item)"
    using cache_insert_spec [OF wf_cache_init k(1), of "Some 1"] k(2) by (auto simp: search_init)
  then have "\<exists>n t item. key_ok t \<and> cache_search c n t = Inr (Some item) \<and> c_ttl item = 1"
    by (intro exI [of _ "[0x61, 0x72]"] exI [of _ 256] exI [of _ ?item]) simp
  then have "cache_tick c = Inl Uaf" using cache_tick_correct [OF c(1)] by (simp only: if_True)
  then show "\<exists>c. wf_cache c \<and> cache_tick c = Inl Uaf" using c(1) by blast
qed

text \<open>
  \<open>cache_delete\<close> forgets too much: when the item is the first of its bucket, every item with the
  same hash is lost with it, while the other buckets are untouched.
\<close>

theorem cache_delete_head:
  assumes "wf_cache c" "key_ok t" "htable c ! nat (hash n t) = Some a" "key (item_at (eheap c) a) = (n, t)"
  shows "\<exists>c'. cache_delete c n t = Inr (c', True) \<and> wf_cache c'
    \<and> (\<forall>n' t'. key_ok t' \<longrightarrow>
         cache_search c' n' t' = (if hash n' t' = hash n t then Inr None else cache_search c n' t'))"
  using assms by (rule cache_delete_head_aux)

lemma cache_delete_head_witness:
  "\<exists>c'. cache_search sample_cache [0x61, 0x72] 256 = Inr (Some item_ar)
    \<and> cache_delete sample_cache [0x69, 0x61] 256 = Inr (c', True)
    \<and> cache_search c' [0x61, 0x72] 256 = Inr None"
proof -
  have "htable sample_cache ! nat (hash [0x69, 0x61] 256) = Some 2"
    "key (item_at (eheap sample_cache) 2) = ([0x69, 0x61], 256)"
    by (simp_all add: sample_hash sample_cache_def)
  from cache_delete_head [OF sample_cache_wf sample_keys(3) this] show ?thesis
    using sample_cache_search(1) by (auto simp: sample_hash)
qed

end
