(* ===== verification/Event.thy ===== *)
theory Event
  imports Prelude "HOL-Library.Multiset"
begin

text \<open>
  The event loop of event.c: the list of watchers \<open>wlist\<close> with \<open>ev_io_init\<close>, \<open>ev_io_start\<close> and
  \<open>ev_io_stop\<close>, one round of polling (\<open>ev_poll\<close>) and the loop \<open>ev_run\<close>. A watcher lives inside
  some object of its user; \<open>ios\<close> maps the pointers to watchers that are still allocated to their
  contents, so that polling a freed watcher shows as \<open>Uaf\<close>. The state is an open record: the
  program adds its own fields, and the callbacks run on the whole state.
\<close>

section \<open>Watchers\<close>

datatype ev_event = EV_READ | EV_WRITE

record 'f ev_io =
  ev_fd :: int
  ev_event :: ev_event
  ev_cb :: 'f

record ('p, 'f) evloop =
  run :: bool
  changed :: bool
  wlist :: "'p option list"
  ios :: "'p \<Rightarrow> 'f ev_io option"
  tv :: int

abbreviation (input) WLIST_SIZE :: nat where "WLIST_SIZE \<equiv> 128"

text \<open>
  The static variables before \<open>ev_init\<close>, and after it. \<open>tv\<close> is the time of day in microseconds; \<open>now\<close>
  is what \<open>gettimeofday\<close> answers.
\<close>

definition evloop_zero :: "('p, 'f) evloop" where
  "evloop_zero = \<lparr>run = False, changed = False, wlist = replicate WLIST_SIZE None, ios = (\<lambda>p. None), tv = 0\<rparr>"

definition ev_init :: "int \<Rightarrow> ('p, 'f, 'z) evloop_scheme \<Rightarrow> ('p, 'f, 'z) evloop_scheme" where
  "ev_init now s = s\<lparr>run := True, tv := now\<rparr>"

definition ev_io_init ::
  "('p, 'f, 'z) evloop_scheme \<Rightarrow> 'p \<Rightarrow> 'f \<Rightarrow> int \<Rightarrow> ev_event \<Rightarrow> ('p, 'f, 'z) evloop_scheme cres"
where
  "ev_io_init s w cb fd event =
     (if \<not> fd > 0 then Inl Abort
      else Inr (s\<lparr>ios := (ios s)(w \<mapsto> \<lparr>ev_fd = fd, ev_event = event, ev_cb = cb\<rparr>)\<rparr>))"

text \<open>The first free slot takes the watcher; with none free the assertion \<open>wlist full\<close> fails.\<close>

fun start_loop :: "'p option list \<Rightarrow> 'p \<Rightarrow> 'p option list option" where
  "start_loop [] w = None"
| "start_loop (None # wl) w = Some (Some w # wl)"
| "start_loop (Some v # wl) w = map_option ((#) (Some v)) (start_loop wl w)"

definition ev_io_start :: "('p, 'f, 'z) evloop_scheme \<Rightarrow> 'p \<Rightarrow> ('p, 'f, 'z) evloop_scheme cres" where
  "ev_io_start s w = (case start_loop (wlist s) w of
      None \<Rightarrow> Inl Abort
    | Some wl \<Rightarrow> Inr (s\<lparr>wlist := wl, changed := True\<rparr>))"

fun stop_loop :: "'p option list \<Rightarrow> 'p \<Rightarrow> 'p option list option" where
  "stop_loop [] w = None"
| "stop_loop (v # wl) w = (if v = Some w then Some (None # wl) else map_option ((#) v) (stop_loop wl w))"

definition ev_io_stop :: "('p, 'f, 'z) evloop_scheme \<Rightarrow> 'p \<Rightarrow> ('p, 'f, 'z) evloop_scheme cres" where
  "ev_io_stop s w = (case stop_loop (wlist s) w of
      None \<Rightarrow> Inl Abort
    | Some wl \<Rightarrow> Inr (s\<lparr>wlist := wl, changed := True\<rparr>))"

definition ev_stop :: "('p, 'f, 'z) evloop_scheme \<Rightarrow> ('p, 'f, 'z) evloop_scheme" where
  "ev_stop s = s\<lparr>run := False\<rparr>"

section \<open>Polling\<close>

text \<open>
  The first loop of \<open>ev_poll\<close>: the descriptors to wait for. \<open>select\<close> is an argument: it gets the two
  sets and answers with its return value and the sets of ready descriptors.
\<close>

fun poll_sets :: "('p \<Rightarrow> 'f ev_io option) \<Rightarrow> 'p option list \<Rightarrow> int set \<Rightarrow> int set \<Rightarrow> (int set \<times> int set) cres" where
  "poll_sets deref [] rfds wfds = Inr (rfds, wfds)"
| "poll_sets deref (None # wl) rfds wfds = poll_sets deref wl rfds wfds"
| "poll_sets deref (Some p # wl) rfds wfds =
     (case deref p of
        None \<Rightarrow> Inl Uaf
      | Some w \<Rightarrow> (case ev_event w of
            EV_READ \<Rightarrow> poll_sets deref wl (insert (ev_fd w) rfds) wfds
          | EV_WRITE \<Rightarrow> poll_sets deref wl rfds (insert (ev_fd w) wfds)))"

text \<open>One of the two tests of the second loop: the state, and whether the callback was called.\<close>

definition poll_try ::
  "('p \<Rightarrow> ('p, 'f, 'z) evloop_scheme \<Rightarrow> ('p, 'f, 'z) evloop_scheme cres) \<Rightarrow> ev_event \<Rightarrow> int set \<Rightarrow> nat
   \<Rightarrow> ('p, 'f, 'z) evloop_scheme \<Rightarrow> (('p, 'f, 'z) evloop_scheme \<times> bool) cres"
where
  "poll_try call event fds i s =
     (case wlist s ! i of
        None \<Rightarrow> Inr (s, False)
      | Some p \<Rightarrow> (case ios s p of
            None \<Rightarrow> Inl Uaf
          | Some w \<Rightarrow>
              if ev_event w = event \<and> ev_fd w \<in> fds then bindE (call p s) (\<lambda>s'. Inr (s', True))
              else Inr (s, False)))"

fun poll_loop ::
  "('p \<Rightarrow> ('p, 'f, 'z) evloop_scheme \<Rightarrow> ('p, 'f, 'z) evloop_scheme cres) \<Rightarrow> int set \<Rightarrow> int set \<Rightarrow> nat list
   \<Rightarrow> nat \<Rightarrow> ('p, 'f, 'z) evloop_scheme \<Rightarrow> (('p, 'f, 'z) evloop_scheme \<times> nat) cres"
where
  "poll_loop call rfds wfds [] ev_cnt s = Inr (s, ev_cnt)"
| "poll_loop call rfds wfds (i # is) ev_cnt s =
     bindE (poll_try call EV_READ rfds i s) (\<lambda>(s1, fired).
       let cnt1 = (if fired then ev_cnt + 1 else ev_cnt) in
       if fired \<and> changed s1 then Inr (s1, cnt1)
       else bindE (poll_try call EV_WRITE wfds i s1) (\<lambda>(s2, fired').
         let cnt2 = (if fired' then cnt1 + 1 else cnt1) in
         if fired' \<and> changed s2 then Inr (s2, cnt2)
         else poll_loop call rfds wfds is cnt2 s2))"

definition ev_poll ::
  "('p \<Rightarrow> ('p, 'f, 'z) evloop_scheme \<Rightarrow> ('p, 'f, 'z) evloop_scheme cres)
   \<Rightarrow> (int set \<Rightarrow> int set \<Rightarrow> int \<times> int set \<times> int set)
   \<Rightarrow> ('p, 'f, 'z) evloop_scheme \<Rightarrow> (('p, 'f, 'z) evloop_scheme \<times> nat) cres"
where
  "ev_poll call select s =
     bindE (poll_sets (ios s) (wlist s) {} {}) (\<lambda>(rfds, wfds).
       let (r, rready, wready) = select rfds wfds in
       if r > 0 then poll_loop call rready wready [0..<WLIST_SIZE] 0 (s\<lparr>changed := False\<rparr>)
       else Inr (s, 0))"

text \<open>
  \<open>ev_run\<close> for as many rounds as the environment supplies: each round brings the answer of \<open>select\<close>,
  the time of day after it, and whether a signal came in it, whose handler calls \<open>ev_stop\<close>; as \<open>run\<close> is
  read at the head of the loop only, it does not matter when in the round the signal came. Of the
  whole program only \<open>ev_init\<close> and \<open>ev_run\<close> use \<open>tv\<close>, and the loop keeps its value in an argument.
\<close>

type_synonym round = "(int set \<Rightarrow> int set \<Rightarrow> int \<times> int set \<times> int set) \<times> int \<times> bool"

fun run_loop ::
  "('p \<Rightarrow> ('p, 'f, 'z) evloop_scheme \<Rightarrow> ('p, 'f, 'z) evloop_scheme cres)
   \<Rightarrow> (('p, 'f, 'z) evloop_scheme \<Rightarrow> ('p, 'f, 'z) evloop_scheme cres)
   \<Rightarrow> int \<Rightarrow> round list \<Rightarrow> ('p, 'f, 'z) evloop_scheme \<Rightarrow> ('p, 'f, 'z) evloop_scheme cres"
where
  "run_loop call twcb since [] s = Inr s"
| "run_loop call twcb since ((select, now, signal) # rounds) s =
     (if run s then
        bindE (ev_poll call select s) (\<lambda>(s1, _).
        bindE (if now - since > 1000000 then twcb s1 else Inr s1) (\<lambda>s2.
          run_loop call twcb (if now - since > 1000000 then now else since) rounds (if signal then ev_stop s2 else s2)))
      else Inr s)"

definition ev_run ::
  "('p \<Rightarrow> ('p, 'f, 'z) evloop_scheme \<Rightarrow> ('p, 'f, 'z) evloop_scheme cres)
   \<Rightarrow> (('p, 'f, 'z) evloop_scheme \<Rightarrow> ('p, 'f, 'z) evloop_scheme cres)
   \<Rightarrow> round list \<Rightarrow> ('p, 'f, 'z) evloop_scheme \<Rightarrow> ('p, 'f, 'z) evloop_scheme cres"
where
  "ev_run call twcb rounds s = run_loop call twcb (tv s) rounds s"

text \<open>The times of the rounds, and the number of calls of the timeout callback by them.\<close>

definition clock :: "round list \<Rightarrow> int list" where
  "clock rounds = map (\<lambda>(select, now, signal). now) rounds"

lemma clock_simps [simp]: "clock [] = []" "clock ((select, now, signal) # rounds) = now # clock rounds"
  by (simp_all add: clock_def)

fun ticks :: "int \<Rightarrow> int list \<Rightarrow> nat" where
  "ticks since [] = 0"
| "ticks since (now # ts) = (if now - since > 1000000 then Suc (ticks now ts) else ticks since ts)"

text \<open>On a ts that does not go back there are no more of them than seconds.\<close>

lemma ticks_bound:
  assumes "sorted (since # ts)" "\<forall>t \<in> set ts. t \<le> since + int n * 1000000" "0 < n"
  shows "ticks since ts < n"
  using assms
proof (induction ts arbitrary: since n)
  case (Cons now ts)
  show ?case
  proof (cases "now - since > 1000000")
    case True
    have "now \<le> since + int n * 1000000" using Cons.prems(2) by simp
    then have "0 < n - 1" using True by (cases n) auto
    moreover have "\<forall>t \<in> set ts. t \<le> now + int (n - 1) * 1000000"
      using Cons.prems(2) True \<open>0 < n - 1\<close> by (auto simp: of_nat_diff algebra_simps)
    ultimately have "ticks now ts < n - 1" using Cons.prems(1) by (intro Cons.IH) auto
    then show ?thesis using True by simp
  next
    case False
    then show ?thesis using Cons by simp
  qed
qed simp

text \<open>A signal ends the loop.\<close>

lemma run_loop_stopped: "\<not> run s \<Longrightarrow> run_loop call twcb since rounds s = Inr s"
  by (cases rounds) auto

lemma run_loop_signal:
  "run_loop call twcb since rounds s = Inr s' \<Longrightarrow> \<exists>r \<in> set rounds. snd (snd r) \<Longrightarrow> \<not> run s'"
proof (induction rounds arbitrary: since s)
  case (Cons r rounds)
  obtain select now signal where r: "r = (select, now, signal)" by (cases r)
  show ?case
  proof (cases "run s")
    case True
    then obtain s2 since' where "run_loop call twcb since' rounds (if signal then ev_stop s2 else s2) = Inr s'"
      using Cons.prems(1) by (auto simp: r bindE_Inr_iff)
    then show ?thesis
      using Cons.IH Cons.prems(2) by (cases signal) (auto simp: r run_loop_stopped ev_stop_def)
  next
    case False
    then show ?thesis using Cons.prems(1) by (simp add: r)
  qed
qed simp

lemma run_loop_rest:
  "snd (snd r) \<Longrightarrow> run_loop call twcb since (rounds @ r # later) s = run_loop call twcb since (rounds @ [r]) s"
proof (induction rounds arbitrary: since s)
  case Nil
  then show ?case by (cases r) (simp add: run_loop_stopped ev_stop_def)
next
  case (Cons r' rounds)
  then show ?case by (cases r') simp
qed

section \<open>The list of watchers as a multiset\<close>

fun watching :: "'p option list \<Rightarrow> 'p list" where
  "watching [] = []"
| "watching (None # wl) = watching wl"
| "watching (Some p # wl) = p # watching wl"

lemma set_watching: "set (watching wl) = {p. Some p \<in> set wl}"
  by (induction wl rule: watching.induct) auto

lemma watching_replicate [simp]: "watching (replicate n None) = []"
  by (induction n) auto

lemma length_watching: "length (watching wl) \<le> length wl"
  by (induction wl rule: watching.induct) auto

lemma start_loop_None: "start_loop wl w = None \<longleftrightarrow> length (watching wl) = length wl"
proof (induction wl w rule: start_loop.induct)
  case (2 wl w)
  then show ?case using length_watching [of wl] by simp
qed auto

lemma start_loop_Some:
  "start_loop wl w = Some wl' \<Longrightarrow> length wl' = length wl \<and> mset (watching wl') = add_mset w (mset (watching wl))"
  by (induction wl w arbitrary: wl' rule: start_loop.induct) auto

lemma stop_loop_None: "stop_loop wl w = None \<longleftrightarrow> w \<notin> set (watching wl)"
proof (induction wl w rule: stop_loop.induct)
  case (2 v wl w)
  then show ?case by (cases v) auto
qed simp

lemma stop_loop_Some:
  "stop_loop wl w = Some wl' \<Longrightarrow> length wl' = length wl \<and> mset (watching wl) = add_mset w (mset (watching wl'))"
proof (induction wl w arbitrary: wl' rule: stop_loop.induct)
  case (2 v wl w)
  then show ?case by (cases v) (auto split: if_splits)
qed simp

text \<open>Every watcher in the list is still allocated.\<close>

definition watchers_ok :: "('p, 'f, 'z) evloop_scheme \<Rightarrow> bool" where
  "watchers_ok s \<longleftrightarrow> length (wlist s) = WLIST_SIZE \<and> (\<forall>p \<in> set (watching (wlist s)). ios s p \<noteq> None)"

lemma watched_nth: "i < length wl \<Longrightarrow> wl ! i = Some p \<Longrightarrow> p \<in> set (watching wl)"
  using nth_mem by (fastforce simp: set_watching)

definition fds_of :: "('p \<Rightarrow> 'f ev_io option) \<Rightarrow> 'p option list \<Rightarrow> ev_event \<Rightarrow> int set" where
  "fds_of deref wl event =
     (\<lambda>p. ev_fd (the (deref p))) ` {p \<in> set (watching wl). ev_event (the (deref p)) = event}"

lemma fds_of_Cons:
  "deref p = Some x \<Longrightarrow> fds_of deref (Some p # wl) event =
     (if ev_event x = event then insert (ev_fd x) (fds_of deref wl event) else fds_of deref wl event)"
proof -
  assume p: "deref p = Some x"
  have "{q \<in> set (watching (Some p # wl)). ev_event (the (deref q)) = event} =
      (if ev_event x = event then insert p {q \<in> set (watching wl). ev_event (the (deref q)) = event}
       else {q \<in> set (watching wl). ev_event (the (deref q)) = event})"
    using p by auto
  then show ?thesis using p by (simp add: fds_of_def)
qed

lemma poll_sets_eq:
  "\<forall>p \<in> set (watching wl). deref p \<noteq> None \<Longrightarrow>
   poll_sets deref wl rs ws = Inr (rs \<union> fds_of deref wl EV_READ, ws \<union> fds_of deref wl EV_WRITE)"
proof (induction wl arbitrary: rs ws rule: watching.induct)
  case (3 p wl)
  then obtain x where x: "deref p = Some x" by auto
  show ?case
    using "3.IH" "3.prems" x by (cases "ev_event x") (simp_all add: fds_of_Cons [of deref p x, OF x])
qed (auto simp: fds_of_def)

section \<open>The contract with the callbacks\<close>

text \<open>
  What the loop needs from its callbacks to run on: an invariant that keeps every listed watcher
  allocated, and that a callback for a listed watcher preserves whenever it returns. The invariant is
  indexed by the number of timeouts it is good for, of which the timeout callback uses up one. The
  callbacks' own errors, if any, are those in \<open>bad\<close>.
\<close>

locale loop_client =
  fixes call :: "'p \<Rightarrow> ('p, 'f, 'z) evloop_scheme \<Rightarrow> ('p, 'f, 'z) evloop_scheme cres"
    and twcb :: "('p, 'f, 'z) evloop_scheme \<Rightarrow> ('p, 'f, 'z) evloop_scheme cres"
    and inv :: "nat \<Rightarrow> ('p, 'f, 'z) evloop_scheme \<Rightarrow> bool" and bad :: "cerr set"
  assumes inv_watchers: "inv k s \<Longrightarrow> watchers_ok s"
    and inv_changed: "inv k s \<Longrightarrow> inv k (s\<lparr>changed := False\<rparr>)"
    and inv_stop: "inv k s \<Longrightarrow> inv k (ev_stop s)"
    and call_inv: "inv k s \<Longrightarrow> p \<in> set (watching (wlist s)) \<Longrightarrow> outcome bad (inv k) (call p s)"
    and tick_inv: "inv (Suc k) s \<Longrightarrow> outcome bad (inv k) (twcb s)"
begin

lemma poll_try_inv:
  assumes "inv k s" "i < WLIST_SIZE"
  shows "outcome bad (\<lambda>(s', fired). inv k s') (poll_try call ev fds i s)"
proof (cases "wlist s ! i")
  case None
  then show ?thesis using assms(1) by (simp add: poll_try_def)
next
  case (Some p)
  have ok: "watchers_ok s" by (rule inv_watchers) (rule assms)
  then have "length (wlist s) = WLIST_SIZE" by (simp add: watchers_ok_def)
  then have p: "p \<in> set (watching (wlist s))" using Some assms(2) by (intro watched_nth) simp_all
  then have "ios s p \<noteq> None" using ok unfolding watchers_ok_def by blast
  then obtain x where x: "ios s p = Some x" by blast
  have "outcome bad (\<lambda>(s', fired). inv k s') (bindE (call p s) (\<lambda>s'. Inr (s', True)))"
    by (rule outcome_bindE [OF call_inv [OF assms(1) p]]) simp
  then show ?thesis using Some x assms(1) by (simp add: poll_try_def)
qed

lemma poll_loop_inv:
  "inv k s \<Longrightarrow> \<forall>i \<in> set is. i < WLIST_SIZE \<Longrightarrow> outcome bad (\<lambda>(s', n). inv k s') (poll_loop call rs ws is cnt s)"
proof (induction "is" arbitrary: cnt s)
  case (Cons i js)
  then have i: "i < WLIST_SIZE" by simp
  show ?case
    unfolding poll_loop.simps Let_def
  proof (rule outcome_bindE [OF poll_try_inv [OF Cons.prems(1) i]], clarify)
    fix s1 f
    assume s1: "inv k s1"
    let ?c1 = "if f then cnt + 1 else cnt"
    have "outcome bad (\<lambda>(s', n). inv k s') (bindE (poll_try call EV_WRITE ws i s1) (\<lambda>(s2, f').
        if f' \<and> changed s2 then Inr (s2, if f' then ?c1 + 1 else ?c1)
        else poll_loop call rs ws js (if f' then ?c1 + 1 else ?c1) s2))"
    proof (rule outcome_bindE [OF poll_try_inv [OF s1 i]], clarify)
      fix s2 f'
      assume "inv k s2"
      then show "outcome bad (\<lambda>(s', n). inv k s') (if f' \<and> changed s2 then Inr (s2, if f' then ?c1 + 1 else ?c1)
        else poll_loop call rs ws js (if f' then ?c1 + 1 else ?c1) s2)"
        using Cons.IH [of s2] Cons.prems(2) by simp
    qed
    then show "outcome bad (\<lambda>(s', n). inv k s') (if f \<and> changed s1 then Inr (s1, ?c1)
        else bindE (poll_try call EV_WRITE ws i s1) (\<lambda>(s2, f').
          if f' \<and> changed s2 then Inr (s2, if f' then ?c1 + 1 else ?c1)
          else poll_loop call rs ws js (if f' then ?c1 + 1 else ?c1) s2))"
      using s1 by simp
  qed
qed simp

lemma ev_poll_inv:
  assumes "inv k s"
  shows "outcome bad (\<lambda>(s', n). inv k s') (ev_poll call sel s)"
proof -
  have "poll_sets (ios s) (wlist s) {} {} = Inr (fds_of (ios s) (wlist s) EV_READ, fds_of (ios s) (wlist s) EV_WRITE)"
    using inv_watchers [OF assms] poll_sets_eq [of "wlist s" "ios s" "{}" "{}"] by (simp add: watchers_ok_def)
  then show ?thesis
    using poll_loop_inv [OF inv_changed [OF assms], of "[0..<WLIST_SIZE]"] assms
    by (auto simp: ev_poll_def Let_def simp del: upt_rec_numeral split: prod.split)
qed

text \<open>
  The loop keeps the invariant for any answers of \<open>select\<close>, and any number of rounds in which the
  timeout callback is called no more often than the invariant is good for.
\<close>

lemma run_loop_inv:
  "inv (ticks since (clock rounds)) s \<Longrightarrow> outcome bad (\<lambda>s'. \<exists>k. inv k s') (run_loop call twcb since rounds s)"
proof (induction rounds arbitrary: since s)
  case (Cons r rounds)
  obtain sel now signal where r: "r = (sel, now, signal)" by (cases r)
  let ?late = "now - since > 1000000"
  let ?since = "if ?late then now else since"
  let ?k = "ticks ?since (clock rounds)"
  let ?rest = "\<lambda>s2. run_loop call twcb ?since rounds (if signal then ev_stop s2 else s2)"
  have rest: "outcome bad (\<lambda>s'. \<exists>k. inv k s') (?rest s2)" if "inv ?k s2" for s2
    by (rule Cons.IH) (use that inv_stop in auto)
  show ?case
  proof (cases "run s")
    case True
    have "outcome bad (\<lambda>s'. \<exists>k. inv k s') (bindE (ev_poll call sel s) (\<lambda>(s1, _). bindE (if ?late then twcb s1 else Inr s1) ?rest))"
    proof (rule outcome_bindE [OF ev_poll_inv [OF Cons.prems]], clarify)
      fix s1 :: "('p, 'f, 'z) evloop_scheme"
      assume "inv (ticks since (clock (r # rounds))) s1"
      then have "outcome bad (inv ?k) (if ?late then twcb s1 else Inr s1)"
        using tick_inv [of ?k s1] by (cases ?late) (simp_all add: r)
      then show "outcome bad (\<lambda>s'. \<exists>k. inv k s') (bindE (if ?late then twcb s1 else Inr s1) ?rest)"
        by (rule outcome_bindE) (rule rest)
    qed
    then show ?thesis using True by (simp add: r)
  next
    case False
    then show ?thesis using Cons.prems by (auto simp: r)
  qed
qed auto

lemma ev_run_inv:
  "inv (ticks (tv s) (clock rounds)) s \<Longrightarrow> outcome bad (\<lambda>s'. \<exists>k. inv k s') (ev_run call twcb rounds s)"
  unfolding ev_run_def by (rule run_loop_inv)

end

section \<open>Properties\<close>

text \<open>
  C36. The list of watchers is a bag of at most 128: \<open>ev_io_start\<close> adds the watcher, and aborts the
  program when all slots are taken; \<open>ev_io_stop\<close> takes it out, and aborts when it is not there.
\<close>

theorem watcher_list_bag:
  "(case ev_io_start s w of
      Inl e \<Rightarrow> e = Abort \<and> length (watching (wlist s)) = length (wlist s)
    | Inr s' \<Rightarrow> length (wlist s') = length (wlist s) \<and> changed s'
        \<and> mset (watching (wlist s')) = add_mset w (mset (watching (wlist s))))
   \<and> (case ev_io_stop s w of
      Inl e \<Rightarrow> e = Abort \<and> w \<notin> set (watching (wlist s))
    | Inr s' \<Rightarrow> length (wlist s') = length (wlist s) \<and> changed s'
        \<and> mset (watching (wlist s)) = add_mset w (mset (watching (wlist s'))))"
  using start_loop_None [of "wlist s" w] start_loop_Some [of "wlist s" w]
    stop_loop_None [of "wlist s" w] stop_loop_Some [of "wlist s" w]
  by (auto simp: ev_io_start_def ev_io_stop_def split: option.split)

text \<open>
  A closed descriptor stalls the whole program: while some listed watcher waits on a descriptor
  for which \<open>select\<close> fails, as it does with \<open>EBADF\<close> for a descriptor that is closed, a round of
  polling calls no callback and changes nothing.
\<close>

theorem ev_poll_closed_fd:
  assumes "watchers_ok s" "p \<in> set (watching (wlist s))" "ios s p = Some x" "ev_fd x \<notin> open_fds"
    "\<forall>rfds wfds. \<not> rfds \<union> wfds \<subseteq> open_fds \<longrightarrow> fst (select rfds wfds) < 0"
  shows "ev_poll call select s = Inr (s, 0)"
proof -
  let ?r = "fds_of (ios s) (wlist s) EV_READ" and ?w = "fds_of (ios s) (wlist s) EV_WRITE"
  have sets: "poll_sets (ios s) (wlist s) {} {} = Inr (?r, ?w)"
    using poll_sets_eq [of "wlist s" "ios s" "{}" "{}"] assms(1) by (simp add: watchers_ok_def)
  have "ev_fd x \<in> ?r \<union> ?w" using assms(2,3) by (cases "ev_event x") (force simp: fds_of_def)+
  then have "fst (select ?r ?w) < 0" using assms(4,5) by blast
  then show ?thesis using sets by (auto simp: ev_poll_def Let_def split: prod.splits)
qed

lemma ev_poll_closed_fd_witness:
  "ev_poll (\<lambda>p s. Inl Abort) (\<lambda>rfds wfds. if 7 \<in> rfds \<union> wfds then (- 1, {}, {}) else (1, rfds, wfds))
     (evloop_zero\<lparr>wlist := Some (0 :: nat) # replicate 127 None, ios := [0 \<mapsto> \<lparr>ev_fd = 7, ev_event = EV_READ, ev_cb = ()\<rparr>]\<rparr>)
   = Inr (evloop_zero\<lparr>wlist := Some 0 # replicate 127 None, ios := [0 \<mapsto> \<lparr>ev_fd = 7, ev_event = EV_READ, ev_cb = ()\<rparr>]\<rparr>, 0)"
proof -
  have w: "watching (Some (0 :: nat) # replicate 127 None) = [0]"
    by (simp only: watching.simps watching_replicate)
  show ?thesis
    by (rule ev_poll_closed_fd [where p = 0 and open_fds = "- {7}"])
      (auto simp: watchers_ok_def w simp del: replicate.simps replicate_Suc watching.simps)
qed

end
