(* ===== verification/Log.thy ===== *)
theory Log
  imports Names
begin

text \<open>
  What log.c prints: \<open>sans_log\<close>, \<open>sans_err\<close> and \<open>sans_dump\<close>. The time, the text the arguments are
  formatted to, and the text of the last error come from the C library, and are parameters. Nothing
  that is printed is read again, so that the other theories leave the calls of these functions out.
\<close>

section \<open>Messages\<close>

datatype stream = Stdout | Stderr

type_synonym printed = "(stream \<times> cstr) list"

definition written :: "stream \<Rightarrow> printed \<Rightarrow> cstr" where
  "written st out = concat (map snd (filter (\<lambda>x. fst x = st) out))"

text \<open>\<open>putchar\<close> writes to the standard output, whatever the stream of the message is.\<close>

definition sans_log :: "stream \<Rightarrow> cstr \<Rightarrow> cstr \<Rightarrow> printed" where
  "sans_log st timestr message = [(st, [0x5B] @ timestr @ [0x5D, 0x20]), (st, message), (Stdout, [0x0A])]"

definition sans_err :: "cstr \<Rightarrow> cstr \<Rightarrow> cstr \<Rightarrow> printed" where
  "sans_err timestr strerror msg = sans_log Stderr timestr (msg @ [0x3A, 0x20] @ strerror)"

lemma written_simps [simp]:
  "written st [] = []" "written st ((st', x) # out) = (if st' = st then x else []) @ written st out"
  "written st (out @ out') = written st out @ written st out'"
  by (simp_all add: written_def)

definition entry :: "cstr \<Rightarrow> cstr \<Rightarrow> cstr" where
  "entry timestr message = [0x5B] @ timestr @ [0x5D, 0x20] @ message"

text \<open>On the standard output every message is a line.\<close>

lemma log_lines:
  "written Stdout (concat (map (\<lambda>(t, m). sans_log Stdout t m) ms)) = concat (map (\<lambda>(t, m). entry t m @ [0x0A]) ms)"
  by (induction ms) (auto simp: sans_log_def entry_def)

text \<open>On the standard error they follow each other without a break, and the ends of the lines go elsewhere.\<close>

lemma err_newlines:
  fixes ms :: "(cstr \<times> cstr \<times> cstr) list"
  defines "out \<equiv> concat (map (\<lambda>(t, e, m). sans_err t e m) ms)"
  shows "written Stderr out = concat (map (\<lambda>(t, e, m). entry t (m @ [0x3A, 0x20] @ e)) ms)"
    "written Stdout out = replicate (length ms) 0x0A"
  unfolding out_def by (induction ms) (auto simp: sans_err_def sans_log_def entry_def)

section \<open>Dumps\<close>

definition hex_byte :: "byte \<Rightarrow> cstr" where
  "hex_byte b = sprintf_02x (unat b) @ [0x20]"

function dump_loop :: "byte list \<Rightarrow> nat \<Rightarrow> nat \<Rightarrow> cstr cres" where
  "dump_loop buf len i =
     (if i < len then bindE (rd buf i) (\<lambda>b. bindE (dump_loop buf len (i + 1)) (\<lambda>rest.
        Inr (hex_byte b @ (if i mod 16 = 15 then [0x0A] else []) @ rest)))
      else Inr (if len mod 16 \<noteq> 0 then [0x0A] else []))"
  by pat_completeness auto
termination by (relation "measure (\<lambda>(buf, len, i). len - i)") auto

declare dump_loop.simps [simp del]

definition sans_dump :: "byte list \<Rightarrow> nat \<Rightarrow> cstr cres" where
  "sans_dump buf len = dump_loop buf len 0"

text \<open>The dump as it is meant: a line for every 16 bytes, and one for what is left.\<close>

fun rows :: "'a list \<Rightarrow> 'a list list" where
  "rows xs = (if xs = [] then [] else take 16 xs # rows (drop 16 xs))"

declare rows.simps [simp del]

definition dump_line :: "byte list \<Rightarrow> cstr" where
  "dump_line bs = concat (map hex_byte bs) @ [0x0A]"

text \<open>The rest of a dump when the current line has room for \<open>k\<close> more bytes.\<close>

fun dump_rest :: "nat \<Rightarrow> byte list \<Rightarrow> cstr" where
  "dump_rest k [] = (if k < 16 then [0x0A] else [])"
| "dump_rest k (b # bs) = hex_byte b @ (if k = 1 then 0x0A # dump_rest 16 bs else dump_rest (k - 1) bs)"

lemma dump_rest_line: "0 < k \<Longrightarrow> k \<le> 16 \<Longrightarrow> bs \<noteq> [] \<or> k < 16 \<Longrightarrow>
    dump_rest k bs = dump_line (take k bs) @ dump_rest 16 (drop k bs)"
proof (induction bs arbitrary: k)
  case (Cons b bs)
  then show ?case using Cons.IH [of "k - 1"] by (cases k) (auto simp: dump_line_def)
qed (auto simp: dump_line_def)

lemma dump_rest_rows: "dump_rest 16 bs = concat (map dump_line (rows bs))"
proof (induction bs rule: rows.induct)
  case (1 bs)
  then show ?case using dump_rest_line [of 16 bs] by (cases "bs = []") (simp_all add: rows.simps [of bs] rows.simps [of "[]"])
qed

lemma dump_loop_rest:
  assumes "len \<le> length buf" "i \<le> len"
  shows "dump_loop buf len i = Inr (dump_rest (16 - i mod 16) (drop i (take len buf)))"
  using assms
proof (induction buf len i rule: dump_loop.induct)
  case (1 buf len i)
  show ?case
  proof (cases "i < len")
    case True
    have "drop i (take len buf) = buf ! i # drop (i + 1) (take len buf)"
      using True 1(2) by (simp add: Cons_nth_drop_Suc [symmetric])
    moreover have "16 - (i + 1) mod 16 = (if i mod 16 = 15 then 16 else 16 - i mod 16 - 1)"
      by (simp add: mod_Suc)
    moreover have "16 - i mod 16 = 1 \<longleftrightarrow> i mod 16 = 15" using mod_less_divisor [of 16 i] by linarith
    ultimately show ?thesis
      using 1 True by (simp add: dump_loop.simps [of buf len i] rd_def)
  next
    case False
    then have "i = len" using 1(3) by simp
    moreover have "16 - len mod 16 < 16 \<longleftrightarrow> len mod 16 \<noteq> 0" by linarith
    ultimately show ?thesis by (simp add: dump_loop.simps [of buf len len])
  qed
qed

lemma sans_dump_rows:
  assumes "len \<le> length buf"
  shows "sans_dump buf len = Inr (concat (map dump_line (rows (take len buf))))"
  using dump_loop_rest [OF assms, of 0] by (simp add: sans_dump_def dump_rest_rows)

end
