(* ===== verification/World.thy ===== *)
theory World
  imports Dns Query Cache Event
begin

text \<open>
  The state of the whole program: the static variables of event.c, query.c, cache.c and sans.c, the
  connection contexts that dnsmsg.c and async_connect.c allocate, the answers of the system calls,
  and the log of the calls that others can see. The callbacks of the program are given by their
  names, since HOL has no pointers to functions. At the end: the invariant \<open>winv\<close>, with what each
  primitive operation does to it.
\<close>

section \<open>Contexts\<close>

text \<open>The functions whose addresses the program stores: in watchers, and in the contexts.\<close>

datatype watcher_fn = Accept_cb | Query_udp_recv_cb | Query_tcp_recv_cb | Reply_udp_recv_cb
  | Reply_tcp_recv_cb | Query_tcp_send_cb | Reply_tcp_send_cb | Connect_cb | Socks5_send_cb | Socks5_recv_cb

datatype user_fn = Query_cb | Test_cb | Reply_cb | Connected_cb

text \<open>
  \<open>ctx_t\<close> of dnsmsg.c; its field \<open>protocol\<close> is never used. The buffer \<open>msg\<close> points to is allocated and
  freed together with the context. In UDP mode \<open>msg\<close>, \<open>msglen\<close> and \<open>offset\<close> are not set.
\<close>

record dnsmsg_ctx =
  x_cb :: user_fn
  x_msg :: "byte list option"
  x_msglen :: int
  x_offset :: int

datatype conn_state = CLOSED | HELLO_SENT | HELLO_RCVD | REQ_SENT | ESTAB

text \<open>
  \<open>ctx_t\<close> of async_connect.c. \<open>state\<close> is not set until the connection is there (None); the address
  is that of the upstream server, which does not change after \<open>sans_init\<close>; \<open>data\<close> holds a message id.
\<close>

record async_ctx =
  y_state :: "conn_state option"
  y_socks5 :: bool
  y_addr :: sockaddr
  y_cb :: user_fn
  y_data :: "16 word"

text \<open>The objects that hold watchers: contexts, and the variable \<open>w_tcp\<close> of \<open>sans_run\<close>.\<close>

datatype obj = Dnsmsg dnsmsg_ctx | Async async_ctx | W_tcp

text \<open>A pointer to a watcher: the address of the object and the field in it.\<close>

datatype wfield = F_w | F_read | F_write

type_synonym wptr = "nat \<times> wfield"

section \<open>System calls\<close>

text \<open>
  The answers of the system: the functions are applied to the number of the call. \<open>os_mem\<close> says
  whether a \<open>malloc\<close> succeeds, \<open>os_ret\<close> and \<open>os_errno\<close> are the result and the error number of the
  calls that return a number (for \<open>getsockopt\<close> it is the error of the socket), \<open>os_recv\<close> is what \<open>recv\<close> or \<open>recvfrom\<close> finds (None for an error, the
  empty list for the end of the stream), \<open>os_from\<close> the sender with the length of the address,
  \<open>os_junk\<close> the indeterminate contents of a fresh buffer, \<open>os_resolve\<close> is \<open>getaddrinfo\<close>,
  \<open>os_passwd\<close> is \<open>getpwnam\<close>: the numbers of the user and the group; \<open>os_now\<close> is the time of day when the
  program starts.
\<close>

record os =
  os_mem :: "nat \<Rightarrow> bool"
  os_ret :: "nat \<Rightarrow> int"
  os_errno :: "nat \<Rightarrow> int"
  os_recv :: "nat \<Rightarrow> byte list option"
  os_from :: "nat \<Rightarrow> sockaddr \<times> nat"
  os_junk :: "nat \<Rightarrow> byte list"
  os_resolve :: "nat \<Rightarrow> cstr \<Rightarrow> cstr \<Rightarrow> sockaddr option"
  os_passwd :: "cstr \<Rightarrow> (int \<times> int) option"
  os_now :: int

text \<open>
  What the program does to the outside; \<open>Send\<close> also holds how much the kernel took, \<open>Setegid\<close> and
  \<open>Seteuid\<close> what the calls returned, and \<open>Pidfile\<close> the number that is written to the file.
\<close>

datatype effect = Sendto int "byte list" sockaddr | Send int "byte list" int | Connect int sockaddr | Close int
  | Bind int sockaddr | Listen int | Setegid int int | Seteuid int int | Pidfile cstr int

text \<open>The static variables of sans.c, and \<open>server\<close> of async_connect.c (\<open>socks5_server\<close>).\<close>

record settings =
  verbose :: bool
  nspresolver :: bool
  socks5 :: bool
  sock_udp :: int
  sock_tcp :: int
  sock_server :: int
  sock_cn :: int
  sock_test :: int
  test_server :: sockaddr
  cn_server :: sockaddr
  server :: sockaddr
  socks5_server :: sockaddr

text \<open>
  \<open>brk\<close> is the next address \<open>malloc\<close> gives out; addresses are never used twice, so that a pointer to
  freed memory is recognised. \<open>calls\<close> counts the calls to the system, \<open>rnds\<close> are the numbers
  \<open>rand_uint16\<close> will return.
\<close>

record world = "(wptr, watcher_fn) evloop" +
  objs :: "nat \<Rightarrow> obj option"
  brk :: nat
  queries :: qlist
  htab :: cache
  cfg :: settings
  sys :: os
  calls :: nat
  rnds :: "16 word list"
  trace :: "effect list"

definition sys_ret :: "world \<Rightarrow> int \<times> world" where
  "sys_ret s = (os_ret (sys s) (calls s), s\<lparr>calls := calls s + 1\<rparr>)"

definition sys_recv :: "nat \<Rightarrow> world \<Rightarrow> byte list option \<times> world" where
  "sys_recv len s = (map_option (take len) (os_recv (sys s) (calls s)), s\<lparr>calls := calls s + 1\<rparr>)"

definition emit :: "effect \<Rightarrow> world \<Rightarrow> world" where
  "emit x s = s\<lparr>trace := trace s @ [x]\<rparr>"

definition sys_send :: "int \<Rightarrow> byte list \<Rightarrow> world \<Rightarrow> int \<times> world" where
  "sys_send fd data s = (let (n, s') = sys_ret s in (n, emit (Send fd data n) s'))"

definition malloc_ok :: "world \<Rightarrow> bool \<times> world" where
  "malloc_ok s = (os_mem (sys s) (calls s), s\<lparr>calls := calls s + 1\<rparr>)"

text \<open>\<open>malloc\<close> of a context, of a buffer, and of anything else that needs an address.\<close>

definition malloc_at :: "world \<Rightarrow> nat option \<times> world" where
  "malloc_at s = (let (ok, s') = malloc_ok s in
     if ok then (Some (brk s'), s'\<lparr>brk := brk s' + 1\<rparr>) else (None, s'))"

definition malloc_obj :: "obj \<Rightarrow> world \<Rightarrow> nat option \<times> world" where
  "malloc_obj x s = (case malloc_at s of
      (None, s') \<Rightarrow> (None, s')
    | (Some a, s') \<Rightarrow> (Some a, s'\<lparr>objs := (objs s')(a \<mapsto> x)\<rparr>))"

definition junk :: "nat \<Rightarrow> world \<Rightarrow> byte list" where
  "junk n s = take n (os_junk (sys s) (calls s) @ replicate n 0)"

definition malloc_buf :: "nat \<Rightarrow> world \<Rightarrow> byte list option \<times> world" where
  "malloc_buf n s = (let (ok, s') = malloc_ok s in (if ok then Some (junk n s) else None, s'))"

definition free_obj :: "nat \<Rightarrow> world \<Rightarrow> world cres" where
  "free_obj a s = (if objs s a = None then Inl Uaf
     else Inr (s\<lparr>objs := (objs s)(a := None), ios := (\<lambda>p. if fst p = a then None else ios s p)\<rparr>))"

text \<open>Loads and stores through pointers to watchers and contexts.\<close>

definition io_of :: "wptr \<Rightarrow> world \<Rightarrow> watcher_fn ev_io cres" where
  "io_of w s = (case ios s w of None \<Rightarrow> Inl Uaf | Some io \<Rightarrow> Inr io)"

definition dnsmsg_of :: "wptr \<Rightarrow> world \<Rightarrow> dnsmsg_ctx cres" where
  "dnsmsg_of w s = (case objs s (fst w) of Some (Dnsmsg x) \<Rightarrow> Inr x | _ \<Rightarrow> Inl Uaf)"

definition async_of :: "wptr \<Rightarrow> world \<Rightarrow> async_ctx cres" where
  "async_of w s = (case objs s (fst w) of Some (Async y) \<Rightarrow> Inr y | _ \<Rightarrow> Inl Uaf)"

definition set_obj :: "wptr \<Rightarrow> obj \<Rightarrow> world \<Rightarrow> world" where
  "set_obj w x s = s\<lparr>objs := (objs s)(fst w \<mapsto> x)\<rparr>"

definition rand_uint16 :: "world \<Rightarrow> (16 word \<times> world) cres" where
  "rand_uint16 s = (case rnds s of [] \<Rightarrow> Inl Diverge | r # rs \<Rightarrow> Inr (r, s\<lparr>rnds := rs\<rparr>))"

text \<open>\<open>NULL\<close> as the address of a message on a connection.\<close>

definition no_addr :: sockaddr where
  "no_addr = \<lparr>sa_family = 0, sa_port = [], sa_addr = []\<rparr>"

text \<open>The static variables before \<open>main\<close>, with the system's answers and the random numbers to come.\<close>

definition world_zero :: "os \<Rightarrow> 16 word list \<Rightarrow> world" where
  "world_zero e rs =
     \<lparr>run = False, changed = False, wlist = replicate WLIST_SIZE None, ios = (\<lambda>p. None), tv = 0, objs = (\<lambda>a. None), brk = 0,
      queries = qlist_init, htab = cache_init,
      cfg = \<lparr>verbose = False, nspresolver = False, socks5 = False, sock_udp = 0, sock_tcp = 0, sock_server = 0,
        sock_cn = 0, sock_test = 0, test_server = no_addr, cn_server = no_addr, server = no_addr, socks5_server = no_addr\<rparr>,
      sys = e, calls = 0, rnds = rs, trace = []\<rparr>"

text \<open>A system that has memory, and for which nothing happens.\<close>

definition quiet :: os where
  "quiet = \<lparr>os_mem = (\<lambda>i. True), os_ret = (\<lambda>i. 0), os_errno = (\<lambda>i. 0), os_recv = (\<lambda>i. None),
     os_from = (\<lambda>i. (no_addr, 0)), os_junk = (\<lambda>i. []), os_resolve = (\<lambda>i host port. None), os_passwd = (\<lambda>user. None),
     os_now = 0\<rparr>"

section \<open>The invariant\<close>

text \<open>The names of queries: what \<open>ns_name_ntop\<close> prints for the labels of a name.\<close>

definition name_ok :: "cstr \<Rightarrow> bool" where
  "name_ok n \<longleftrightarrow> (\<exists>ls. (\<forall>l \<in> set ls. ok_label l) \<and> n = text_name ls)"

text \<open>A context with a receive buffer, and one with a message to send.\<close>

definition msg_ok :: "dnsmsg_ctx \<Rightarrow> bool" where
  "msg_ok x \<longleftrightarrow> (\<exists>m. x_msg x = Some m \<and> length m = NS_PACKETSZ)
     \<and> 0 \<le> x_msglen x \<and> x_msglen x \<le> int NS_PACKETSZ \<and> x_offset x = 0"

definition out_ok :: "dnsmsg_ctx \<Rightarrow> bool" where
  "out_ok x \<longleftrightarrow> (\<exists>m. x_msg x = Some m \<and> x_msglen x = int (length m)) \<and> x_offset x \<in> {- 2, 0}"

definition dnsmsg_ok :: "dnsmsg_ctx \<Rightarrow> watcher_fn \<Rightarrow> bool" where
  "dnsmsg_ok x fn = (case fn of
      Query_udp_recv_cb \<Rightarrow> x_cb x = Query_cb
    | Query_tcp_recv_cb \<Rightarrow> x_cb x = Query_cb \<and> msg_ok x
    | Reply_udp_recv_cb \<Rightarrow> x_cb x \<in> {Test_cb, Reply_cb}
    | Reply_tcp_recv_cb \<Rightarrow> x_cb x \<in> {Test_cb, Reply_cb} \<and> msg_ok x
    | Query_tcp_send_cb \<Rightarrow> out_ok x
    | Reply_tcp_send_cb \<Rightarrow> out_ok x
    | _ \<Rightarrow> False)"

text \<open>
  A connection that is being made waits for the socket to become writable (\<open>Connect_cb\<close>); one that
  talks to the SOCKS5 server has both watchers set up, and waits on the one that fits its state.
\<close>

definition async_ok :: "world \<Rightarrow> nat \<Rightarrow> async_ctx \<Rightarrow> wfield \<Rightarrow> watcher_fn ev_io \<Rightarrow> bool" where
  "async_ok s a y f io \<longleftrightarrow> y_cb y = Connected_cb \<and>
     (f = F_write \<and> ev_cb io = Connect_cb
      \<or> f = F_write \<and> ev_cb io = Socks5_send_cb \<and> ev_event io = EV_WRITE \<and> y_state y \<in> {Some CLOSED, Some HELLO_RCVD}
        \<and> ios s (a, F_read) = Some \<lparr>ev_fd = ev_fd io, ev_event = EV_READ, ev_cb = Socks5_recv_cb\<rparr>
      \<or> f = F_read \<and> ev_cb io = Socks5_recv_cb \<and> ev_event io = EV_READ \<and> y_state y \<in> {Some HELLO_SENT, Some REQ_SENT}
        \<and> ios s (a, F_write) = Some \<lparr>ev_fd = ev_fd io, ev_event = EV_WRITE, ev_cb = Socks5_send_cb\<rparr>)"

definition watch_ok :: "world \<Rightarrow> wptr \<Rightarrow> bool" where
  "watch_ok s p \<longleftrightarrow> (case ios s p of None \<Rightarrow> False | Some io \<Rightarrow> ev_fd io > 0 \<and>
     (case objs s (fst p) of
        None \<Rightarrow> False
      | Some (Dnsmsg x) \<Rightarrow> snd p = F_w \<and> dnsmsg_ok x (ev_cb io)
      | Some (Async y) \<Rightarrow> async_ok s (fst p) y (snd p) io
      | Some W_tcp \<Rightarrow> snd p = F_w \<and> ev_cb io = Accept_cb))"

text \<open>No two pending queries have the same id, and none has the id 0.\<close>

definition ids_ok :: "qlist \<Rightarrow> bool" where
  "ids_ok ql \<longleftrightarrow> distinct (map q_id (pending ql)) \<and> 0 \<notin> ids ql"

text \<open>The seconds a verdict is kept: \<open>cache->ttl = 518400U\<close> in \<open>test_cb\<close>.\<close>

abbreviation (input) TTL :: nat where "TTL \<equiv> 518400"

text \<open>
  A receive that fills the packet buffer it is given, so that nothing stands behind the message any more;
  this is all that can make the program read outside its memory.
\<close>

definition fills :: "os \<Rightarrow> nat \<Rightarrow> bool" where
  "fills e n \<longleftrightarrow> (\<exists>d. os_recv e n = Some d \<and> NS_PACKETSZ \<le> length d)"

text \<open>
  The table of verdicts is good for \<open>k\<close> more ticks: no item that a search finds expires before.
\<close>

definition ttl_ok :: "nat \<Rightarrow> cache \<Rightarrow> bool" where
  "ttl_ok k c \<longleftrightarrow> wf_cache c \<and> k < TTL
     \<and> (\<forall>n t item. key_ok t \<longrightarrow> cache_search c n t = Inr (Some item) \<longrightarrow> k < unat (c_ttl item))"

definition tables_ok :: "os \<Rightarrow> nat \<Rightarrow> world \<Rightarrow> bool" where
  "tables_ok env k s \<longleftrightarrow> length (queries s) = QLIST_SIZE \<and> (\<forall>q \<in> set (pending (queries s)). name_ok (q_name q))
     \<and> ids_ok (queries s) \<and> ttl_ok k (htab s) \<and> (\<forall>a. eheap (htab s) a \<noteq> None \<longrightarrow> a < brk s) \<and> sys s = env"

text \<open>
  Every object is either in the hands of the running callback (\<open>L\<close>) or owns exactly one listed
  watcher: no listed watcher is dangling, and no object is lost. \<open>env\<close> is the system the program runs
  on, and \<open>k\<close> the number of ticks ahead.
\<close>

definition winv :: "os \<Rightarrow> nat \<Rightarrow> nat multiset \<Rightarrow> world \<Rightarrow> bool" where
  "winv env k L s \<longleftrightarrow> length (wlist s) = WLIST_SIZE \<and> dom (objs s) \<subseteq> {..<brk s}
     \<and> image_mset fst (mset (watching (wlist s))) + L = mset_set (dom (objs s))
     \<and> (\<forall>p \<in> set (watching (wlist s)). watch_ok s p) \<and> tables_ok env k s"

text \<open>
  How a callback may stop the program: with a failed assertion, or waiting for a random number; and, if a
  message has filled its buffer, with a read outside of it.
\<close>

abbreviation (input) stops :: "cerr set" where "stops \<equiv> {Abort, Diverge}"

definition stops_of :: "bool \<Rightarrow> cerr set" where
  "stops_of full = stops \<union> (if full then {Oob} else {})"

lemma stops_of_iff [simp]: "e \<in> stops_of full \<longleftrightarrow> e = Abort \<or> e = Diverge \<or> full \<and> e = Oob"
  by (auto simp: stops_of_def)

lemma outcome_stops: "outcome stops P r \<Longrightarrow> outcome (stops_of full) P r"
  by (erule outcome_weaken) (auto simp: stops_of_def)

lemma outcome_stops_of: "outcome (stops_of full) P r \<Longrightarrow> (full \<Longrightarrow> full') \<Longrightarrow> outcome (stops_of full') P r"
  by (erule outcome_weaken) (auto simp: stops_of_def)

lemma watch_ok_cong:
  "objs s (fst p) = objs s' (fst p) \<Longrightarrow> (\<And>f. ios s (fst p, f) = ios s' (fst p, f)) \<Longrightarrow> watch_ok s p = watch_ok s' p"
proof (cases p)
  case (Pair a f)
  assume eq: "objs s (fst p) = objs s' (fst p)" "\<And>f. ios s (fst p, f) = ios s' (fst p, f)"
  then have "async_ok s a = async_ok s' a" by (intro ext) (simp add: async_ok_def Pair)
  then show ?thesis using eq by (simp add: watch_ok_def Pair split: option.split obj.split)
qed

lemma watch_ok_allocated: "watch_ok s p \<Longrightarrow> ios s p \<noteq> None"
  by (auto simp: watch_ok_def split: option.splits)

lemma winv_frame:
  assumes "wlist s' = wlist s" "objs s' = objs s" "ios s' = ios s" "brk s' = brk s" "tables_ok env k s' = tables_ok env k s"
  shows "winv env k L s' = winv env k L s"
proof -
  have "watch_ok s' p = watch_ok s p" for p by (rule watch_ok_cong) (simp_all add: assms)
  then show ?thesis by (simp add: winv_def assms)
qed

lemma tables_ok_simps [simp]:
  "tables_ok env k (s\<lparr>calls := c\<rparr>) = tables_ok env k s" "tables_ok env k (s\<lparr>rnds := r\<rparr>) = tables_ok env k s"
  "tables_ok env k (s\<lparr>trace := t\<rparr>) = tables_ok env k s" "tables_ok env k (s\<lparr>changed := b\<rparr>) = tables_ok env k s"
  "tables_ok env k (s\<lparr>run := b\<rparr>) = tables_ok env k s" "tables_ok env k (s\<lparr>tv := now\<rparr>) = tables_ok env k s" "tables_ok env k (s\<lparr>objs := ob\<rparr>) = tables_ok env k s"
  "tables_ok env k (s\<lparr>ios := io\<rparr>) = tables_ok env k s" "tables_ok env k (s\<lparr>wlist := wl\<rparr>) = tables_ok env k s"
  by (simp_all add: tables_ok_def)

lemma winv_simps [simp]:
  "winv env k L (s\<lparr>calls := c\<rparr>) = winv env k L s" "winv env k L (s\<lparr>rnds := r\<rparr>) = winv env k L s"
  "winv env k L (s\<lparr>trace := t\<rparr>) = winv env k L s" "winv env k L (s\<lparr>changed := b\<rparr>) = winv env k L s" "winv env k L (s\<lparr>run := b\<rparr>) = winv env k L s"
  by (rule winv_frame; simp)+

lemma winv_emit [simp]: "winv env k L (emit x s) = winv env k L s"
  by (simp add: emit_def)

lemma winv_tables:
  assumes "winv env k L s" "tables_ok env k (s\<lparr>queries := ql, htab := c, brk := b\<rparr>)" "brk s \<le> b"
  shows "winv env k L (s\<lparr>queries := ql, htab := c, brk := b\<rparr>)"
proof -
  have "watch_ok (s\<lparr>queries := ql, htab := c, brk := b\<rparr>) p = watch_ok s p" for p
    by (rule watch_ok_cong) simp_all
  moreover have "dom (objs s) \<subseteq> {..<b}" using assms(1,3) by (force simp: winv_def)
  ultimately show ?thesis using assms(1,2) by (simp add: winv_def)
qed

lemma winvD:
  assumes "winv env k L s"
  shows "tables_ok env k s" "watchers_ok s" "p \<in> set (watching (wlist s)) \<Longrightarrow> watch_ok s p"
    "finite (dom (objs s))"
proof -
  show "tables_ok env k s" "p \<in> set (watching (wlist s)) \<Longrightarrow> watch_ok s p"
    using assms by (simp_all add: winv_def)
  show "watchers_ok s"
    using assms watch_ok_allocated unfolding watchers_ok_def winv_def by blast
  show "finite (dom (objs s))"
    using assms unfolding winv_def by (metis finite_lessThan finite_subset)
qed

text \<open>An object in hand is allocated, and none of its watchers is listed.\<close>

lemma winv_held:
  assumes "winv env k (add_mset a L) s"
  shows "objs s a \<noteq> None" "p \<in> set (watching (wlist s)) \<Longrightarrow> fst p \<noteq> a" "a \<notin># L"
proof -
  let ?W = "image_mset fst (mset (watching (wlist s)))"
  have eq: "add_mset a (?W + L) = mset_set (dom (objs s))" using assms by (simp add: winv_def)
  have "count (mset_set (dom (objs s))) a = (if a \<in> dom (objs s) then 1 else 0)"
    using winvD(4) [OF assms] by simp
  moreover have "count (mset_set (dom (objs s))) a = Suc (count (?W + L) a)" by (simp flip: eq)
  ultimately have *: "a \<in> dom (objs s)" "count ?W a = 0" "count L a = 0" by (auto split: if_splits)
  then show "objs s a \<noteq> None" by auto
  show "a \<notin># L" using *(3) by (simp add: not_in_iff)
  have "a \<notin># ?W" using *(2) by (simp only: not_in_iff)
  then show "p \<in> set (watching (wlist s)) \<Longrightarrow> fst p \<noteq> a" by auto
qed

subsection \<open>The primitive operations keep the invariant\<close>

lemma winv_stop:
  assumes "winv env k L s" "p \<in> set (watching (wlist s))"
  obtains wl where "ev_io_stop s p = Inr (s\<lparr>wlist := wl, changed := True\<rparr>)"
    "winv env k (add_mset (fst p) L) (s\<lparr>wlist := wl, changed := True\<rparr>)"
proof -
  obtain wl where wl: "stop_loop (wlist s) p = Some wl"
    using assms(2) stop_loop_None [of "wlist s" p] by auto
  let ?s = "s\<lparr>wlist := wl, changed := True\<rparr>"
  have m: "length wl = length (wlist s)" "mset (watching (wlist s)) = add_mset p (mset (watching wl))"
    using stop_loop_Some [OF wl] by auto
  have sub: "set (watching wl) \<subseteq> set (watching (wlist s))"
    using m(2) by (metis set_mset_add_mset_insert set_mset_mset subset_insertI)
  have "watch_ok ?s q = watch_ok s q" for q by (rule watch_ok_cong) simp_all
  then have "winv env k (add_mset (fst p) L) ?s"
    using assms(1) m sub by (auto simp: winv_def)
  then show ?thesis using that wl by (simp add: ev_io_stop_def)
qed

lemma winv_start:
  assumes "winv env k (add_mset (fst p) L) s" "watch_ok s p"
  shows "outcome stops (winv env k L) (ev_io_start s p)"
proof (cases "start_loop (wlist s) p")
  case (Some wl)
  let ?s = "s\<lparr>wlist := wl, changed := True\<rparr>"
  have m: "length wl = length (wlist s)" "mset (watching wl) = add_mset p (mset (watching (wlist s)))"
    using start_loop_Some [OF Some] by auto
  have set: "set (watching wl) = insert p (set (watching (wlist s)))"
    using m(2) by (metis set_mset_add_mset_insert set_mset_mset)
  have "watch_ok ?s q = watch_ok s q" for q by (rule watch_ok_cong) simp_all
  then have "winv env k L ?s" using assms m set by (simp add: winv_def)
  then show ?thesis using Some by (simp add: ev_io_start_def)
qed (simp add: ev_io_start_def)

text \<open>Stores into an object in hand.\<close>

lemma winv_held_store:
  assumes "winv env k (add_mset a L) s" "objs' = (objs s)(a \<mapsto> x)" "\<And>p. fst p \<noteq> a \<Longrightarrow> ios' p = ios s p"
  shows "winv env k (add_mset a L) (s\<lparr>objs := objs', ios := ios'\<rparr>)"
proof -
  let ?s = "s\<lparr>objs := objs', ios := ios'\<rparr>"
  have "watch_ok ?s p = watch_ok s p" if "p \<in> set (watching (wlist s))" for p
    using winv_held(2) [OF assms(1) that] assms(2,3) by (intro watch_ok_cong) auto
  moreover have "dom objs' = dom (objs s)" using winv_held(1) [OF assms(1)] assms(2) by auto
  ultimately show ?thesis using assms(1) by (simp add: winv_def)
qed

lemma winv_set_obj: "winv env k (add_mset (fst w) L) s \<Longrightarrow> winv env k (add_mset (fst w) L) (set_obj w x s)"
  using winv_held_store [of env k "fst w" L s _ x "ios s"] by (simp add: set_obj_def)

lemma winv_io_init:
  assumes "winv env k (add_mset (fst w) L) s" "fd > 0"
  shows "ev_io_init s w cb fd event = Inr (s\<lparr>ios := (ios s)(w \<mapsto> \<lparr>ev_fd = fd, ev_event = event, ev_cb = cb\<rparr>)\<rparr>)"
    "winv env k (add_mset (fst w) L) (s\<lparr>ios := (ios s)(w \<mapsto> \<lparr>ev_fd = fd, ev_event = event, ev_cb = cb\<rparr>)\<rparr>)"
proof -
  obtain x where "objs s (fst w) = Some x" using winv_held(1) [OF assms(1)] by auto
  then have x: "objs s = (objs s)(fst w \<mapsto> x)" by (simp add: fun_upd_idem)
  have "winv env k (add_mset (fst w) L) (s\<lparr>objs := objs s, ios := (ios s)(w \<mapsto> \<lparr>ev_fd = fd, ev_event = event, ev_cb = cb\<rparr>)\<rparr>)"
    by (rule winv_held_store [OF assms(1) x]) auto
  then show "winv env k (add_mset (fst w) L) (s\<lparr>ios := (ios s)(w \<mapsto> \<lparr>ev_fd = fd, ev_event = event, ev_cb = cb\<rparr>)\<rparr>)"
    by simp
qed (use assms(2) in \<open>simp add: ev_io_init_def\<close>)

text \<open>A store into the context of the listed watcher \<open>w\<close> that leaves the watcher fit.\<close>

lemma winv_listed_store:
  assumes "winv env k L s" "objs s (fst w) \<noteq> None" "watch_ok (set_obj w x s) w" "w \<in> set (watching (wlist s))"
    "\<And>p. p \<in> set (watching (wlist s)) \<Longrightarrow> fst p = fst w \<Longrightarrow> p = w"
  shows "winv env k L (set_obj w x s)"
proof -
  have "watch_ok (set_obj w x s) p" if "p \<in> set (watching (wlist s))" for p
  proof (cases "p = w")
    case False
    then have "watch_ok (set_obj w x s) p = watch_ok s p"
      using assms(5) [OF that] by (intro watch_ok_cong) (auto simp: set_obj_def)
    then show ?thesis using winvD(3) [OF assms(1) that] by simp
  qed (use assms(3) in simp)
  moreover have "dom (objs (set_obj w x s)) = dom (objs s)" using assms(2) by (auto simp: set_obj_def)
  ultimately show ?thesis using assms(1) by (simp add: winv_def set_obj_def)
qed

lemma watcher_unique:
  assumes "winv env k L s" "p \<in> set (watching (wlist s))" "q \<in> set (watching (wlist s))" "fst p = fst q"
  shows "p = q"
proof (rule ccontr)
  assume "p \<noteq> q"
  obtain M1 where M1: "mset (watching (wlist s)) = add_mset p M1"
    using assms(2) multi_member_split [of p "mset (watching (wlist s))"] by auto
  have "q \<in># add_mset p M1" using assms(3) by (simp flip: M1)
  then obtain M where "M1 = add_mset q M"
    using \<open>p \<noteq> q\<close> multi_member_split [of q M1] by auto
  then have M: "mset (watching (wlist s)) = add_mset p (add_mset q M)" by (simp add: M1)
  have "mset_set (dom (objs s)) = add_mset (fst p) (add_mset (fst p) (image_mset fst M + L))"
    using assms(1,4) M by (simp add: winv_def)
  moreover have "count (mset_set (dom (objs s))) (fst p) \<le> 1"
    using winvD(4) [OF assms(1)] by (simp add: count_mset_set')
  ultimately show False by simp
qed

lemma winv_free:
  assumes "winv env k (add_mset a L) s"
  shows "outcome stops (winv env k L) (free_obj a s)"
proof -
  let ?s = "s\<lparr>objs := (objs s)(a := None), ios := (\<lambda>p. if fst p = a then None else ios s p)\<rparr>"
  have ok: "watch_ok ?s p = watch_ok s p" if "p \<in> set (watching (wlist s))" for p
    using winv_held(2) [OF assms that] by (intro watch_ok_cong) auto
  have "mset_set (dom (objs s)) = add_mset a (mset_set (dom (objs s) - {a}))"
    using winv_held(1) [OF assms] winvD(4) [OF assms] by (intro mset_set.remove) auto
  then have "image_mset fst (mset (watching (wlist s))) + L = mset_set (dom (objs s) - {a})"
    using assms by (simp add: winv_def)
  then have "winv env k L ?s" using assms ok by (auto simp: winv_def)
  then show ?thesis using winv_held(1) [OF assms] by (simp add: free_obj_def)
qed

lemma winv_malloc_ok: "malloc_ok s = (ok, s') \<Longrightarrow> winv env k L s \<Longrightarrow> winv env k L s'"
  by (auto simp: malloc_ok_def)

lemma winv_malloc_at:
  assumes "malloc_at s = (r, s')" "winv env k L s"
  shows "winv env k L s'" "r = Some a \<Longrightarrow> objs s' a = None \<and> a < brk s' \<and> eheap (htab s') a = None"
proof -
  have t: "tables_ok env k s" by (rule winvD(1) [OF assms(2)])
  have up: "tables_ok env k (s\<lparr>calls := c, brk := brk s + 1\<rparr>)" for c
    using t by (auto simp: tables_ok_def intro: less_SucI)
  show "winv env k L s'"
  proof (cases "os_mem (sys s) (calls s)")
    case True
    then have s': "s' = s\<lparr>calls := calls s + 1\<rparr>\<lparr>brk := brk s + 1\<rparr>"
      using assms(1) by (simp add: malloc_at_def malloc_ok_def)
    have "winv env k L (s\<lparr>calls := calls s + 1\<rparr>)" using assms(2) by simp
    from winv_tables [OF this, where ql = "queries s" and c = "htab s" and b = "brk s + 1"] up show ?thesis by (simp add: s')
  qed (use assms in \<open>auto simp: malloc_at_def malloc_ok_def\<close>)
  show "r = Some a \<Longrightarrow> objs s' a = None \<and> a < brk s' \<and> eheap (htab s') a = None"
    using assms(1) t assms(2) by (fastforce simp: malloc_at_def malloc_ok_def tables_ok_def winv_def split: if_splits)
qed

text \<open>A new object, at an address where there is none.\<close>

lemma winv_alloc:
  assumes "winv env k L s" "objs s a = None" "a < brk s"
  shows "winv env k (add_mset a L) (s\<lparr>objs := (objs s)(a \<mapsto> x)\<rparr>)"
proof -
  let ?s = "s\<lparr>objs := (objs s)(a \<mapsto> x)\<rparr>"
  have ok: "watch_ok ?s p" if p: "p \<in> set (watching (wlist s))" for p
  proof -
    have "fst p \<noteq> a" using winvD(3) [OF assms(1) p] assms(2) by (auto simp: watch_ok_def split: option.splits)
    then have "watch_ok ?s p = watch_ok s p" by (intro watch_ok_cong) auto
    then show ?thesis using winvD(3) [OF assms(1) p] by simp
  qed
  have "mset_set (dom (objs ?s)) = add_mset a (mset_set (dom (objs s)))"
    using assms(2) winvD(4) [OF assms(1)] by (simp add: domIff)
  then show ?thesis using assms ok by (auto simp: winv_def)
qed

lemma winv_malloc_obj:
  assumes "malloc_obj x s = (Some a, s')" "winv env k L s"
  shows "winv env k (add_mset a L) s'" "objs s' a = Some x"
proof -
  obtain s1 where s1: "malloc_at s = (Some a, s1)" "s' = s1\<lparr>objs := (objs s1)(a \<mapsto> x)\<rparr>"
    using assms(1) by (auto simp: malloc_obj_def split: prod.splits option.splits)
  show "winv env k (add_mset a L) s'"
    unfolding s1(2) using winv_malloc_at [OF s1(1) assms(2)] by (intro winv_alloc) auto
  show "objs s' a = Some x" by (simp add: s1(2))
qed

lemma winv_malloc_obj_None: "malloc_obj x s = (None, s') \<Longrightarrow> winv env k L s \<Longrightarrow> winv env k L s'"
  using winv_malloc_at(1) by (auto simp: malloc_obj_def split: prod.splits option.splits)

lemma winv_malloc_buf: "malloc_buf n s = (r, s') \<Longrightarrow> winv env k L s \<Longrightarrow> winv env k L s' \<and> (\<forall>m. r = Some m \<longrightarrow> length m = n)"
  by (auto simp: malloc_buf_def malloc_ok_def junk_def split: if_splits)

lemma winv_sys_send: "sys_send fd data s = (n, s') \<Longrightarrow> winv env k L s \<Longrightarrow> winv env k L s'"
  by (auto simp: sys_send_def sys_ret_def)

lemma winv_sys_ret: "sys_ret s = (n, s') \<Longrightarrow> winv env k L s \<Longrightarrow> winv env k L s'"
  by (auto simp: sys_ret_def)

lemma winv_sys_recv:
  assumes "sys_recv len s = (r, s')" "winv env k L s"
  shows "winv env k L s' \<and> (\<forall>d. r = Some d \<longrightarrow> length d \<le> len \<and> (NS_PACKETSZ \<le> length d \<longrightarrow> fills (sys s) (calls s)))"
  using assms by (auto simp: sys_recv_def fills_def)

lemma winv_rand: "winv env k L s \<Longrightarrow> outcome stops (\<lambda>(r, s'). winv env k L s') (rand_uint16 s)"
  by (simp add: rand_uint16_def split: list.split)

end
