(* ===== verification/Utils.thy ===== *)
theory Utils
  imports World
begin

text \<open>
  The helpers of utils.c around system calls. The option setters return 0 or -1, which their callers
  ignore; all that they do to the program's state is to make their calls. \<open>rand_uint16\<close> is in World.
\<close>

section \<open>Socket options\<close>

definition setnonblock :: "world \<Rightarrow> int \<times> world" where
  "setnonblock s = (let (flags, s1) = sys_ret s in
     if flags = - 1 then (- 1, s1) else let (r, s2) = sys_ret s1 in if r = - 1 then (- 1, s2) else (0, s2))"

definition settimeout :: "world \<Rightarrow> int \<times> world" where
  "settimeout s = (let (r, s1) = sys_ret s in
     if r \<noteq> 0 then (- 1, s1) else let (r', s2) = sys_ret s1 in if r' \<noteq> 0 then (- 1, s2) else (0, s2))"

definition setreuseaddr :: "world \<Rightarrow> int \<times> world" where
  "setreuseaddr s = (let (r, s1) = sys_ret s in if r \<noteq> 0 then (- 1, s1) else (0, s1))"

definition setkeepalive :: "world \<Rightarrow> int \<times> world" where
  "setkeepalive s = (let (r, s1) = sys_ret s in if r \<noteq> 0 then (- 1, s1) else (0, s1))"

text \<open>The options of a TCP connection, set one after the other.\<close>

definition stream_options :: "world \<Rightarrow> world" where
  "stream_options s = snd (setkeepalive (snd (settimeout (snd (setnonblock s)))))"

text \<open>The error of the socket is the error number that comes with the answer of \<open>getsockopt\<close>.\<close>

definition getsockerror :: "world \<Rightarrow> int \<times> world" where
  "getsockerror s = (let error = os_errno (sys s) (calls s); (r, s1) = sys_ret s in
     if r \<noteq> 0 then (- 1, s1) else (error, s1))"

section \<open>Processes\<close>

text \<open>A user that \<open>getpwnam\<close> does not know is no failure.\<close>

definition runas :: "cstr \<Rightarrow> world \<Rightarrow> int \<times> world" where
  "runas user s = (case os_passwd (sys s) user of
      None \<Rightarrow> (0, s)
    | Some (uid, gid) \<Rightarrow>
        let (r, s1) = sys_ret s; s2 = emit (Setegid gid r) s1 in
        if r \<noteq> 0 then (- 1, s2)
        else let (r', s3) = sys_ret s2; s4 = emit (Seteuid uid r') s3 in if r' \<noteq> 0 then (- 1, s4) else (0, s4))"

text \<open>
  \<open>daemonize\<close>, seen from the process that \<open>fork\<close> returns to: the parent writes the child's number to
  the file and exits, which is the result \<open>False\<close>; the child goes on. \<open>umask\<close> and \<open>fclose\<close> have no
  part in the model.
\<close>

definition daemonize :: "cstr \<Rightarrow> cstr \<Rightarrow> world \<Rightarrow> (bool \<times> world) cres" where
  "daemonize pidfile logfile s = (let (pid, s1) = sys_ret s in
     if pid < 0 then Inl Fail
     else if pid > 0 then
       (let (fp, s2) = sys_ret s1 in Inr (False, if fp = 0 then s2 else emit (Pidfile pidfile pid) s2))
     else let (sid, s2) = sys_ret s1 in
       if sid < 0 then Inl Fail
       else let (fp, s3) = sys_ret s2 in
         if fp = 0 then Inl Fail
         else let (fp', s4) = sys_ret s3 in if fp' = 0 then Inl Fail else Inr (True, s4))"

section \<open>What they leave alone\<close>

text \<open>The option setters only count calls.\<close>

lemma option_calls:
  "snd (setnonblock s) = s\<lparr>calls := calls (snd (setnonblock s))\<rparr>"
  "snd (setreuseaddr s) = s\<lparr>calls := calls (snd (setreuseaddr s))\<rparr>"
  "stream_options s = s\<lparr>calls := calls (stream_options s)\<rparr>"
  by (simp_all add: setnonblock_def setreuseaddr_def settimeout_def setkeepalive_def stream_options_def sys_ret_def)

lemma stream_options_keeps: "objs (stream_options s) = objs s" "wlist (stream_options s) = wlist s"
  "ios (stream_options s) = ios s" "sys (stream_options s) = sys s" "queries (stream_options s) = queries s"
  by (subst option_calls, simp)+

lemma winv_stream_options: "winv env k L s \<Longrightarrow> winv env k L (stream_options s)"
  by (subst option_calls) simp

lemma winv_getsockerror: "getsockerror s = (e, s') \<Longrightarrow> winv env k L s \<Longrightarrow> winv env k L s'"
  by (auto simp: getsockerror_def sys_ret_def split: if_splits)

end
