(* ===== verification/Dnsmsg.thy ===== *)
theory Dnsmsg
  imports World
begin

text \<open>
  The asynchronous message layer of dnsmsg.c: receiving queries and replies, and sending them, over
  UDP and TCP. The functions the contexts point to (\<open>ctx->cb\<close>) are arguments: \<open>on_query\<close> is applied
  to the function's name, the id and the state, \<open>on_reply\<close> to the name, the message and its length.
\<close>

section \<open>Receiving\<close>

text \<open>
  The bodies of \<open>query_recv\<close> and \<open>reply_recv\<close>, which differ in the callbacks only. The fields that
  \<open>malloc\<close> leaves unset are written before they are read.
\<close>

definition recv_start ::
  "watcher_fn \<Rightarrow> watcher_fn \<Rightarrow> int \<Rightarrow> ns_prot \<Rightarrow> user_fn \<Rightarrow> world \<Rightarrow> world cres"
where
  "recv_start udp_fn tcp_fn sock protocol cb s =
     (let ctx = \<lparr>x_cb = cb, x_msg = None, x_msglen = 0, x_offset = 0\<rparr> in
      if \<not> sock > 0 then Inl Abort
      else case malloc_obj (Dnsmsg ctx) s of
          (None, s1) \<Rightarrow> Inr s1
        | (Some a, s1) \<Rightarrow>
            if protocol = ns_udp then
              bindE (ev_io_init s1 (a, F_w) udp_fn sock EV_READ) (\<lambda>s2. ev_io_start s2 (a, F_w))
            else (case malloc_buf NS_PACKETSZ s1 of
                (None, s2) \<Rightarrow> free_obj a s2
              | (Some buf, s2) \<Rightarrow>
                  bindE (ev_io_init s2 (a, F_w) tcp_fn sock EV_READ) (\<lambda>s3.
                    ev_io_start (set_obj (a, F_w) (Dnsmsg (ctx\<lparr>x_msg := Some buf\<rparr>)) s3) (a, F_w))))"

definition query_recv :: "int \<Rightarrow> ns_prot \<Rightarrow> user_fn \<Rightarrow> world \<Rightarrow> world cres" where
  "query_recv = recv_start Query_udp_recv_cb Query_tcp_recv_cb"

definition reply_recv :: "int \<Rightarrow> ns_prot \<Rightarrow> user_fn \<Rightarrow> world \<Rightarrow> world cres" where
  "reply_recv = recv_start Reply_udp_recv_cb Reply_tcp_recv_cb"

text \<open>
  \<open>query_udp_recv_cb\<close>. The array on the stack holds junk behind the datagram. When the datagram is
  not a query the code neither keeps nor frees the \<open>query_t\<close>; as queries that are not in the table
  have no address here, that leak does not show.
\<close>

definition query_udp_recv_cb :: "(user_fn \<Rightarrow> 16 word \<Rightarrow> world \<Rightarrow> world cres) \<Rightarrow> wptr \<Rightarrow> world \<Rightarrow> world cres" where
  "query_udp_recv_cb on_query w s =
     bindE (io_of w s) (\<lambda>io. bindE (dnsmsg_of w s) (\<lambda>ctx.
     let stack = junk NS_PACKETSZ s; (ok, s1) = malloc_ok s in
     if \<not> ok then Inr s1
     else let from = os_from (sys s1) (calls s1); (r, s2) = sys_recv NS_PACKETSZ s1 in
       case r of
         None \<Rightarrow> Inr s2
       | Some data \<Rightarrow>
           if data = [] then Inr s2
           else let msg = data @ drop (length data) stack in
             bindE (ns_getid msg) (\<lambda>ident.
             attempt (ns_parse_query msg (length data)) (Inr s2) (\<lambda>(name, type).
               case query_add (queries s2)
                   \<lparr>q_id = ident, q_qid = 0, q_ttl = 0, q_sock = ev_fd io, q_protocol = ns_udp,
                    q_addr = fst from, q_addrlen = snd from, q_type = type, q_name = name\<rparr> of
                 None \<Rightarrow> Inr s2
               | Some ql \<Rightarrow> on_query (x_cb ctx) ident (s2\<lparr>queries := ql\<rparr>)))))"

text \<open>The end of a connection: \<open>ev_io_stop\<close>, perhaps \<open>close\<close>, and \<open>free\<close> of buffer and context.\<close>

definition drop_ctx :: "bool \<Rightarrow> wptr \<Rightarrow> int \<Rightarrow> world \<Rightarrow> world cres" where
  "drop_ctx closing w fd s = bindE (ev_io_stop s w) (\<lambda>s'.
     free_obj (fst w) (if closing then emit (Close fd) s' else s'))"

text \<open>The first read of a TCP connection: the length of the message.\<close>

definition recv_msglen :: "wptr \<Rightarrow> watcher_fn ev_io \<Rightarrow> dnsmsg_ctx \<Rightarrow> world \<Rightarrow> world cres" where
  "recv_msglen w io ctx s = (case sys_recv 2 s of
      (Some [hi, lo], s1) \<Rightarrow>
        Inr (set_obj w (Dnsmsg (ctx\<lparr>x_msglen := min (int (256 * unat hi + unat lo)) (int NS_PACKETSZ), x_offset := 0\<rparr>)) s1)
    | (_, s1) \<Rightarrow> drop_ctx True w (ev_fd io) s1)"

definition query_tcp_recv_cb :: "(user_fn \<Rightarrow> 16 word \<Rightarrow> world \<Rightarrow> world cres) \<Rightarrow> wptr \<Rightarrow> world \<Rightarrow> world cres" where
  "query_tcp_recv_cb on_query w s =
     bindE (io_of w s) (\<lambda>io. bindE (dnsmsg_of w s) (\<lambda>ctx.
     case x_msg ctx of None \<Rightarrow> Inl Abort | Some m \<Rightarrow>
     if x_msglen ctx = 0 then recv_msglen w io ctx s
     else if x_offset ctx < 0 then Inl Oob
     else case sys_recv (NS_PACKETSZ - nat (x_offset ctx)) s of
         (None, s1) \<Rightarrow> drop_ctx True w (ev_fd io) s1
       | (Some data, s1) \<Rightarrow>
           if data = [] then drop_ctx True w (ev_fd io) s1
           else bindE (put_at m (nat (x_offset ctx)) data) (\<lambda>m'.
             let s2 = set_obj w (Dnsmsg (ctx\<lparr>x_msg := Some m'\<rparr>)) s1 in
             if x_offset ctx + int (length data) \<noteq> x_msglen ctx then Inr s2
             else bindE (ev_io_stop s2 w) (\<lambda>s3.
               let from = os_from (sys s3) (calls s3); (ok, s4) = malloc_ok s3 in
               if \<not> ok then free_obj (fst w) s4
               else bindE (ns_getid m') (\<lambda>ident.
                 bindE (attempt (ns_parse_query m' (nat (x_msglen ctx))) (Inr s4) (\<lambda>(name, type).
                   case query_add (queries s4)
                       \<lparr>q_id = ident, q_qid = 0, q_ttl = 0, q_sock = ev_fd io, q_protocol = ns_tcp,
                        q_addr = fst from, q_addrlen = snd from, q_type = type, q_name = name\<rparr> of
                     None \<Rightarrow> Inr s4
                   | Some ql \<Rightarrow> on_query (x_cb ctx) ident (s4\<lparr>queries := ql\<rparr>)))
                 (free_obj (fst w)))))))"

definition reply_udp_recv_cb ::
  "(user_fn \<Rightarrow> byte list \<Rightarrow> nat \<Rightarrow> world \<Rightarrow> world cres) \<Rightarrow> wptr \<Rightarrow> world \<Rightarrow> world cres"
where
  "reply_udp_recv_cb on_reply w s =
     bindE (io_of w s) (\<lambda>io. bindE (dnsmsg_of w s) (\<lambda>ctx.
     let stack = junk NS_PACKETSZ s; (r, s1) = sys_recv NS_PACKETSZ s in
     case r of
       None \<Rightarrow> Inr s1
     | Some data \<Rightarrow>
         if data = [] then Inr s1
         else on_reply (x_cb ctx) (data @ drop (length data) stack) (length data) s1))"

definition reply_tcp_recv_cb ::
  "(user_fn \<Rightarrow> byte list \<Rightarrow> nat \<Rightarrow> world \<Rightarrow> world cres) \<Rightarrow> wptr \<Rightarrow> world \<Rightarrow> world cres"
where
  "reply_tcp_recv_cb on_reply w s =
     bindE (io_of w s) (\<lambda>io. bindE (dnsmsg_of w s) (\<lambda>ctx.
     case x_msg ctx of None \<Rightarrow> Inl Abort | Some m \<Rightarrow>
     if x_msglen ctx = 0 then recv_msglen w io ctx s
     else if x_offset ctx < 0 then Inl Oob
     else case sys_recv (NS_PACKETSZ - nat (x_offset ctx)) s of
         (None, s1) \<Rightarrow> drop_ctx True w (ev_fd io) s1
       | (Some data, s1) \<Rightarrow>
           if data = [] then drop_ctx True w (ev_fd io) s1
           else bindE (put_at m (nat (x_offset ctx)) data) (\<lambda>m'.
             let s2 = set_obj w (Dnsmsg (ctx\<lparr>x_msg := Some m'\<rparr>)) s1 in
             if x_offset ctx + int (length data) \<noteq> x_msglen ctx then Inr s2
             else bindE (ev_io_stop s2 w) (\<lambda>s3.
               bindE (on_reply (x_cb ctx) m' (nat (x_msglen ctx)) (emit (Close (ev_fd io)) s3))
                 (free_obj (fst w))))))"

section \<open>Sending\<close>

text \<open>
  The bodies of \<open>query_send\<close> and \<open>reply_send\<close>. \<open>msg\<close> is the whole buffer. When \<open>ns_mkquery\<close> fails
  they are called with \<open>msglen = -1\<close>: as a \<open>size_t\<close> that is more than \<open>sendto\<close> sends, and more than
  \<open>malloc\<close> gives.
\<close>

definition send_start ::
  "watcher_fn \<Rightarrow> int \<Rightarrow> ns_prot \<Rightarrow> byte list \<Rightarrow> int \<Rightarrow> sockaddr \<Rightarrow> world \<Rightarrow> world cres"
where
  "send_start tcp_fn sock protocol msg msglen addr s =
     (if protocol = ns_udp then
        (let (n, s1) = sys_ret s in
         if msglen < 0 then Inr s1
         else bindE (rd_n msg 0 (nat msglen)) (\<lambda>data. Inr (emit (Sendto sock data addr) s1)))
      else case malloc_obj (Dnsmsg \<lparr>x_cb = Query_cb, x_msg = None, x_msglen = 0, x_offset = 0\<rparr>) s of
          (None, s1) \<Rightarrow> Inr s1
        | (Some a, s1) \<Rightarrow>
            (case if msglen < 0 then (None, s1) else malloc_buf (nat msglen) s1 of
                (None, s2) \<Rightarrow> free_obj a s2
              | (Some buf, s2) \<Rightarrow>
                  bindE (rd_n msg 0 (nat msglen)) (\<lambda>data.
                  bindE (ev_io_init
                    (set_obj (a, F_w) (Dnsmsg \<lparr>x_cb = Query_cb, x_msg = Some data, x_msglen = msglen, x_offset = - 2\<rparr>) s2)
                    (a, F_w) tcp_fn sock EV_WRITE) (\<lambda>s3. ev_io_start s3 (a, F_w)))))"

definition query_send :: "int \<Rightarrow> ns_prot \<Rightarrow> byte list \<Rightarrow> int \<Rightarrow> sockaddr \<Rightarrow> world \<Rightarrow> world cres" where
  "query_send = send_start Query_tcp_send_cb"

definition reply_send :: "int \<Rightarrow> ns_prot \<Rightarrow> byte list \<Rightarrow> int \<Rightarrow> sockaddr \<Rightarrow> world \<Rightarrow> world cres" where
  "reply_send = send_start Reply_tcp_send_cb"

text \<open>
  The bodies of \<open>query_tcp_send_cb\<close> and \<open>reply_tcp_send_cb\<close>: they differ in whether the socket is
  closed when the length cannot be sent and when the message has been sent.
\<close>

definition tcp_send_cb :: "bool \<Rightarrow> wptr \<Rightarrow> world \<Rightarrow> world cres" where
  "tcp_send_cb closing w s =
     bindE (io_of w s) (\<lambda>io. bindE (dnsmsg_of w s) (\<lambda>ctx.
     case x_msg ctx of None \<Rightarrow> Inl Abort | Some m \<Rightarrow>
     if x_offset ctx = - 2 then
       (let (n, s1) = sys_send (ev_fd io) (NS_PUT16 (x_msglen ctx)) s in
        if n \<noteq> 2 then drop_ctx closing w (ev_fd io) s1
        else Inr (set_obj w (Dnsmsg (ctx\<lparr>x_offset := 0\<rparr>)) s1))
     else if x_offset ctx < 0 then Inl Oob
     else bindE (rd_n m (nat (x_offset ctx)) (nat (x_msglen ctx - x_offset ctx))) (\<lambda>data.
       let (n, s1) = sys_send (ev_fd io) data s in
       if n \<le> 0 then drop_ctx True w (ev_fd io) s1
       else if x_offset ctx + n = x_msglen ctx then drop_ctx closing w (ev_fd io) s1
       else Inr s1)))"

definition query_tcp_send_cb :: "wptr \<Rightarrow> world \<Rightarrow> world cres" where
  "query_tcp_send_cb = tcp_send_cb False"

definition reply_tcp_send_cb :: "wptr \<Rightarrow> world \<Rightarrow> world cres" where
  "reply_tcp_send_cb = tcp_send_cb True"

section \<open>The invariant\<close>

text \<open>The context of a listed watcher with one of the callbacks of this file.\<close>

lemma dnsmsg_watcher:
  assumes "winv env k L s" "w \<in> set (watching (wlist s))" "ios s w = Some io"
    "ev_cb io \<in> {Query_udp_recv_cb, Query_tcp_recv_cb, Reply_udp_recv_cb, Reply_tcp_recv_cb, Query_tcp_send_cb, Reply_tcp_send_cb}"
  obtains x where "io_of w s = Inr io" "dnsmsg_of w s = Inr x" "objs s (fst w) = Some (Dnsmsg x)" "snd w = F_w"
    "dnsmsg_ok x (ev_cb io)" "ev_fd io > 0"
proof -
  have ok: "watch_ok s w" by (rule winvD(3) [OF assms(1,2)])
  then obtain x where "objs s (fst w) = Some (Dnsmsg x)" "snd w = F_w" "dnsmsg_ok x (ev_cb io)" "ev_fd io > 0"
    using assms(3,4) by (auto simp: watch_ok_def async_ok_def split: option.splits obj.splits)
  then show ?thesis using that assms(3) by (simp add: io_of_def dnsmsg_of_def)
qed

lemma drop_ctx_inv:
  assumes "winv env k L s" "w \<in> set (watching (wlist s))"
  shows "outcome stops (winv env k L) (drop_ctx closing w fd s)"
proof -
  obtain wl where wl: "ev_io_stop s w = Inr (s\<lparr>wlist := wl, changed := True\<rparr>)"
    "winv env k (add_mset (fst w) L) (s\<lparr>wlist := wl, changed := True\<rparr>)"
    by (rule winv_stop [OF assms])
  let ?s = "if closing then emit (Close fd) (s\<lparr>wlist := wl, changed := True\<rparr>) else s\<lparr>wlist := wl, changed := True\<rparr>"
  have "winv env k (add_mset (fst w) L) ?s" using wl(2) by simp
  then show ?thesis using winv_free by (simp add: drop_ctx_def wl(1))
qed

text \<open>A store into the context of a listed watcher, whose fields the watcher's callback accepts.\<close>

lemma set_dnsmsg_inv:
  assumes "winv env k L s" "w \<in> set (watching (wlist s))" "ios s w = Some io" "objs s (fst w) = Some (Dnsmsg x)"
    "dnsmsg_ok x' (ev_cb io)"
  shows "winv env k L (set_obj w (Dnsmsg x') s)"
proof (rule winv_listed_store [OF assms(1) _ _ assms(2)])
  show "watch_ok (set_obj w (Dnsmsg x') s) w"
    using winvD(3) [OF assms(1,2)] assms(3-5) by (simp add: watch_ok_def set_obj_def)
  show "p = w" if "p \<in> set (watching (wlist s))" "fst p = fst w" for p
    by (rule watcher_unique [OF assms(1) that(1) assms(2) that(2)])
qed (use assms(4) in simp)

lemma recv_msglen_inv:
  assumes "winv env k L s" "w \<in> set (watching (wlist s))" "ios s w = Some io" "objs s (fst w) = Some (Dnsmsg x)"
    "dnsmsg_ok x (ev_cb io)" "ev_cb io \<in> {Query_tcp_recv_cb, Reply_tcp_recv_cb}"
  shows "outcome stops (winv env k L) (recv_msglen w io x s)"
proof -
  obtain r s1 where r: "sys_recv 2 s = (r, s1)" by fastforce
  have s1: "winv env k L s1" "wlist s1 = wlist s" "ios s1 = ios s" "objs s1 = objs s"
    using winv_sys_recv [OF r assms(1)] r by (auto simp: sys_recv_def)
  let ?x = "\<lambda>n. x\<lparr>x_msglen := min n (int NS_PACKETSZ), x_offset := 0\<rparr>"
  have "dnsmsg_ok (?x n) (ev_cb io)" if "0 \<le> n" for n
    using assms(5,6) that by (auto simp: dnsmsg_ok_def msg_ok_def)
  then have "winv env k L (set_obj w (Dnsmsg (?x n)) s1)" if "0 \<le> n" for n
    using s1 assms that by (intro set_dnsmsg_inv [where io = io]) auto
  then show ?thesis
    using drop_ctx_inv [OF s1(1)] s1(2) assms(2)
    by (auto simp: recv_msglen_def r split: option.split list.split)
qed

lemma recv_start_inv:
  assumes "winv env k L s" "dnsmsg_ok \<lparr>x_cb = cb, x_msg = None, x_msglen = 0, x_offset = 0\<rparr> udp_fn"
    "\<And>m. length m = NS_PACKETSZ \<Longrightarrow> dnsmsg_ok \<lparr>x_cb = cb, x_msg = Some m, x_msglen = 0, x_offset = 0\<rparr> tcp_fn"
  shows "outcome stops (winv env k L) (recv_start udp_fn tcp_fn sock protocol cb s)"
proof (cases "sock > 0")
  case True
  let ?ctx = "\<lparr>x_cb = cb, x_msg = None, x_msglen = 0, x_offset = 0\<rparr>"
  obtain r s1 where r: "malloc_obj (Dnsmsg ?ctx) s = (r, s1)" by fastforce
  show ?thesis
  proof (cases r)
    case None
    then show ?thesis
      using winv_malloc_obj_None [of _ s s1] assms(1) r True by (simp add: recv_start_def Let_def)
  next
    case (Some a)
    note s1 = winv_malloc_obj [OF r [unfolded Some] assms(1)]
    show ?thesis
    proof (cases "protocol = ns_udp")
      case True
      let ?s2 = "s1\<lparr>ios := (ios s1)((a, F_w) \<mapsto> \<lparr>ev_fd = sock, ev_event = EV_READ, ev_cb = udp_fn\<rparr>)\<rparr>"
      have i: "ev_io_init s1 (a, F_w) udp_fn sock EV_READ = Inr ?s2" "winv env k (add_mset (fst (a, F_w)) L) ?s2"
        using winv_io_init [where w = "(a, F_w)" and L = L and s = s1 and fd = sock and cb = udp_fn and event = EV_READ] s1(1) \<open>sock > 0\<close> by simp_all
      have "watch_ok ?s2 (a, F_w)" using s1(2) assms(2) \<open>sock > 0\<close> by (simp add: watch_ok_def)
      then have "outcome stops (winv env k L) (ev_io_start ?s2 (a, F_w))" by (rule winv_start [OF i(2)])
      then show ?thesis using True \<open>sock > 0\<close> r Some i(1) by (simp add: recv_start_def Let_def)
    next
      case False
      obtain b s2 where b: "malloc_buf NS_PACKETSZ s1 = (b, s2)" by fastforce
      have s2: "winv env k (add_mset a L) s2" "\<And>m. b = Some m \<Longrightarrow> length m = NS_PACKETSZ" "objs s2 = objs s1"
        using winv_malloc_buf [OF b s1(1)] b by (auto simp: malloc_buf_def malloc_ok_def)
      show ?thesis
      proof (cases b)
        case None
        then show ?thesis
          using winv_free [OF s2(1)] \<open>sock > 0\<close> False r Some b by (simp add: recv_start_def Let_def)
      next
        case (Some m)
        let ?s3 = "s2\<lparr>ios := (ios s2)((a, F_w) \<mapsto> \<lparr>ev_fd = sock, ev_event = EV_READ, ev_cb = tcp_fn\<rparr>)\<rparr>"
        let ?x = "Dnsmsg (?ctx\<lparr>x_msg := Some m\<rparr>)"
        have i: "ev_io_init s2 (a, F_w) tcp_fn sock EV_READ = Inr ?s3" "winv env k (add_mset (fst (a, F_w)) L) ?s3"
          using winv_io_init [where w = "(a, F_w)" and L = L and s = s2 and fd = sock and cb = tcp_fn and event = EV_READ] s2(1) \<open>sock > 0\<close> by simp_all
        have "watch_ok (set_obj (a, F_w) ?x ?s3) (a, F_w)"
          using assms(3) [OF s2(2) [OF Some]] \<open>sock > 0\<close> by (simp add: watch_ok_def set_obj_def)
        then have "outcome stops (winv env k L) (ev_io_start (set_obj (a, F_w) ?x ?s3) (a, F_w))"
          using winv_set_obj [OF i(2)] by (intro winv_start)
        then show ?thesis
          using False \<open>sock > 0\<close> r \<open>r = Some a\<close> b Some i(1) by (simp add: recv_start_def Let_def)
      qed
    qed
  qed
qed (simp add: recv_start_def)

lemma query_recv_inv: "winv env k L s \<Longrightarrow> outcome stops (winv env k L) (query_recv sock protocol Query_cb s)"
  unfolding query_recv_def by (rule recv_start_inv) (simp_all add: dnsmsg_ok_def msg_ok_def)

lemma reply_recv_inv:
  "winv env k L s \<Longrightarrow> cb \<in> {Test_cb, Reply_cb} \<Longrightarrow> outcome stops (winv env k L) (reply_recv sock protocol cb s)"
  unfolding reply_recv_def by (rule recv_start_inv) (simp_all add: dnsmsg_ok_def msg_ok_def)

lemma send_start_inv:
  assumes "winv env k L s" "tcp_fn \<in> {Query_tcp_send_cb, Reply_tcp_send_cb}" "protocol = ns_tcp \<longrightarrow> sock > 0"
    "msglen \<le> int (length msg)"
  shows "outcome stops (winv env k L) (send_start tcp_fn sock protocol msg msglen addr s)"
proof (cases "protocol = ns_udp")
  case True
  then show ?thesis
    using assms by (auto simp: send_start_def sys_ret_def rd_n_def)
next
  case False
  let ?c = "\<lparr>x_cb = Query_cb, x_msg = None, x_msglen = 0, x_offset = 0\<rparr>"
  have sock: "sock > 0" using False assms(3) by (cases protocol) auto
  obtain r s1 where r: "malloc_obj (Dnsmsg ?c) s = (r, s1)" by fastforce
  show ?thesis
  proof (cases r)
    case None
    then show ?thesis
      using winv_malloc_obj_None [of _ s s1] assms(1) r False by (simp add: send_start_def)
  next
    case (Some a)
    note s1 = winv_malloc_obj [OF r [unfolded Some] assms(1)]
    obtain b s2 where b: "(if msglen < 0 then (None, s1) else malloc_buf (nat msglen) s1) = (b, s2)" by fastforce
    have s2: "winv env k (add_mset a L) s2"
      using winv_malloc_buf [of "nat msglen" s1 b s2, OF _ s1(1)] s1(1) b by (auto split: if_splits)
    show ?thesis
    proof (cases b)
      case None
      then show ?thesis
        using winv_free [OF s2] False r Some b by (simp add: send_start_def)
    next
      case (Some buf)
      then have len: "0 \<le> msglen" using b by (auto split: if_splits)
      let ?d = "take (nat msglen) msg"
      let ?x = "\<lparr>x_cb = Query_cb, x_msg = Some ?d, x_msglen = msglen, x_offset = - 2\<rparr>"
      let ?s2 = "set_obj (a, F_w) (Dnsmsg ?x) s2"
      let ?s3 = "?s2\<lparr>ios := (ios ?s2)((a, F_w) \<mapsto> \<lparr>ev_fd = sock, ev_event = EV_WRITE, ev_cb = tcp_fn\<rparr>)\<rparr>"
      have "winv env k (add_mset (fst (a, F_w)) L) ?s2" using winv_set_obj [of env k "(a, F_w)"] s2 by simp
      note i = winv_io_init [OF this sock, where cb = tcp_fn and event = EV_WRITE]
      have "watch_ok ?s3 (a, F_w)"
        using assms(2,4) len sock by (auto simp: watch_ok_def set_obj_def dnsmsg_ok_def out_ok_def)
      then have "outcome stops (winv env k L) (ev_io_start ?s3 (a, F_w))" by (rule winv_start [OF i(2)])
      then show ?thesis
        using False r \<open>r = Some a\<close> b Some i(1) len assms(4)
        by (simp add: send_start_def rd_n_def nat_le_iff)
    qed
  qed
qed

lemma tcp_send_cb_inv:
  assumes "winv env k L s" "w \<in> set (watching (wlist s))" "ios s w = Some io"
    "ev_cb io \<in> {Query_tcp_send_cb, Reply_tcp_send_cb}"
  shows "outcome stops (winv env k L) (tcp_send_cb closing w s)"
proof -
  obtain x where x: "io_of w s = Inr io" "dnsmsg_of w s = Inr x" "objs s (fst w) = Some (Dnsmsg x)"
    "dnsmsg_ok x (ev_cb io)"
    using dnsmsg_watcher [OF assms(1-3)] assms(4) by blast
  then obtain m where m: "x_msg x = Some m" "x_msglen x = int (length m)" "x_offset x \<in> {- 2, 0}"
    using assms(4) by (auto simp: dnsmsg_ok_def out_ok_def)
  have keep: "winv env k L s1" "wlist s1 = wlist s" "ios s1 = ios s" "objs s1 = objs s"
    if "sys_send fd data s = (n, s1)" for fd data n s1
    using winv_sys_send [OF that assms(1)] that by (auto simp: sys_send_def sys_ret_def emit_def)
  show ?thesis
  proof (cases "x_offset x = - 2")
    case True
    obtain n s1 where n: "sys_send (ev_fd io) (NS_PUT16 (x_msglen x)) s = (n, s1)" by fastforce
    have "winv env k L (set_obj w (Dnsmsg (x\<lparr>x_offset := 0\<rparr>)) s1)"
      using keep [OF n] assms x m by (intro set_dnsmsg_inv [where io = io]) (auto simp: dnsmsg_ok_def out_ok_def)
    then show ?thesis
      using drop_ctx_inv [of env k L s1 w] keep [OF n] assms(2) x m n True by (simp add: tcp_send_cb_def)
  next
    case False
    then have off: "x_offset x = 0" using m(3) by simp
    obtain n s1 where n: "sys_send (ev_fd io) m s = (n, s1)" by fastforce
    then show ?thesis
      using drop_ctx_inv [of env k L s1 w] keep [OF n] assms(2) x m off by (simp add: tcp_send_cb_def rd_n_def)
  qed
qed

text \<open>A message that ends before its buffer does is parsed safely; from one that fills it, a byte behind may be read.\<close>

lemma parse_query_outcome:
  assumes "0 < n" "n \<le> length msg"
  shows "outcome (if n < length msg then {Fail} else {Fail, Oob}) (\<lambda>(name, type). name_ok name) (ns_parse_query msg n)"
proof (cases "ns_parse_query msg n")
  case (Inr r)
  then show ?thesis
    using ns_parse_query_sound_aux [of msg n "fst r" "snd r"] assms(2) by (fastforce simp: name_ok_def)
next
  case (Inl e)
  then show ?thesis
    using ns_parse_query_safe_aux [OF assms(1), of msg] mild_parse_message(1) [OF assms(1), of msg] by auto
qed

lemma ns_getid_outcome: "2 \<le> length msg \<Longrightarrow> outcome bad (\<lambda>_. True) (ns_getid msg)"
  by (simp add: ns_getid_def NS_GET16_ok)

text \<open>The state after the rest of a message has been read into the buffer.\<close>

lemma recv_rest_inv:
  assumes "winv env k L s" "w \<in> set (watching (wlist s))" "ios s w = Some io" "objs s (fst w) = Some (Dnsmsg x)"
    "dnsmsg_ok x (ev_cb io)" "ev_cb io \<in> {Query_tcp_recv_cb, Reply_tcp_recv_cb}" "x_msg x = Some m"
    "sys_recv NS_PACKETSZ s = (Some data, s1)"
  shows "put_at m 0 data = Inr (mem_put m 0 data)" "length (mem_put m 0 data) = NS_PACKETSZ"
    "winv env k L (set_obj w (Dnsmsg (x\<lparr>x_msg := Some (mem_put m 0 data)\<rparr>)) s1)"
    "w \<in> set (watching (wlist (set_obj w (Dnsmsg (x\<lparr>x_msg := Some (mem_put m 0 data)\<rparr>)) s1)))"
proof -
  have m: "length m = NS_PACKETSZ" using assms(5-7) by (auto simp: dnsmsg_ok_def msg_ok_def)
  have d: "length data \<le> NS_PACKETSZ" using winv_sys_recv [OF assms(8,1)] by simp
  show len: "length (mem_put m 0 data) = NS_PACKETSZ" using m d by simp
  show "put_at m 0 data = Inr (mem_put m 0 data)" using m d by (simp add: put_at_def)
  have s1: "winv env k L s1" "wlist s1 = wlist s" "ios s1 = ios s" "objs s1 = objs s"
    using winv_sys_recv [OF assms(8,1)] assms(8) by (auto simp: sys_recv_def)
  show "winv env k L (set_obj w (Dnsmsg (x\<lparr>x_msg := Some (mem_put m 0 data)\<rparr>)) s1)"
    using s1 assms len by (intro set_dnsmsg_inv [where io = io]) (auto simp: dnsmsg_ok_def msg_ok_def)
  show "w \<in> set (watching (wlist (set_obj w (Dnsmsg (x\<lparr>x_msg := Some (mem_put m 0 data)\<rparr>)) s1)))"
    using s1(2) assms(2) by (simp add: set_obj_def)
qed

section \<open>The contract with the program's callbacks\<close>

text \<open>
  What this layer needs from the functions it hands queries and replies to: they keep the invariant,
  whatever objects the caller holds, when they are called with the id of a query that was just added
  to the table, or with a reply in a packet buffer. Only of a reply that fills the buffer may they read
  outside of it.
\<close>

locale dnsmsg_client =
  fixes on_query :: "user_fn \<Rightarrow> 16 word \<Rightarrow> world \<Rightarrow> world cres"
    and on_reply :: "user_fn \<Rightarrow> byte list \<Rightarrow> nat \<Rightarrow> world \<Rightarrow> world cres"
  assumes on_query_inv: "winv env k L s \<Longrightarrow> name_ok (q_name q) \<Longrightarrow> query_add (queries s) q = Some ql \<Longrightarrow>
      outcome stops (winv env k L) (on_query Query_cb (q_id q) (s\<lparr>queries := ql\<rparr>))"
    and on_reply_inv: "winv env k L s \<Longrightarrow> fn \<in> {Test_cb, Reply_cb} \<Longrightarrow> length msg = NS_PACKETSZ \<Longrightarrow> 0 < n \<Longrightarrow>
      n \<le> NS_PACKETSZ \<Longrightarrow> outcome (stops_of (n = NS_PACKETSZ)) (winv env k L) (on_reply fn msg n s)"
begin

text \<open>Parsing a received query and handing it on, as both receiving callbacks do.\<close>

lemma deliver_query_inv:
  assumes "winv env k L s" "0 < n" "n \<le> length msg" "\<And>name type. q_id (q name type) = ident" "\<And>name type. q_name (q name type) = name"
  shows "outcome (stops_of (n = length msg)) (winv env k L) (attempt (ns_parse_query msg n) (Inr s) (\<lambda>(name, type).
     case query_add (queries s) (q name type) of None \<Rightarrow> Inr s | Some ql \<Rightarrow> on_query Query_cb ident (s\<lparr>queries := ql\<rparr>)))"
proof (rule outcome_attempt [where Q = "\<lambda>(name, type). name_ok name"])
  show "outcome (insert Fail (stops_of (n = length msg))) (\<lambda>(name, type). name_ok name) (ns_parse_query msg n)"
    by (rule outcome_weaken [OF parse_query_outcome [OF assms(2,3)]]) (use assms(3) in \<open>auto split: if_splits\<close>)
next
  fix r :: "cstr \<times> int" assume "case r of (name, type) \<Rightarrow> name_ok name"
  then show "outcome (stops_of (n = length msg)) (winv env k L) (case r of (name, type) \<Rightarrow>
     (case query_add (queries s) (q name type) of None \<Rightarrow> Inr s | Some ql \<Rightarrow> on_query Query_cb ident (s\<lparr>queries := ql\<rparr>)))"
    using outcome_stops [OF on_query_inv [OF assms(1), of "q (fst r) (snd r)"]] assms(1,4,5)
    by (auto split: option.split)
qed (use assms(1) in simp)

lemma query_udp_recv_inv:
  assumes "winv env k L s" "w \<in> set (watching (wlist s))" "ios s w = Some io" "ev_cb io = Query_udp_recv_cb"
  shows "outcome (stops_of (fills (sys s) (calls s + 1))) (winv env k L) (query_udp_recv_cb on_query w s)"
proof -
  obtain x where x: "io_of w s = Inr io" "dnsmsg_of w s = Inr x" "x_cb x = Query_cb"
    using dnsmsg_watcher [OF assms(1-3)] assms(4) by (auto simp: dnsmsg_ok_def)
  obtain ok s1 where ok: "malloc_ok s = (ok, s1)" by fastforce
  obtain r s2 where r: "sys_recv NS_PACKETSZ s1 = (r, s2)" by fastforce
  have s1: "winv env k L s1" by (rule winv_malloc_ok [OF ok assms(1)])
  note s2 = winv_sys_recv [OF r s1]
  let ?f = "os_from (sys s1) (calls s1)" and ?st = "junk NS_PACKETSZ s"
  have "outcome (stops_of (fills (sys s) (calls s + 1))) (winv env k L) (bindE (ns_getid (data @ drop (length data) ?st)) (\<lambda>ident.
      attempt (ns_parse_query (data @ drop (length data) ?st) (length data)) (Inr s2) (\<lambda>(name, type).
       case query_add (queries s2)
           \<lparr>q_id = ident, q_qid = 0, q_ttl = 0, q_sock = ev_fd io, q_protocol = ns_udp,
            q_addr = fst ?f, q_addrlen = snd ?f, q_type = type, q_name = name\<rparr> of
         None \<Rightarrow> Inr s2
       | Some ql \<Rightarrow> on_query (x_cb x) ident (s2\<lparr>queries := ql\<rparr>))))"
    if "r = Some data" "data \<noteq> []" for data
  proof (rule outcome_bindE)
    have len: "length data \<le> NS_PACKETSZ" "length data = NS_PACKETSZ \<Longrightarrow> fills (sys s) (calls s + 1)"
      using s2 that ok by (auto simp: malloc_ok_def)
    then have len': "length (data @ drop (length data) ?st) = NS_PACKETSZ" by (simp add: junk_def)
    show "outcome (stops_of (fills (sys s) (calls s + 1))) (\<lambda>_. True) (ns_getid (data @ drop (length data) ?st))"
      by (rule ns_getid_outcome) (simp only: len')
    show "outcome (stops_of (fills (sys s) (calls s + 1))) (winv env k L) (attempt (ns_parse_query (data @ drop (length data) ?st) (length data)) (Inr s2)
      (\<lambda>(name, type).
       case query_add (queries s2)
           \<lparr>q_id = ident, q_qid = 0, q_ttl = 0, q_sock = ev_fd io, q_protocol = ns_udp,
            q_addr = fst ?f, q_addrlen = snd ?f, q_type = type, q_name = name\<rparr> of
         None \<Rightarrow> Inr s2
       | Some ql \<Rightarrow> on_query (x_cb x) ident (s2\<lparr>queries := ql\<rparr>)))" for ident
      unfolding x(3) by (rule outcome_stops_of [OF deliver_query_inv]) (use s2 that len len' in auto)
  qed
  then show ?thesis
    using s1 s2 by (auto simp: query_udp_recv_cb_def x ok r Let_def split: option.split)
qed

lemma query_tcp_recv_inv:
  assumes "winv env k L s" "w \<in> set (watching (wlist s))" "ios s w = Some io" "ev_cb io = Query_tcp_recv_cb"
  shows "outcome (stops_of (fills (sys s) (calls s))) (winv env k L) (query_tcp_recv_cb on_query w s)"
proof -
  have fn: "ev_cb io \<in> {Query_tcp_recv_cb, Reply_tcp_recv_cb}" using assms(4) by simp
  obtain x where x: "io_of w s = Inr io" "dnsmsg_of w s = Inr x" "objs s (fst w) = Some (Dnsmsg x)"
    "dnsmsg_ok x (ev_cb io)"
    using dnsmsg_watcher [OF assms(1-3)] assms(4) by blast
  then obtain m where m: "x_msg x = Some m" "x_offset x = 0" "x_cb x = Query_cb" "0 \<le> x_msglen x"
    using assms(4) by (auto simp: dnsmsg_ok_def msg_ok_def)
  show ?thesis
  proof (cases "x_msglen x = 0")
    case True
    then show ?thesis
      using outcome_stops [OF recv_msglen_inv [OF assms(1-3) x(3,4) fn]] x m by (simp add: query_tcp_recv_cb_def)
  next
    case False
    obtain r s1 where r: "sys_recv NS_PACKETSZ s = (r, s1)" by fastforce
    have s1: "winv env k L s1" "w \<in> set (watching (wlist s1))"
      using winv_sys_recv [OF r assms(1)] r assms(2) by (auto simp: sys_recv_def)
    show ?thesis
    proof (cases "r = None \<or> r = Some []")
      case True
      then show ?thesis
        using outcome_stops [OF drop_ctx_inv [OF s1, of True "ev_fd io"]] x m r False by (auto simp: query_tcp_recv_cb_def)
    next
      case nonempty: False
      then obtain data where data: "r = Some data" "data \<noteq> []" by auto
      let ?m = "mem_put m 0 data"
      define s2 where "s2 = set_obj w (Dnsmsg (x\<lparr>x_msg := Some ?m\<rparr>)) s1"
      note rest = recv_rest_inv [OF assms(1-3) x(3,4) fn m(1) r [unfolded data], folded s2_def]
      have len: "length data \<le> NS_PACKETSZ" "length data = NS_PACKETSZ \<Longrightarrow> fills (sys s) (calls s)"
        using winv_sys_recv [OF r assms(1)] data(1) by auto
      show ?thesis
      proof (cases "int (length data) = x_msglen x")
        case False
        then show ?thesis
          using rest(1,3) x m r data \<open>x_msglen x \<noteq> 0\<close>
          by (simp add: query_tcp_recv_cb_def Let_def flip: s2_def)
      next
        case True
        obtain wl where wl: "ev_io_stop s2 w = Inr (s2\<lparr>wlist := wl, changed := True\<rparr>)"
          "winv env k (add_mset (fst w) L) (s2\<lparr>wlist := wl, changed := True\<rparr>)"
          by (rule winv_stop [OF rest(3,4)])
        define s3 where "s3 = s2\<lparr>wlist := wl, changed := True\<rparr>"
        obtain ok s4 where ok: "malloc_ok s3 = (ok, s4)" by fastforce
        have s4: "winv env k (add_mset (fst w) L) s4"
          by (rule winv_malloc_ok [OF ok]) (simp only: s3_def wl(2))
        define body where "body = (\<lambda>ident. attempt (ns_parse_query ?m (nat (x_msglen x))) (Inr s4) (\<lambda>(name, type).
           case query_add (queries s4)
               \<lparr>q_id = ident, q_qid = 0, q_ttl = 0, q_sock = ev_fd io, q_protocol = ns_tcp,
                q_addr = fst (os_from (sys s3) (calls s3)), q_addrlen = snd (os_from (sys s3) (calls s3)),
                q_type = type, q_name = name\<rparr> of
             None \<Rightarrow> Inr s4
           | Some ql \<Rightarrow> on_query (x_cb x) ident (s4\<lparr>queries := ql\<rparr>)))"
        have "outcome (stops_of (fills (sys s) (calls s))) (winv env k (add_mset (fst w) L)) (body ident)" for ident
          unfolding body_def m(3)
          by (rule outcome_stops_of [OF deliver_query_inv [OF s4]]) (use True data(2) len rest(2) m(4) \<open>x_msglen x \<noteq> 0\<close> in auto)
        then have "outcome (stops_of (fills (sys s) (calls s))) (winv env k L) (bindE (body ident) (free_obj (fst w)))" for ident
          by (rule outcome_bindE) (rule outcome_stops [OF winv_free])
        then have "outcome (stops_of (fills (sys s) (calls s))) (winv env k L) (bindE (ns_getid ?m) (\<lambda>ident. bindE (body ident) (free_obj (fst w))))"
          by (intro outcome_bindE [OF ns_getid_outcome]) (simp_all add: rest(2))
        then show ?thesis
          using outcome_stops [OF winv_free [OF s4]] rest(1) x m r data \<open>x_msglen x \<noteq> 0\<close> True wl(1) ok
          by (simp add: query_tcp_recv_cb_def Let_def body_def flip: s2_def s3_def)
      qed
    qed
  qed
qed

lemma reply_udp_recv_inv:
  assumes "winv env k L s" "w \<in> set (watching (wlist s))" "ios s w = Some io" "ev_cb io = Reply_udp_recv_cb"
  shows "outcome (stops_of (fills (sys s) (calls s))) (winv env k L) (reply_udp_recv_cb on_reply w s)"
proof -
  obtain x where x: "io_of w s = Inr io" "dnsmsg_of w s = Inr x" "x_cb x \<in> {Test_cb, Reply_cb}"
    using dnsmsg_watcher [OF assms(1-3)] assms(4) by (auto simp: dnsmsg_ok_def)
  obtain r s1 where r: "sys_recv NS_PACKETSZ s = (r, s1)" by fastforce
  note s1 = winv_sys_recv [OF r assms(1)]
  have "outcome (stops_of (fills (sys s) (calls s))) (winv env k L) (on_reply (x_cb x) (data @ drop (length data) (junk NS_PACKETSZ s)) (length data) s1)"
    if "r = Some data" "data \<noteq> []" for data
    using s1 that by (intro outcome_stops_of [OF on_reply_inv [OF _ x(3)]]) (auto simp: junk_def)
  then show ?thesis using s1 by (auto simp: reply_udp_recv_cb_def x r Let_def split: option.split)
qed

lemma reply_tcp_recv_inv:
  assumes "winv env k L s" "w \<in> set (watching (wlist s))" "ios s w = Some io" "ev_cb io = Reply_tcp_recv_cb"
  shows "outcome (stops_of (fills (sys s) (calls s))) (winv env k L) (reply_tcp_recv_cb on_reply w s)"
proof -
  have fn: "ev_cb io \<in> {Query_tcp_recv_cb, Reply_tcp_recv_cb}" using assms(4) by simp
  obtain x where x: "io_of w s = Inr io" "dnsmsg_of w s = Inr x" "objs s (fst w) = Some (Dnsmsg x)"
    "dnsmsg_ok x (ev_cb io)"
    using dnsmsg_watcher [OF assms(1-3)] assms(4) by blast
  then obtain m where m: "x_msg x = Some m" "x_offset x = 0" "x_cb x \<in> {Test_cb, Reply_cb}" "0 \<le> x_msglen x"
    using assms(4) by (auto simp: dnsmsg_ok_def msg_ok_def)
  show ?thesis
  proof (cases "x_msglen x = 0")
    case True
    then show ?thesis
      using outcome_stops [OF recv_msglen_inv [OF assms(1-3) x(3,4) fn]] x m by (simp add: reply_tcp_recv_cb_def)
  next
    case False
    obtain r s1 where r: "sys_recv NS_PACKETSZ s = (r, s1)" by fastforce
    have s1: "winv env k L s1" "w \<in> set (watching (wlist s1))"
      using winv_sys_recv [OF r assms(1)] r assms(2) by (auto simp: sys_recv_def)
    show ?thesis
    proof (cases "r = None \<or> r = Some []")
      case True
      then show ?thesis
        using outcome_stops [OF drop_ctx_inv [OF s1, of True "ev_fd io"]] x m r False by (auto simp: reply_tcp_recv_cb_def)
    next
      case nonempty: False
      then obtain data where data: "r = Some data" "data \<noteq> []" by auto
      let ?m = "mem_put m 0 data"
      define s2 where "s2 = set_obj w (Dnsmsg (x\<lparr>x_msg := Some ?m\<rparr>)) s1"
      note rest = recv_rest_inv [OF assms(1-3) x(3,4) fn m(1) r [unfolded data], folded s2_def]
      have len: "length data \<le> NS_PACKETSZ" "length data = NS_PACKETSZ \<Longrightarrow> fills (sys s) (calls s)"
        using winv_sys_recv [OF r assms(1)] data(1) by auto
      show ?thesis
      proof (cases "int (length data) = x_msglen x")
        case False
        then show ?thesis
          using rest(1,3) x m r data \<open>x_msglen x \<noteq> 0\<close>
          by (simp add: reply_tcp_recv_cb_def Let_def flip: s2_def)
      next
        case True
        obtain wl where wl: "ev_io_stop s2 w = Inr (s2\<lparr>wlist := wl, changed := True\<rparr>)"
          "winv env k (add_mset (fst w) L) (s2\<lparr>wlist := wl, changed := True\<rparr>)"
          by (rule winv_stop [OF rest(3,4)])
        define s3 where "s3 = emit (Close (ev_fd io)) (s2\<lparr>wlist := wl, changed := True\<rparr>)"
        have s3: "winv env k (add_mset (fst w) L) s3" using wl(2) by (simp only: s3_def winv_emit)
        have "outcome (stops_of (fills (sys s) (calls s))) (winv env k (add_mset (fst w) L)) (on_reply (x_cb x) ?m (nat (x_msglen x)) s3)"
          by (rule outcome_stops_of [OF on_reply_inv [OF s3 m(3)]]) (use True data(2) len rest(2) m(4) \<open>x_msglen x \<noteq> 0\<close> in auto)
        then have "outcome (stops_of (fills (sys s) (calls s))) (winv env k L) (bindE (on_reply (x_cb x) ?m (nat (x_msglen x)) s3) (free_obj (fst w)))"
          by (rule outcome_bindE) (rule outcome_stops [OF winv_free])
        then show ?thesis
          using rest(1) x m r data \<open>x_msglen x \<noteq> 0\<close> True wl(1)
          by (simp add: reply_tcp_recv_cb_def Let_def flip: s2_def s3_def)
      qed
    qed
  qed
qed

end

section \<open>Properties\<close>

text \<open>The state of one connection: its watcher and its context.\<close>

definition conn_at :: "world \<Rightarrow> wptr \<Rightarrow> int \<Rightarrow> dnsmsg_ctx \<Rightarrow> bool" where
  "conn_at s w fd x \<longleftrightarrow> w \<in> set (watching (wlist s)) \<and> objs s (fst w) = Some (Dnsmsg x) \<and>
     (\<exists>io. ios s w = Some io \<and> ev_fd io = fd)"

text \<open>
  A message over TCP is sent as the protocol asks: when the kernel takes the two bytes of the
  length, and then the whole message, the stream holds the length in network byte order followed by
  the message, and the context is gone; the socket of a reply is closed, that of a query stays open
  for the reply.
\<close>

theorem tcp_send_frame:
  assumes "conn_at s w fd x" "x_msg x = Some m" "x_msglen x = int (length m)" "x_offset x = - 2" "m \<noteq> []"
    "os_ret (sys s) (calls s) = 2" "os_ret (sys s) (calls s + 1) = int (length m)"
  shows "\<exists>s'. bindE (tcp_send_cb closing w s) (tcp_send_cb closing w) = Inr s' \<and> objs s' (fst w) = None
    \<and> trace s' = trace s @ [Send fd (NS_PUT16 (int (length m))) 2, Send fd m (int (length m))]
        @ (if closing then [Close fd] else [])"
proof -
  obtain io where io: "ios s w = Some io" "ev_fd io = fd" "objs s (fst w) = Some (Dnsmsg x)" "w \<in> set (watching (wlist s))"
    using assms(1) by (auto simp: conn_at_def)
  define s1 where "s1 = set_obj w (Dnsmsg (x\<lparr>x_offset := 0\<rparr>))
    (emit (Send fd (NS_PUT16 (int (length m))) 2) (s\<lparr>calls := calls s + 1\<rparr>))"
  have first: "tcp_send_cb closing w s = Inr s1"
    using io assms(2-4,6) by (simp add: tcp_send_cb_def io_of_def dnsmsg_of_def sys_send_def sys_ret_def s1_def)
  have s1: "ios s1 w = Some io" "objs s1 (fst w) = Some (Dnsmsg (x\<lparr>x_offset := 0\<rparr>))" "wlist s1 = wlist s"
    "sys s1 = sys s" "calls s1 = calls s + 1" "trace s1 = trace s @ [Send fd (NS_PUT16 (int (length m))) 2]"
    using io by (simp_all add: s1_def set_obj_def emit_def)
  obtain wl where wl: "stop_loop (wlist s1) w = Some wl" using stop_loop_None [of "wlist s1" w] io(4) s1(3) by auto
  have "\<exists>s'. tcp_send_cb closing w s1 = Inr s' \<and> objs s' (fst w) = None
      \<and> trace s' = trace s1 @ [Send fd m (int (length m))] @ (if closing then [Close fd] else [])"
    using s1 io(2) assms(2,3,5,7) wl
    by (simp add: tcp_send_cb_def io_of_def dnsmsg_of_def rd_n_def sys_send_def sys_ret_def drop_ctx_def
        ev_io_stop_def free_obj_def emit_def)
  then show ?thesis using first s1(6) by auto
qed

definition sending :: "byte list \<Rightarrow> int \<Rightarrow> (nat \<Rightarrow> int) \<Rightarrow> world" where
  "sending m offset rets = (world_zero (quiet\<lparr>os_ret := rets\<rparr>) [])\<lparr>wlist := [Some (0, F_w)], brk := 1,
     objs := [0 \<mapsto> Dnsmsg \<lparr>x_cb = Query_cb, x_msg = Some m, x_msglen = int (length m), x_offset = offset\<rparr>],
     ios := [(0, F_w) \<mapsto> \<lparr>ev_fd = 9, ev_event = EV_WRITE, ev_cb = Reply_tcp_send_cb\<rparr>]\<rparr>"

lemma tcp_send_frame_witness:
  "\<exists>s'. bindE (reply_tcp_send_cb (0, F_w) (sending [7, 8, 9] (- 2) (\<lambda>i. if i = 0 then 2 else 3))) (reply_tcp_send_cb (0, F_w)) = Inr s'
     \<and> trace s' = [Send 9 [0, 3] 2, Send 9 [7, 8, 9] 3, Close 9]"
  using tcp_send_frame [of "sending [7, 8, 9] (- 2) (\<lambda>i. if i = 0 then 2 else 3)" "(0, F_w)" 9 _ "[7, 8, 9]" True]
  by (fastforce simp: reply_tcp_send_cb_def conn_at_def sending_def world_zero_def quiet_def NS_PUT16_def)

text \<open>
  C39. Partial sends are not continued: \<open>ctx->offset\<close> is never advanced, so as long as the kernel takes
  only a part of the message, each call sends the message from its start again; the receiver gets its
  first bytes over and over, and the connection never ends.
\<close>

theorem tcp_send_partial:
  assumes "conn_at s w fd x" "x_msg x = Some m" "x_msglen x = int (length m)" "x_offset x = 0"
    "\<forall>i. calls s \<le> i \<and> i < calls s + k \<longrightarrow> 0 < os_ret (sys s) i \<and> os_ret (sys s) i < int (length m)"
  shows "\<exists>s'. iter k (tcp_send_cb closing w) s = Inr s' \<and> conn_at s' w fd x
    \<and> trace s' = trace s @ map (\<lambda>i. Send fd m (os_ret (sys s) i)) [calls s..<calls s + k]"
  using assms
proof (induction k arbitrary: s)
  case (Suc k)
  obtain io where io: "ios s w = Some io" "ev_fd io = fd" "objs s (fst w) = Some (Dnsmsg x)"
    using Suc.prems(1) by (auto simp: conn_at_def)
  have n: "0 < os_ret (sys s) (calls s)" "os_ret (sys s) (calls s) < int (length m)" using Suc.prems(5) by auto
  define s1 where "s1 = emit (Send fd m (os_ret (sys s) (calls s))) (s\<lparr>calls := calls s + 1\<rparr>)"
  have step: "tcp_send_cb closing w s = Inr s1"
    using io Suc.prems(2-4) n
    by (simp add: tcp_send_cb_def io_of_def dnsmsg_of_def rd_n_def sys_send_def sys_ret_def s1_def)
  have s1: "conn_at s1 w fd x" "sys s1 = sys s" "calls s1 = Suc (calls s)"
    "trace s1 = trace s @ [Send fd m (os_ret (sys s) (calls s))]"
    using Suc.prems(1) by (simp_all add: conn_at_def s1_def emit_def)
  have "\<exists>s'. iter k (tcp_send_cb closing w) s1 = Inr s' \<and> conn_at s' w fd x
      \<and> trace s' = trace s1 @ map (\<lambda>i. Send fd m (os_ret (sys s1) i)) [calls s1..<calls s1 + k]"
    using Suc.prems(2-5) s1 by (intro Suc.IH) auto
  moreover have "[calls s..<calls s + Suc k] = calls s # [Suc (calls s)..<Suc (calls s) + k]" by (simp add: upt_rec)
  ultimately show ?case using step s1 by auto
qed simp

lemma tcp_send_partial_witness:
  "\<exists>s'. iter 3 (reply_tcp_send_cb (0, F_w)) (sending [7, 8, 9] 0 (\<lambda>i. 2)) = Inr s'
     \<and> trace s' = [Send 9 [7, 8, 9] 2, Send 9 [7, 8, 9] 2, Send 9 [7, 8, 9] 2]"
  using tcp_send_partial [of "sending [7, 8, 9] 0 (\<lambda>i. 2)" "(0, F_w)" 9 _ "[7, 8, 9]" 3 True]
  by (fastforce simp: reply_tcp_send_cb_def conn_at_def sending_def world_zero_def quiet_def upt_rec)

text \<open>
  C40. A query over TCP is lost when its message arrives in pieces, however many: each read stores its piece
  at the start of the buffer, over the one before, and compares the length of that piece alone with the
  length of the message. So as long as no single read returns exactly that many bytes, nothing is parsed:
  apart from the buffer and the number of system calls the state is the same as before, no query is added,
  the program's callback is not called, and the connection waits on.
\<close>

theorem query_tcp_split:
  assumes "conn_at s w fd x" "x_msg x = Some m" "length m = NS_PACKETSZ" "x_offset x = 0" "x_msglen x \<noteq> 0"
    "\<forall>i < length ds. os_recv (sys s) (calls s + i) = Some (ds ! i)"
    "\<forall>d \<in> set ds. d \<noteq> [] \<and> length d \<le> NS_PACKETSZ \<and> int (length d) \<noteq> x_msglen x"
  shows "iter (length ds) (query_tcp_recv_cb on_query w) s
    = Inr (set_obj w (Dnsmsg (x\<lparr>x_msg := Some (fold (\<lambda>d m. mem_put m 0 d) ds m)\<rparr>)) (s\<lparr>calls := calls s + length ds\<rparr>))"
  using assms
proof (induction ds arbitrary: s x m)
  case Nil
  then have "objs s (fst w) = Some (Dnsmsg (x\<lparr>x_msg := Some m\<rparr>))" by (cases x) (simp add: conn_at_def)
  then show ?case by (simp add: set_obj_def fun_upd_idem)
next
  case (Cons d ds)
  obtain io where io: "ios s w = Some io" "objs s (fst w) = Some (Dnsmsg x)" "ev_fd io = fd" "w \<in> set (watching (wlist s))"
    using Cons.prems(1) by (auto simp: conn_at_def)
  define x1 where "x1 = x\<lparr>x_msg := Some (mem_put m 0 d)\<rparr>"
  define s1 where "s1 = set_obj w (Dnsmsg x1) (s\<lparr>calls := calls s + 1\<rparr>)"
  have d: "os_recv (sys s) (calls s) = Some d" "d \<noteq> []" "length d \<le> NS_PACKETSZ" "int (length d) \<noteq> x_msglen x"
    using Cons.prems(6) [rule_format, of 0] Cons.prems(7) by auto
  have "query_tcp_recv_cb on_query w s = Inr s1"
    using io d Cons.prems(2-5)
    by (simp add: query_tcp_recv_cb_def io_of_def dnsmsg_of_def sys_recv_def put_at_def Let_def s1_def x1_def)
  moreover have "iter (length ds) (query_tcp_recv_cb on_query w) s1
    = Inr (set_obj w (Dnsmsg (x1\<lparr>x_msg := Some (fold (\<lambda>d m. mem_put m 0 d) ds (mem_put m 0 d))\<rparr>)) (s1\<lparr>calls := calls s1 + length ds\<rparr>))"
  proof (rule Cons.IH)
    show "\<forall>i < length ds. os_recv (sys s1) (calls s1 + i) = Some (ds ! i)"
      using Cons.prems(6) by (auto simp: s1_def set_obj_def dest: spec [of _ "Suc _"])
  qed (use io d Cons.prems in \<open>simp_all add: s1_def x1_def set_obj_def conn_at_def\<close>)
  ultimately show ?case by (simp add: s1_def x1_def set_obj_def)
qed

text \<open>A connection that waits for a message of 21 bytes, and what its reads will return.\<close>

definition receiving :: "byte list list \<Rightarrow> world" where
  "receiving ds = (world_zero (quiet\<lparr>os_recv := (\<lambda>i. if i < length ds then Some (ds ! i) else None)\<rparr>) [])\<lparr>wlist := [Some (0, F_w)],
     brk := 1, objs := [0 \<mapsto> Dnsmsg \<lparr>x_cb = Query_cb, x_msg = Some (replicate NS_PACKETSZ 0), x_msglen = 21, x_offset = 0\<rparr>],
     ios := [(0, F_w) \<mapsto> \<lparr>ev_fd = 9, ev_event = EV_READ, ev_cb = Query_tcp_recv_cb\<rparr>]\<rparr>"

text \<open>A query that is good as a whole, in three pieces.\<close>

definition sample_pieces :: "byte list list" where
  "sample_pieces = [take 12 sample_msg, take 5 (drop 12 sample_msg), drop 17 sample_msg]"

lemma query_tcp_split_witness:
  "ns_parse_query (concat sample_pieces) 21 = Inr ([0x61, CH_dot, 0x62], 1)
    \<and> (\<exists>s'. iter 3 (query_tcp_recv_cb (\<lambda>fn ident s. Inl Abort) (0, F_w)) (receiving sample_pieces) = Inr s'
      \<and> pending (queries s') = [] \<and> trace s' = [] \<and> watching (wlist s') = [(0, F_w)] \<and> calls s' = 3)"
proof
  have "concat sample_pieces = sample_msg" by (simp add: sample_pieces_def sample_msg_def)
  then show "ns_parse_query (concat sample_pieces) 21 = Inr ([0x61, CH_dot, 0x62], 1)" using sample_msg_parse by simp
  define m :: "byte list" where "m = replicate NS_PACKETSZ 0"
  define x where "x = \<lparr>x_cb = Query_cb, x_msg = Some m, x_msglen = 21, x_offset = 0\<rparr>"
  have s: "conn_at (receiving sample_pieces) (0, F_w) 9 x" "length m = NS_PACKETSZ" "x_msg x = Some m" "x_offset x = 0" "x_msglen x = 21"
    "calls (receiving sample_pieces) = 0" "pending (queries (receiving sample_pieces)) = []" "trace (receiving sample_pieces) = []"
    "watching (wlist (receiving sample_pieces)) = [(0, F_w)]" "\<forall>i < length sample_pieces. os_recv (sys (receiving sample_pieces)) i = Some (sample_pieces ! i)"
    by (simp_all add: receiving_def x_def m_def conn_at_def world_zero_def quiet_def del: replicate.simps)
  have d: "\<forall>d \<in> set sample_pieces. d \<noteq> [] \<and> length d \<le> NS_PACKETSZ \<and> int (length d) \<noteq> x_msglen x" "length sample_pieces = 3"
    by (simp_all add: sample_pieces_def sample_msg_def s(5))
  show "\<exists>s'. iter 3 (query_tcp_recv_cb (\<lambda>fn ident s. Inl Abort) (0, F_w)) (receiving sample_pieces) = Inr s'
      \<and> pending (queries s') = [] \<and> trace s' = [] \<and> watching (wlist s') = [(0, F_w)] \<and> calls s' = 3"
    using query_tcp_split [OF s(1,3,2,4) _ _ d(1), where on_query = "\<lambda>fn ident s. Inl Abort"] s d(2)
    by (simp add: set_obj_def)
qed

end
