(* ===== verification/Async.thy ===== *)
theory Async
  imports Utils
begin

text \<open>
  Asynchronous connections, direct or through a SOCKS5 proxy: \<open>async_connect\<close> and the callbacks
  \<open>connect_cb\<close>, \<open>socks5_send_cb\<close> and \<open>socks5_recv_cb\<close> of async_connect.c. The function \<open>ctx->cb\<close> is
  the argument \<open>on_connect\<close>, applied to its name, the socket (or -1), the additional data and the state.
\<close>

section \<open>Connecting\<close>

abbreviation (input) EINPROGRESS :: int where "EINPROGRESS \<equiv> 115"
abbreviation (input) AF_INET :: int where "AF_INET \<equiv> 2"

text \<open>
  The two branches of \<open>async_connect\<close> differ in the address only: that of the SOCKS5 server or that
  of the peer. (In a direct connection the code
  does not store the address in the context, and does not read it either.)
\<close>

definition async_connect ::
  "(user_fn \<Rightarrow> int \<Rightarrow> 16 word \<Rightarrow> world \<Rightarrow> world cres) \<Rightarrow> sockaddr \<Rightarrow> user_fn \<Rightarrow> bool \<Rightarrow> 16 word \<Rightarrow> world \<Rightarrow> world cres"
where
  "async_connect on_connect addr cb via_socks5 data s =
     (case malloc_obj (Async \<lparr>y_state = None, y_socks5 = via_socks5, y_addr = addr, y_cb = cb, y_data = data\<rparr>) s of
        (None, s1) \<Rightarrow> on_connect cb (- 1) data s1
      | (Some a, s1) \<Rightarrow>
          let peer = (if via_socks5 then socks5_server (cfg s1) else addr);
              (sock, s2) = sys_ret s1 in
          if sock < 0 then bindE (free_obj a s2) (on_connect cb (- 1) data)
          else let s2' = stream_options s2;
                   errno = os_errno (sys s2') (calls s2');
                   (r, s3) = sys_ret (emit (Connect sock peer) s2') in
            if r \<noteq> 0 \<and> errno \<noteq> EINPROGRESS then
              bindE (free_obj a (emit (Close sock) s3)) (on_connect cb (- 1) data)
            else bindE (ev_io_init s3 (a, F_write) Connect_cb sock EV_WRITE) (\<lambda>s4. ev_io_start s4 (a, F_write)))"

text \<open>Giving up: close the socket, tell the owner, free the context.\<close>

definition connect_failed ::
  "(user_fn \<Rightarrow> int \<Rightarrow> 16 word \<Rightarrow> world \<Rightarrow> world cres) \<Rightarrow> nat \<Rightarrow> async_ctx \<Rightarrow> int \<Rightarrow> world \<Rightarrow> world cres"
where
  "connect_failed on_connect a ctx fd s =
     bindE (on_connect (y_cb ctx) (- 1) (y_data ctx) (emit (Close fd) s)) (free_obj a)"

text \<open>\<open>connect_cb\<close> of async_connect.c.\<close>

definition async_connect_cb ::
  "(user_fn \<Rightarrow> int \<Rightarrow> 16 word \<Rightarrow> world \<Rightarrow> world cres) \<Rightarrow> wptr \<Rightarrow> world \<Rightarrow> world cres"
where
  "async_connect_cb on_connect w s =
     bindE (io_of w s) (\<lambda>io. bindE (async_of w s) (\<lambda>ctx.
     bindE (ev_io_stop s w) (\<lambda>s1.
     let (err, s2) = getsockerror s1; a = fst w; fd = ev_fd io in
     if err = 0 then
       if y_socks5 ctx then
         bindE (ev_io_init (set_obj w (Async (ctx\<lparr>y_state := Some CLOSED\<rparr>)) s2) (a, F_read) Socks5_recv_cb fd EV_READ) (\<lambda>s3.
         bindE (ev_io_init s3 (a, F_write) Socks5_send_cb fd EV_WRITE) (\<lambda>s4.
           ev_io_start s4 (a, F_write)))
       else bindE (on_connect (y_cb ctx) fd (y_data ctx) s2) (free_obj a)
     else connect_failed on_connect a ctx fd s2)))"

section \<open>The SOCKS5 handshake\<close>

definition socks5_hello :: "byte list" where
  "socks5_hello = [0x05, 0x01, 0x00]"

definition socks5_request :: "sockaddr \<Rightarrow> byte list" where
  "socks5_request addr =
     (if sa_family addr = AF_INET then [0x05, 0x01, 0x00, 0x01] @ take 4 (sa_addr addr) @ take 2 (sa_port addr)
      else [0x05, 0x01, 0x00, 0x04] @ take 16 (sa_addr addr) @ take 2 (sa_port addr))"

text \<open>The first \<open>switch\<close>: what to send in which state, and the next state.\<close>

definition socks5_next :: "async_ctx \<Rightarrow> (byte list \<times> conn_state) option" where
  "socks5_next ctx = (case y_state ctx of
      Some CLOSED \<Rightarrow> Some (socks5_hello, HELLO_SENT)
    | Some HELLO_RCVD \<Rightarrow> Some (socks5_request (y_addr ctx), REQ_SENT)
    | _ \<Rightarrow> None)"

definition socks5_send_cb ::
  "(user_fn \<Rightarrow> int \<Rightarrow> 16 word \<Rightarrow> world \<Rightarrow> world cres) \<Rightarrow> wptr \<Rightarrow> world \<Rightarrow> world cres"
where
  "socks5_send_cb on_connect w s =
     bindE (io_of w s) (\<lambda>io. bindE (async_of w s) (\<lambda>ctx.
     bindE (ev_io_stop s w) (\<lambda>s1.
     case socks5_next ctx of
       None \<Rightarrow> Inl Abort
     | Some (buf, st) \<Rightarrow>
         let ctx' = ctx\<lparr>y_state := Some st\<rparr>; (n, s2) = sys_send (ev_fd io) buf (set_obj w (Async ctx') s1) in
         if n \<noteq> int (length buf) then connect_failed on_connect (fst w) ctx' (ev_fd io) s2
         else ev_io_start s2 (fst w, F_read))))"

text \<open>Bytes that were not received are zero (\<open>bzero(buf, 263)\<close>).\<close>

definition reply_accepted :: "byte list \<Rightarrow> bool" where
  "reply_accepted data \<longleftrightarrow>
     (data @ replicate 263 0) ! 0 = 0x05 \<and> (data @ replicate 263 0) ! 1 = 0x00"

definition socks5_recv_cb ::
  "(user_fn \<Rightarrow> int \<Rightarrow> 16 word \<Rightarrow> world \<Rightarrow> world cres) \<Rightarrow> wptr \<Rightarrow> world \<Rightarrow> world cres"
where
  "socks5_recv_cb on_connect w s =
     bindE (io_of w s) (\<lambda>io. bindE (async_of w s) (\<lambda>ctx.
     bindE (ev_io_stop s w) (\<lambda>s1.
     case sys_recv 263 s1 of
       (None, s2) \<Rightarrow> connect_failed on_connect (fst w) ctx (ev_fd io) s2
     | (Some data, s2) \<Rightarrow>
         if data = [] then connect_failed on_connect (fst w) ctx (ev_fd io) s2
         else (case y_state ctx of
             Some HELLO_SENT \<Rightarrow>
               if \<not> reply_accepted data then connect_failed on_connect (fst w) ctx (ev_fd io) s2
               else ev_io_start (set_obj w (Async (ctx\<lparr>y_state := Some HELLO_RCVD\<rparr>)) s2) (fst w, F_write)
           | Some REQ_SENT \<Rightarrow>
               if \<not> reply_accepted data then connect_failed on_connect (fst w) ctx (ev_fd io) s2
               else bindE (on_connect (y_cb ctx) (ev_fd io) (y_data ctx) s2) (free_obj (fst w))
           | _ \<Rightarrow> Inl Abort))))"

section \<open>The order of the states\<close>

text \<open>The handshake goes through its states in this order and never back.\<close>

primrec conn_rank :: "conn_state \<Rightarrow> nat" where
  "conn_rank CLOSED = 0"
| "conn_rank HELLO_SENT = 1"
| "conn_rank HELLO_RCVD = 2"
| "conn_rank REQ_SENT = 3"
| "conn_rank ESTAB = 4"

lemma conn_rank_inj: "conn_rank x = conn_rank y \<Longrightarrow> x = y"
  by (cases x; cases y) simp_all

instantiation conn_state :: linorder
begin

definition less_eq_conn_state :: "conn_state \<Rightarrow> conn_state \<Rightarrow> bool" where
  "less_eq_conn_state x y \<longleftrightarrow> conn_rank x \<le> conn_rank y"

definition less_conn_state :: "conn_state \<Rightarrow> conn_state \<Rightarrow> bool" where
  "less_conn_state x y \<longleftrightarrow> conn_rank x < conn_rank y"

instance
  by standard (auto simp: less_eq_conn_state_def less_conn_state_def intro: conn_rank_inj)

end

lemma socks5_next_forward: "socks5_next ctx = Some (buf, st) \<Longrightarrow> \<exists>st0. y_state ctx = Some st0 \<and> st0 < st"
  by (auto simp: socks5_next_def less_conn_state_def split: option.splits conn_state.splits)

section \<open>The invariant\<close>

text \<open>
  What the owner of a connection promises: its callback keeps the invariant, whether it gets a
  socket or -1.
\<close>

locale connect_client =
  fixes on_connect :: "user_fn \<Rightarrow> int \<Rightarrow> 16 word \<Rightarrow> world \<Rightarrow> world cres"
  assumes on_connect_inv: "winv env k L s \<Longrightarrow> sock > 0 \<or> sock = - 1 \<Longrightarrow>
    outcome stops (winv env k L) (on_connect Connected_cb sock data s)"
begin

lemma connect_done_inv:
  assumes "winv env k (add_mset a L) s" "y_cb ctx = Connected_cb" "fd > 0"
  shows "outcome stops (winv env k L) (bindE (on_connect (y_cb ctx) fd (y_data ctx) s) (free_obj a))"
    "outcome stops (winv env k L) (connect_failed on_connect a ctx fd s)"
proof -
  show "outcome stops (winv env k L) (bindE (on_connect (y_cb ctx) fd (y_data ctx) s) (free_obj a))"
    unfolding assms(2) by (rule outcome_bindE [OF on_connect_inv [OF assms(1)]]) (use assms(3) winv_free in auto)
  have "winv env k (add_mset a L) (emit (Close fd) s)" using assms(1) by simp
  then show "outcome stops (winv env k L) (connect_failed on_connect a ctx fd s)"
    unfolding connect_failed_def assms(2) by (rule outcome_bindE [OF on_connect_inv]) (use winv_free in auto)
qed

lemma async_connect_inv:
  assumes "winv env k L s"
  shows "outcome stops (winv env k L) (async_connect on_connect addr Connected_cb via data s)"
proof -
  let ?y = "\<lparr>y_state = None, y_socks5 = via, y_addr = addr, y_cb = Connected_cb, y_data = data\<rparr>"
  obtain r s1 where r: "malloc_obj (Async ?y) s = (r, s1)" by fastforce
  show ?thesis
  proof (cases r)
    case None
    then show ?thesis
      using on_connect_inv [OF winv_malloc_obj_None [OF r [unfolded None] assms]] r by (simp add: async_connect_def)
  next
    case (Some a)
    note s1 = winv_malloc_obj [OF r [unfolded Some] assms]
    define peer where "peer = (if via then socks5_server (cfg s1) else addr)"
    obtain sock s2 where sock: "sys_ret s1 = (sock, s2)" by fastforce
    have s2: "winv env k (add_mset a L) s2" by (rule winv_sys_ret [OF sock s1(1)])
    define s2' where "s2' = stream_options s2"
    have s2': "winv env k (add_mset a L) s2'" "objs s2' = objs s2"
      using winv_stream_options [OF s2] by (simp_all add: s2'_def stream_options_keeps)
    obtain e s3 where e: "sys_ret (emit (Connect sock peer) s2') = (e, s3)" by fastforce
    have s3: "winv env k (add_mset a L) s3" "objs s3 a = Some (Async ?y)"
      using winv_sys_ret [OF e] s1 s2' sock e by (auto simp: sys_ret_def emit_def)
    have fail: "outcome stops (winv env k L) (bindE (free_obj a s') (on_connect Connected_cb (- 1) data))"
      if "winv env k (add_mset a L) s'" for s'
      by (rule outcome_bindE [OF winv_free [OF that]]) (rule on_connect_inv, auto)
    have start: "outcome stops (winv env k L) (bindE (ev_io_init s3 (a, F_write) Connect_cb sock EV_WRITE)
        (\<lambda>s4. ev_io_start s4 (a, F_write)))"
    proof (cases "sock > 0")
      case True
      let ?s4 = "s3\<lparr>ios := (ios s3)((a, F_write) \<mapsto> \<lparr>ev_fd = sock, ev_event = EV_WRITE, ev_cb = Connect_cb\<rparr>)\<rparr>"
      have i: "ev_io_init s3 (a, F_write) Connect_cb sock EV_WRITE = Inr ?s4" "winv env k (add_mset (fst (a, F_write)) L) ?s4"
        using winv_io_init [where w = "(a, F_write)" and L = L and s = s3 and fd = sock and cb = Connect_cb and event = EV_WRITE]
          s3(1) True by simp_all
      have "watch_ok ?s4 (a, F_write)" using s3(2) True by (simp add: watch_ok_def async_ok_def)
      then show ?thesis using winv_start [OF i(2)] by (simp add: i(1))
    qed (simp add: ev_io_init_def)
    show ?thesis
      using fail [OF s2] fail [of "emit (Close sock) s3"] start s3(1) sock e r Some
      by (auto simp: async_connect_def Let_def simp flip: peer_def s2'_def)
  qed
qed

text \<open>The context of a listed watcher, and the state after \<open>ev_io_stop\<close>.\<close>

lemma async_watcher:
  assumes "winv env k L s" "w \<in> set (watching (wlist s))" "ios s w = Some io"
    "ev_cb io \<in> {Connect_cb, Socks5_send_cb, Socks5_recv_cb}"
  obtains y wl where "io_of w s = Inr io" "async_of w s = Inr y" "y_cb y = Connected_cb" "ev_fd io > 0"
    "async_ok s (fst w) y (snd w) io" "ev_io_stop s w = Inr (s\<lparr>wlist := wl, changed := True\<rparr>)"
    "winv env k (add_mset (fst w) L) (s\<lparr>wlist := wl, changed := True\<rparr>)"
proof -
  have ok: "watch_ok s w" by (rule winvD(3) [OF assms(1,2)])
  then obtain y where y: "objs s (fst w) = Some (Async y)" "async_ok s (fst w) y (snd w) io" "ev_fd io > 0"
    using assms(3,4) by (auto simp: watch_ok_def dnsmsg_ok_def split: option.splits obj.splits)
  have "y_cb y = Connected_cb" using y(2) by (simp add: async_ok_def)
  then show ?thesis
    using winv_stop [OF assms(1,2)] that y assms(3) by (simp add: io_of_def async_of_def) blast
qed

lemma async_connect_cb_inv:
  assumes "winv env k L s" "w \<in> set (watching (wlist s))" "ios s w = Some io" "ev_cb io = Connect_cb"
  shows "outcome stops (winv env k L) (async_connect_cb on_connect w s)"
proof -
  obtain y wl where y: "io_of w s = Inr io" "async_of w s = Inr y" "y_cb y = Connected_cb" "ev_fd io > 0"
    "ev_io_stop s w = Inr (s\<lparr>wlist := wl, changed := True\<rparr>)"
    "winv env k (add_mset (fst w) L) (s\<lparr>wlist := wl, changed := True\<rparr>)"
    using async_watcher [OF assms(1-3)] assms(4) by blast
  obtain e s2 where e: "getsockerror (s\<lparr>wlist := wl, changed := True\<rparr>) = (e, s2)" by fastforce
  have s2: "winv env k (add_mset (fst w) L) s2" by (rule winv_getsockerror [OF e y(6)])
  let ?a = "fst w" and ?fd = "ev_fd io"
  let ?s3 = "set_obj w (Async (y\<lparr>y_state := Some CLOSED\<rparr>)) s2"
  let ?s4 = "?s3\<lparr>ios := (ios ?s3)((?a, F_read) \<mapsto> \<lparr>ev_fd = ?fd, ev_event = EV_READ, ev_cb = Socks5_recv_cb\<rparr>)\<rparr>"
  let ?s5 = "?s4\<lparr>ios := (ios ?s4)((?a, F_write) \<mapsto> \<lparr>ev_fd = ?fd, ev_event = EV_WRITE, ev_cb = Socks5_send_cb\<rparr>)\<rparr>"
  have s3: "winv env k (add_mset ?a L) ?s3" by (rule winv_set_obj [OF s2])
  have i4: "ev_io_init ?s3 (?a, F_read) Socks5_recv_cb ?fd EV_READ = Inr ?s4" "winv env k (add_mset ?a L) ?s4"
    using winv_io_init [where w = "(?a, F_read)" and L = L and s = ?s3 and fd = ?fd and cb = Socks5_recv_cb and event = EV_READ]
      s3 y(4) by simp_all
  have i5: "ev_io_init ?s4 (?a, F_write) Socks5_send_cb ?fd EV_WRITE = Inr ?s5" "winv env k (add_mset (fst (?a, F_write)) L) ?s5"
    using winv_io_init [where w = "(?a, F_write)" and L = L and s = ?s4 and fd = ?fd and cb = Socks5_send_cb and event = EV_WRITE]
      i4(2) y(4) by simp_all
  have "watch_ok ?s5 (?a, F_write)" using y(3,4) by (simp add: watch_ok_def async_ok_def set_obj_def)
  then have "outcome stops (winv env k L) (ev_io_start ?s5 (?a, F_write))" by (rule winv_start [OF i5(2)])
  then show ?thesis
    using connect_done_inv [OF s2 y(3,4)] y e i4(1) i5(1) by (simp add: async_connect_cb_def Let_def)
qed

lemma socks5_send_inv:
  assumes "winv env k L s" "w \<in> set (watching (wlist s))" "ios s w = Some io" "ev_cb io = Socks5_send_cb"
  shows "outcome stops (winv env k L) (socks5_send_cb on_connect w s)"
proof -
  obtain y wl where y: "io_of w s = Inr io" "async_of w s = Inr y" "y_cb y = Connected_cb" "ev_fd io > 0"
    "async_ok s (fst w) y (snd w) io" "ev_io_stop s w = Inr (s\<lparr>wlist := wl, changed := True\<rparr>)"
    "winv env k (add_mset (fst w) L) (s\<lparr>wlist := wl, changed := True\<rparr>)"
    using async_watcher [OF assms(1-3)] assms(4) by blast
  have f: "snd w = F_write" "y_state y \<in> {Some CLOSED, Some HELLO_RCVD}"
    "ios s (fst w, F_read) = Some \<lparr>ev_fd = ev_fd io, ev_event = EV_READ, ev_cb = Socks5_recv_cb\<rparr>"
    and ev: "ev_event io = EV_WRITE"
    using y(5) assms(4) by (auto simp: async_ok_def)
  obtain buf st where nxt: "socks5_next y = Some (buf, st)" "st \<in> {HELLO_SENT, REQ_SENT}"
    using f(2) by (auto simp: socks5_next_def)
  let ?y = "y\<lparr>y_state := Some st\<rparr>"
  let ?s1 = "set_obj w (Async ?y) (s\<lparr>wlist := wl, changed := True\<rparr>)"
  obtain n s2 where n: "sys_send (ev_fd io) buf ?s1 = (n, s2)" by fastforce
  have s2: "winv env k (add_mset (fst w) L) s2" by (rule winv_sys_send [OF n winv_set_obj [OF y(7)]])
  have keep: "ios s2 = ios s" "objs s2 (fst w) = Some (Async ?y)"
    using n by (auto simp: sys_send_def sys_ret_def emit_def set_obj_def)
  have io: "ios s (fst w, F_write) = Some io" using assms(3) f(1) by (cases w) auto
  have ev: "io = \<lparr>ev_fd = ev_fd io, ev_event = EV_WRITE, ev_cb = Socks5_send_cb\<rparr>" using assms(4) ev by (cases io) auto
  have "watch_ok s2 (fst w, F_read)"
    using keep f(3) y(3,4) nxt(2) io ev by (auto simp: watch_ok_def async_ok_def)
  then have "outcome stops (winv env k L) (ev_io_start s2 (fst w, F_read))"
    using winv_start [of env k "(fst w, F_read)"] s2 by simp
  moreover have "outcome stops (winv env k L) (connect_failed on_connect (fst w) ?y (ev_fd io) s2)"
    by (rule connect_done_inv(2) [OF s2]) (simp_all add: y(3,4))
  ultimately show ?thesis using y nxt(1) n by (simp add: socks5_send_cb_def Let_def)
qed

lemma socks5_recv_inv:
  assumes "winv env k L s" "w \<in> set (watching (wlist s))" "ios s w = Some io" "ev_cb io = Socks5_recv_cb"
  shows "outcome stops (winv env k L) (socks5_recv_cb on_connect w s)"
proof -
  obtain y wl where y: "io_of w s = Inr io" "async_of w s = Inr y" "y_cb y = Connected_cb" "ev_fd io > 0"
    "async_ok s (fst w) y (snd w) io" "ev_io_stop s w = Inr (s\<lparr>wlist := wl, changed := True\<rparr>)"
    "winv env k (add_mset (fst w) L) (s\<lparr>wlist := wl, changed := True\<rparr>)"
    using async_watcher [OF assms(1-3)] assms(4) by blast
  have f: "snd w = F_read" "y_state y \<in> {Some HELLO_SENT, Some REQ_SENT}"
    "ios s (fst w, F_write) = Some \<lparr>ev_fd = ev_fd io, ev_event = EV_WRITE, ev_cb = Socks5_send_cb\<rparr>"
    and ev: "ev_event io = EV_READ"
    using y(5) assms(4) by (auto simp: async_ok_def)
  let ?s1 = "s\<lparr>wlist := wl, changed := True\<rparr>"
  obtain r s2 where r: "sys_recv 263 ?s1 = (r, s2)" by fastforce
  have s2: "winv env k (add_mset (fst w) L) s2" using winv_sys_recv [OF r y(7)] by simp
  have ios: "ios s2 = ios s" using r by (auto simp: sys_recv_def)
  let ?s3 = "set_obj w (Async (y\<lparr>y_state := Some HELLO_RCVD\<rparr>)) s2"
  have "ios s (fst w, F_read) = Some io" using assms(3) f(1) by (cases w) auto
  moreover have "io = \<lparr>ev_fd = ev_fd io, ev_event = EV_READ, ev_cb = Socks5_recv_cb\<rparr>" using assms(4) ev by (cases io) auto
  ultimately have "watch_ok ?s3 (fst w, F_write)"
    using ios f(3) y(3,4) by (auto simp: watch_ok_def async_ok_def set_obj_def)
  then have "outcome stops (winv env k L) (ev_io_start ?s3 (fst w, F_write))"
    using winv_start [of env k "(fst w, F_write)"] winv_set_obj [OF s2] by simp
  then show ?thesis
    using connect_done_inv [OF s2 y(3,4)] y(1,2,6) f(2) r by (auto simp: socks5_recv_cb_def split: option.split)
qed

end

section \<open>Properties\<close>

text \<open>A connection to the SOCKS5 server: its context and both watchers.\<close>

definition shaking :: "world \<Rightarrow> nat \<Rightarrow> int \<Rightarrow> async_ctx \<Rightarrow> bool" where
  "shaking s a fd y \<longleftrightarrow> objs s a = Some (Async y)
     \<and> ios s (a, F_write) = Some \<lparr>ev_fd = fd, ev_event = EV_WRITE, ev_cb = Socks5_send_cb\<rparr>
     \<and> ios s (a, F_read) = Some \<lparr>ev_fd = fd, ev_event = EV_READ, ev_cb = Socks5_recv_cb\<rparr>"

text \<open>What the steps here leave alone.\<close>

definition kept :: "world \<Rightarrow> world \<Rightarrow> bool" where
  "kept s s' \<longleftrightarrow> cfg s' = cfg s \<and> queries s' = queries s \<and> htab s' = htab s \<and> rnds s' = rnds s \<and> trace s' = trace s \<and> sys s' = sys s"

text \<open>A watcher that was stopped leaves a slot for another.\<close>

lemma stop_then_start:
  assumes "mset (watching wl) = add_mset w M"
  obtains wl' wl'' where "stop_loop wl w = Some wl'" "mset (watching wl') = M" "length wl' = length wl"
    "start_loop wl' v = Some wl''" "mset (watching wl'') = add_mset v M" "length wl'' = length wl"
proof -
  have "w \<in># mset (watching wl)" using assms by simp
  then have "w \<in> set (watching wl)" by simp
  then obtain wl' where wl': "stop_loop wl w = Some wl'" using stop_loop_None [of wl w] by auto
  note stop = stop_loop_Some [OF wl']
  have "length (watching wl) = Suc (length (watching wl'))" using stop by (metis size_add_mset size_mset)
  then have "length (watching wl') \<noteq> length wl'" using length_watching [of wl] stop by simp
  then obtain wl'' where wl'': "start_loop wl' v = Some wl''" using start_loop_None [of wl' v] by auto
  show ?thesis using that [OF wl' _ _ wl''] stop start_loop_Some [OF wl''] assms by simp
qed

lemma socks5_send_step:
  assumes "shaking s a fd y" "mset (watching (wlist s)) = add_mset (a, F_write) M" "socks5_next y = Some (buf, st)"
    "os_ret (sys s) (calls s) = int (length buf)"
  shows "\<exists>s'. socks5_send_cb on_connect (a, F_write) s = Inr s' \<and> shaking s' a fd (y\<lparr>y_state := Some st\<rparr>)
    \<and> mset (watching (wlist s')) = add_mset (a, F_read) M \<and> length (wlist s') = length (wlist s)
    \<and> kept (s\<lparr>trace := trace s @ [Send fd buf (int (length buf))]\<rparr>) s' \<and> calls s' = calls s + 1 \<and> brk s' = brk s"
proof -
  obtain wl wl' where wl: "stop_loop (wlist s) (a, F_write) = Some wl" "start_loop wl (a, F_read) = Some wl'"
    "mset (watching wl') = add_mset (a, F_read) M" "length wl' = length (wlist s)"
    by (rule stop_then_start [OF assms(2)])
  then show ?thesis
    using assms(1,3,4)
    by (simp add: socks5_send_cb_def io_of_def async_of_def shaking_def ev_io_stop_def ev_io_start_def set_obj_def
        sys_send_def sys_ret_def emit_def kept_def)
qed

lemma socks5_recv_step:
  assumes "shaking s a fd y" "mset (watching (wlist s)) = add_mset (a, F_read) M" "y_state y = Some HELLO_SENT"
    "os_recv (sys s) (calls s) = Some data" "data \<noteq> []" "length data \<le> 263" "reply_accepted data"
  shows "\<exists>s'. socks5_recv_cb on_connect (a, F_read) s = Inr s' \<and> shaking s' a fd (y\<lparr>y_state := Some HELLO_RCVD\<rparr>)
    \<and> mset (watching (wlist s')) = add_mset (a, F_write) M \<and> length (wlist s') = length (wlist s) \<and> kept s s'
    \<and> calls s' = calls s + 1 \<and> brk s' = brk s"
proof -
  obtain wl wl' where wl: "stop_loop (wlist s) (a, F_read) = Some wl" "start_loop wl (a, F_write) = Some wl'"
    "mset (watching wl') = add_mset (a, F_write) M" "length wl' = length (wlist s)"
    by (rule stop_then_start [OF assms(2)])
  then show ?thesis
    using assms(1,3-7)
    by (simp add: socks5_recv_cb_def io_of_def async_of_def shaking_def ev_io_stop_def ev_io_start_def set_obj_def sys_recv_def kept_def)
qed

lemma socks5_done_step:
  assumes "shaking s a fd y" "mset (watching (wlist s)) = add_mset (a, F_read) M" "y_state y = Some REQ_SENT"
    "os_recv (sys s) (calls s) = Some data" "data \<noteq> []" "length data \<le> 263" "reply_accepted data"
  shows "\<exists>s'. socks5_recv_cb on_connect (a, F_read) s = bindE (on_connect (y_cb y) fd (y_data y) s') (free_obj a)
    \<and> objs s' a = Some (Async y) \<and> mset (watching (wlist s')) = M \<and> length (wlist s') = length (wlist s) \<and> kept s s'
    \<and> calls s' = calls s + 1 \<and> brk s' = brk s"
proof -
  obtain wl where wl: "stop_loop (wlist s) (a, F_read) = Some wl" "mset (watching wl) = M" "length wl = length (wlist s)"
    by (rule stop_then_start [OF assms(2)])
  then show ?thesis
    using assms(1,3-7)
    by (intro exI [of _ "s\<lparr>wlist := wl, changed := True, calls := calls s + 1\<rparr>"])
      (simp add: socks5_recv_cb_def io_of_def async_of_def shaking_def ev_io_stop_def sys_recv_def kept_def)
qed

text \<open>
  C10. The SOCKS5 handshake: once the connection to the proxy is there, the program sends the greeting,
  waits for a reply that accepts it, sends the request to connect to the server, waits for a reply that
  accepts that, and hands the socket with the query's id to the owner. A reply counts as accepted by
  its first two bytes, and as missing bytes are zero, one byte is enough.
\<close>

theorem socks5_handshake:
  assumes "shaking s a fd y" "(a, F_write) \<in> set (watching (wlist s))" "y_state y = Some CLOSED"
    "os_ret (sys s) (calls s) = 3" "os_recv (sys s) (calls s + 1) = Some d1" "d1 \<noteq> []" "length d1 \<le> 263" "reply_accepted d1"
    "os_ret (sys s) (calls s + 2) = int (length (socks5_request (y_addr y)))"
    "os_recv (sys s) (calls s + 3) = Some d2" "d2 \<noteq> []" "length d2 \<le> 263" "reply_accepted d2"
  shows "\<exists>s'. bindE (socks5_send_cb on_connect (a, F_write) s) (\<lambda>s1. bindE (socks5_recv_cb on_connect (a, F_read) s1)
      (\<lambda>s2. bindE (socks5_send_cb on_connect (a, F_write) s2) (socks5_recv_cb on_connect (a, F_read))))
      = bindE (on_connect (y_cb y) fd (y_data y) s') (free_obj a)
    \<and> trace s' = trace s @ [Send fd [5, 1, 0] 3, Send fd (socks5_request (y_addr y)) (int (length (socks5_request (y_addr y))))]
    \<and> queries s' = queries s"
proof -
  obtain M where "mset (watching (wlist s)) = add_mset (a, F_write) M"
    using assms(2) by (metis in_multiset_in_set multi_member_split)
  moreover have "socks5_next y = Some ([5, 1, 0], HELLO_SENT)" using assms(3) by (simp add: socks5_next_def socks5_hello_def)
  ultimately obtain s1 where s1: "socks5_send_cb on_connect (a, F_write) s = Inr s1" "shaking s1 a fd (y\<lparr>y_state := Some HELLO_SENT\<rparr>)"
    "mset (watching (wlist s1)) = add_mset (a, F_read) M" "kept (s\<lparr>trace := trace s @ [Send fd [5, 1, 0] 3]\<rparr>) s1" "calls s1 = calls s + 1"
    using socks5_send_step [OF assms(1), of M _ _ on_connect] assms(4) by auto
  obtain s2 where s2: "socks5_recv_cb on_connect (a, F_read) s1 = Inr s2" "shaking s2 a fd (y\<lparr>y_state := Some HELLO_RCVD\<rparr>)"
    "mset (watching (wlist s2)) = add_mset (a, F_write) M" "kept s1 s2" "calls s2 = calls s + 2"
    using socks5_recv_step [OF s1(2,3), of d1 on_connect] assms(5-8) s1(4,5) by (auto simp: kept_def)
  let ?r = "socks5_request (y_addr y)"
  have "socks5_next (y\<lparr>y_state := Some HELLO_RCVD\<rparr>) = Some (?r, REQ_SENT)" by (simp add: socks5_next_def)
  from socks5_send_step [OF s2(2,3) this, of on_connect] assms(9) s1(4) s2(4,5)
  obtain s3 where s3: "socks5_send_cb on_connect (a, F_write) s2 = Inr s3" "shaking s3 a fd (y\<lparr>y_state := Some REQ_SENT\<rparr>)"
    "mset (watching (wlist s3)) = add_mset (a, F_read) M" "kept (s2\<lparr>trace := trace s2 @ [Send fd ?r (int (length ?r))]\<rparr>) s3"
    "calls s3 = calls s + 3"
    by (auto simp: kept_def)
  obtain s4 where "socks5_recv_cb on_connect (a, F_read) s3 = bindE (on_connect (y_cb y) fd (y_data y) s4) (free_obj a)" "kept s3 s4"
    using socks5_done_step [OF s3(2,3), of d2 on_connect] assms(10-13) s1(4) s2(4) s3(4,5) by (auto simp: kept_def)
  then show ?thesis using s1(1,4) s2(1,4) s3(1,4) by (auto simp: kept_def)
qed

text \<open>The proxy's second reply is cut off after one byte here.\<close>

lemma socks5_handshake_witness:
  "\<exists>s s'. bindE (socks5_send_cb (\<lambda>fn fd x. Inr) (3, F_write) s) (\<lambda>s1. bindE (socks5_recv_cb (\<lambda>fn fd x. Inr) (3, F_read) s1)
      (\<lambda>s2. bindE (socks5_send_cb (\<lambda>fn fd x. Inr) (3, F_write) s2) (socks5_recv_cb (\<lambda>fn fd x. Inr) (3, F_read)))) = free_obj 3 s'
    \<and> os_recv (sys s) 3 = Some [5] \<and> trace s' = [Send 9 [5, 1, 0] 3, Send 9 [5, 1, 0, 1, 8, 8, 4, 4, 0, 53] 10]"
proof -
  define y where "y = \<lparr>y_state = Some CLOSED, y_socks5 = True,
    y_addr = \<lparr>sa_family = AF_INET, sa_port = [0, 53], sa_addr = [8, 8, 4, 4]\<rparr>, y_cb = Connected_cb, y_data = 7\<rparr>"
  define s where "s = (world_zero (quiet\<lparr>os_ret := (\<lambda>i. if i = 0 then 3 else 10), os_recv := (\<lambda>i. Some (if i = 1 then [5, 0] else [5]))\<rparr>) [])
    \<lparr>wlist := [Some (3, F_write)], objs := [3 \<mapsto> Async y],
     ios := [(3, F_write) \<mapsto> \<lparr>ev_fd = 9, ev_event = EV_WRITE, ev_cb = Socks5_send_cb\<rparr>,
             (3, F_read) \<mapsto> \<lparr>ev_fd = 9, ev_event = EV_READ, ev_cb = Socks5_recv_cb\<rparr>]\<rparr>"
  have r: "socks5_request (y_addr y) = [5, 1, 0, 1, 8, 8, 4, 4, 0, 53]" "y_state y = Some CLOSED" "y_cb y = Connected_cb"
    by (simp_all add: y_def socks5_request_def)
  have "shaking s 3 9 y" "(3, F_write) \<in> set (watching (wlist s))"
    by (simp_all add: s_def shaking_def)
  note go = socks5_handshake [OF this r(2), of "[5, 0]" "[5]" "\<lambda>fn fd x. Inr"]
  have "reply_accepted [5, 0]" "reply_accepted [5]" by (simp_all add: reply_accepted_def)
  then have "\<exists>s'. bindE (socks5_send_cb (\<lambda>fn fd x. Inr) (3, F_write) s) (\<lambda>s1. bindE (socks5_recv_cb (\<lambda>fn fd x. Inr) (3, F_read) s1)
      (\<lambda>s2. bindE (socks5_send_cb (\<lambda>fn fd x. Inr) (3, F_write) s2) (socks5_recv_cb (\<lambda>fn fd x. Inr) (3, F_read)))) = free_obj 3 s'
    \<and> trace s' = [Send 9 [5, 1, 0] 3, Send 9 [5, 1, 0, 1, 8, 8, 4, 4, 0, 53] 10]"
    using go by (auto simp: r s_def world_zero_def quiet_def)
  moreover have "os_recv (sys s) 3 = Some [5]" by (simp add: s_def world_zero_def quiet_def)
  ultimately show ?thesis by blast
qed

end
