(* ===== verification/Conf.thy ===== *)
theory Conf
  imports Prelude
begin

text \<open>
  The configuration of conf.c: the record \<open>conf_t\<close> with its fixed-size character arrays, the bounded
  copy \<open>_strncpy\<close>, the parser of the configuration file \<open>read_conf\<close> and the command line,
  \<open>parse_args\<close>. A file is the list of its bytes. What is printed for the user is left out.
\<close>

section \<open>Character arrays\<close>

text \<open>The C string in an array ends at the first NUL.\<close>

definition str :: "byte list \<Rightarrow> cstr" where
  "str a = takeWhile (\<lambda>c. c \<noteq> 0) a"

definition lit :: "string \<Rightarrow> cstr" where
  "lit s = map of_char s"

text \<open>What the loop of \<open>_strncpy\<close> stores: the string and, if there is room, its NUL.\<close>

fun strncpy_loop :: "nat \<Rightarrow> cstr \<Rightarrow> byte list" where
  "strncpy_loop 0 src = []"
| "strncpy_loop (Suc n) [] = [0]"
| "strncpy_loop (Suc n) (c # src) = c # strncpy_loop n src"

definition my_strncpy :: "byte list \<Rightarrow> cstr \<Rightarrow> byte list" where
  "my_strncpy dest src =
     (let w = strncpy_loop (length dest) src in (w @ drop (length w) dest)[length dest - 1 := 0])"

record server_t =
  addr :: "byte list"
  port :: "byte list"

record conf_t =
  cf_verbose :: bool
  cf_nspresolver :: bool
  cf_daemon :: bool
  cf_user :: "byte list"
  cf_pidfile :: "byte list"
  cf_logfile :: "byte list"
  cf_listen :: server_t
  cf_socks5 :: server_t
  cf_test_server :: server_t
  cf_cn_server :: server_t
  cf_server :: server_t

text \<open>After \<open>bzero(conf, sizeof(conf_t))\<close>.\<close>

definition conf_zero :: conf_t where
  "conf_zero = (let srv = \<lparr>addr = replicate 64 0, port = replicate 16 0\<rparr> in
     \<lparr>cf_verbose = False, cf_nspresolver = False, cf_daemon = False, cf_user = replicate 16 0,
      cf_pidfile = replicate 64 0, cf_logfile = replicate 64 0, cf_listen = srv, cf_socks5 = srv,
      cf_test_server = srv, cf_cn_server = srv, cf_server = srv\<rparr>)"

section \<open>The configuration file\<close>

abbreviation (input) LINE_MAX :: nat where "LINE_MAX \<equiv> 1024"

definition isspace :: "byte \<Rightarrow> bool" where
  "isspace c \<longleftrightarrow> c = 0x20 \<or> 9 \<le> c \<and> c \<le> 13"

text \<open>\<open>fgets\<close>: at most \<open>n\<close> bytes, up to and including the first newline; and the rest of the file.\<close>

fun fgets :: "nat \<Rightarrow> byte list \<Rightarrow> byte list \<times> byte list" where
  "fgets 0 f = ([], f)"
| "fgets (Suc n) [] = ([], [])"
| "fgets (Suc n) (c # f) = (if c = 10 then ([c], f) else let (l, rest) = fgets n f in (c # l, rest))"

lemma fgets_length: "fgets (Suc n) (c # f) = (l, rest) \<Longrightarrow> length rest < Suc (length f)"
proof -
  have "length (snd (fgets n f)) \<le> length f" for n f
    by (induction n f rule: fgets.induct) (auto split: prod.splits)
  then show "fgets (Suc n) (c # f) = (l, rest) \<Longrightarrow> length rest < Suc (length f)"
    by (auto simp: less_Suc_eq_le split: if_splits prod.splits) (metis snd_conv)
qed

definition trim :: "cstr \<Rightarrow> cstr" where
  "trim s = rev (dropWhile isspace (rev (dropWhile isspace s)))"

text \<open>The string before the first \<open>c\<close> and behind it, and before and behind the last \<open>c\<close>.\<close>

definition split_first :: "byte \<Rightarrow> cstr \<Rightarrow> (cstr \<times> cstr) option" where
  "split_first c s = (if c \<in> set s then Some (takeWhile (\<lambda>x. x \<noteq> c) s, tl (dropWhile (\<lambda>x. x \<noteq> c) s)) else None)"

definition split_last :: "byte \<Rightarrow> cstr \<Rightarrow> (cstr \<times> cstr) option" where
  "split_last c s = (case split_first c (rev s) of None \<Rightarrow> None | Some (a, b) \<Rightarrow> Some (rev b, rev a))"

definition set_server :: "server_t \<Rightarrow> cstr \<Rightarrow> int + server_t" where
  "set_server srv value = (case split_last 0x3A value of
      None \<Rightarrow> Inl (- 1)
    | Some (a, p) \<Rightarrow> Inr (srv\<lparr>addr := my_strncpy (addr srv) a, port := my_strncpy (port srv) p\<rparr>))"

definition set_key :: "conf_t \<Rightarrow> cstr \<Rightarrow> cstr \<Rightarrow> int + conf_t" where
  "set_key conf key value =
     (if key = lit ''user'' then Inr (conf\<lparr>cf_user := my_strncpy (cf_user conf) value\<rparr>)
      else if key = lit ''listen'' then map_sum id (\<lambda>v. conf\<lparr>cf_listen := v\<rparr>) (set_server (cf_listen conf) value)
      else if key = lit ''test_server'' then
        map_sum id (\<lambda>v. conf\<lparr>cf_test_server := v\<rparr>) (set_server (cf_test_server conf) value)
      else if key = lit ''cn_server'' then
        map_sum id (\<lambda>v. conf\<lparr>cf_cn_server := v\<rparr>) (set_server (cf_cn_server conf) value)
      else if key = lit ''server'' then map_sum id (\<lambda>v. conf\<lparr>cf_server := v\<rparr>) (set_server (cf_server conf) value)
      else if key = lit ''socks5'' then map_sum id (\<lambda>v. conf\<lparr>cf_socks5 := v\<rparr>) (set_server (cf_socks5 conf) value)
      else Inr conf)"

text \<open>One line: blank lines and comments are skipped, a line without \<open>=\<close> is an error.\<close>

definition conf_line :: "conf_t \<Rightarrow> cstr \<Rightarrow> int + conf_t" where
  "conf_line conf line =
     (let l = trim line in
      if l = [] \<or> hd l = 0x23 then Inr conf
      else case split_first 0x3D l of None \<Rightarrow> Inl (- 1) | Some (key, value) \<Rightarrow> set_key conf key value)"

function conf_lines :: "byte list \<Rightarrow> conf_t \<Rightarrow> int + conf_t" where
  "conf_lines [] conf = Inr conf"
| "conf_lines (c # f) conf = (case fgets (LINE_MAX - 1) (c # f) of
      (l, rest) \<Rightarrow> (case conf_line conf (str l) of Inl e \<Rightarrow> Inl e | Inr conf' \<Rightarrow> conf_lines rest conf'))"
  by pat_completeness auto
termination
  by (relation "measure (\<lambda>(f, conf). length f)") (auto dest!: fgets_length [where n = 1022, simplified, OF sym])

text \<open>\<open>read_conf\<close> on the contents of the file, if it can be opened.\<close>

definition read_conf :: "byte list option \<Rightarrow> conf_t \<Rightarrow> int + conf_t" where
  "read_conf file conf = (case file of None \<Rightarrow> Inl (- 1) | Some f \<Rightarrow> conf_lines f conf)"

section \<open>The command line\<close>

fun args_loop :: "cstr list \<Rightarrow> conf_t \<Rightarrow> cstr option \<Rightarrow> int + conf_t \<times> cstr option" where
  "args_loop [] conf file = Inr (conf, file)"
| "args_loop (a # args) conf file =
     (if a = lit ''-h'' \<or> a = lit ''--help'' then Inl (- 1)
      else if a = lit ''-c'' \<or> a = lit ''--config'' then
        (case args of [] \<Rightarrow> Inl 1 | x # rest \<Rightarrow> args_loop rest conf (Some x))
      else if a = lit ''-d'' \<or> a = lit ''--daemon'' then args_loop args (conf\<lparr>cf_daemon := True\<rparr>) file
      else if a = lit ''--pidfile'' then
        (case args of [] \<Rightarrow> Inl 1
         | x # rest \<Rightarrow> args_loop rest (conf\<lparr>cf_pidfile := my_strncpy (cf_pidfile conf) x\<rparr>) file)
      else if a = lit ''--logfile'' then
        (case args of [] \<Rightarrow> Inl 1
         | x # rest \<Rightarrow> args_loop rest (conf\<lparr>cf_logfile := my_strncpy (cf_logfile conf) x\<rparr>) file)
      else if a = lit ''-v'' \<or> a = lit ''--verbose'' then args_loop args (conf\<lparr>cf_verbose := True\<rparr>) file
      else if a = lit ''-u'' \<or> a = lit ''--nspresolver'' then args_loop args (conf\<lparr>cf_nspresolver := True\<rparr>) file
      else Inl (- 1))"

text \<open>\<open>strcpy(dest, src)\<close> into an array, and a default for a string that is empty.\<close>

definition copy_str :: "byte list \<Rightarrow> cstr \<Rightarrow> byte list" where
  "copy_str dest src = src @ 0 # drop (length src + 1) dest"

definition default :: "string \<Rightarrow> byte list \<Rightarrow> byte list" where
  "default s a = (if hd a = 0 then copy_str a (lit s) else a)"

definition default_server :: "string \<Rightarrow> string \<Rightarrow> server_t \<Rightarrow> server_t" where
  "default_server a p srv = srv\<lparr>addr := default a (addr srv), port := default p (port srv)\<rparr>"

definition set_defaults :: "conf_t \<Rightarrow> conf_t" where
  "set_defaults conf = conf\<lparr>
     cf_pidfile := default ''/run/sans.pid'' (cf_pidfile conf),
     cf_logfile := default ''/var/log/sans.log'' (cf_logfile conf),
     cf_listen := default_server ''127.0.0.1'' ''53'' (cf_listen conf),
     cf_test_server := default_server ''8.8.8.8'' ''53'' (cf_test_server conf),
     cf_cn_server := default_server ''114.114.114.114'' ''53'' (cf_cn_server conf),
     cf_server := default_server ''8.8.4.4'' ''53'' (cf_server conf)\<rparr>"

text \<open>\<open>parse_args\<close> on the arguments behind the program's name; \<open>files\<close> are the files that can be opened.\<close>

definition parse_args :: "(cstr \<Rightarrow> byte list option) \<Rightarrow> cstr list \<Rightarrow> int + conf_t" where
  "parse_args files args = (case args_loop args conf_zero None of
      Inl e \<Rightarrow> Inl e
    | Inr (conf, file) \<Rightarrow>
        (case file of None \<Rightarrow> Inr (set_defaults conf)
         | Some name \<Rightarrow> (case read_conf (files name) conf of Inl e \<Rightarrow> Inl (- 1) | Inr conf' \<Rightarrow> Inr (set_defaults conf'))))"

section \<open>Copies and lines\<close>

lemma strncpy_loop_eq: "strncpy_loop n src = take n src @ (if length src < n then [0] else [])"
  by (induction n src rule: strncpy_loop.induct) auto

text \<open>\<open>_strncpy\<close> keeps the size of the array, and stores the string cut to what fits with its NUL.\<close>

lemma my_strncpy_eq:
  assumes "dest \<noteq> []"
  shows "\<exists>junk. my_strncpy dest src = take (length dest - 1) src @ 0 # junk"
proof -
  obtain n where n: "length dest = Suc n" using assms by (cases dest) auto
  show ?thesis
  proof (cases "length src \<le> n")
    case True
    then obtain r where "my_strncpy dest src = (src @ 0 # r)[n := 0]"
      by (auto simp: my_strncpy_def strncpy_loop_eq n less_Suc_eq_le)
    also have "\<dots> = src @ (0 # r)[n - length src := 0]" using True by (simp add: list_update_append)
    finally show ?thesis using True by (cases "n - length src") (auto simp: n)
  next
    case False
    then have "my_strncpy dest src = (take (Suc n) src)[n := 0]"
      by (simp add: my_strncpy_def strncpy_loop_eq n)
    also have "\<dots> = take n src @ [0]"
      using False by (simp add: take_Suc_conv_app_nth list_update_append)
    finally show ?thesis by (auto simp: n)
  qed
qed

lemma length_my_strncpy [simp]: "length (my_strncpy dest src) = length dest"
  by (auto simp: my_strncpy_def strncpy_loop_eq)

lemma str_append: "0 \<notin> set s \<Longrightarrow> str (s @ 0 # r) = s"
  unfolding str_def by (subst takeWhile_append2) auto

lemma str_my_strncpy: "dest \<noteq> [] \<Longrightarrow> 0 \<notin> set src \<Longrightarrow> str (my_strncpy dest src) = take (length dest - 1) src"
  using my_strncpy_eq [of dest src] str_append [of "take (length dest - 1) src"] in_set_takeD [of 0 "length dest - 1" src]
  by fastforce

text \<open>Arrays of size \<open>n\<close> that hold a terminated string.\<close>

definition arr :: "nat \<Rightarrow> byte list \<Rightarrow> bool" where
  "arr n a \<longleftrightarrow> length a = n \<and> 0 \<in> set a"

definition server_ok :: "server_t \<Rightarrow> bool" where
  "server_ok srv \<longleftrightarrow> arr 64 (addr srv) \<and> arr 16 (port srv)"

definition conf_ok :: "conf_t \<Rightarrow> bool" where
  "conf_ok c \<longleftrightarrow> arr 16 (cf_user c) \<and> arr 64 (cf_pidfile c) \<and> arr 64 (cf_logfile c) \<and> server_ok (cf_listen c)
     \<and> server_ok (cf_socks5 c) \<and> server_ok (cf_test_server c) \<and> server_ok (cf_cn_server c) \<and> server_ok (cf_server c)"

lemma arr_strncpy: "arr n dest \<Longrightarrow> 0 < n \<Longrightarrow> arr n (my_strncpy dest src)"
  using my_strncpy_eq [of dest src] by (auto simp: arr_def)

lemma set_server_ok: "set_server srv v = Inr srv' \<Longrightarrow> server_ok srv \<Longrightarrow> server_ok srv'"
  by (auto simp: set_server_def server_ok_def arr_strncpy split: option.splits)

lemma map_sum_Inr: "map_sum f g x = Inr z \<longleftrightarrow> (\<exists>y. x = Inr y \<and> z = g y)"
  by (cases x) auto

lemma set_key_ok: "set_key conf key v = Inr conf' \<Longrightarrow> conf_ok conf \<Longrightarrow> conf_ok conf'"
  by (auto simp: set_key_def conf_ok_def arr_strncpy map_sum_Inr intro: set_server_ok split: if_splits)

lemma conf_line_ok: "conf_line conf l = Inr conf' \<Longrightarrow> conf_ok conf \<Longrightarrow> conf_ok conf'"
  by (auto simp: conf_line_def Let_def intro: set_key_ok split: if_splits option.splits)

lemma conf_lines_ok: "conf_lines f conf = Inr conf' \<Longrightarrow> conf_ok conf \<Longrightarrow> conf_ok conf'"
proof (induction f conf arbitrary: conf' rule: conf_lines.induct)
  case (2 c f conf)
  then show ?case by (auto split: prod.splits sum.splits dest: conf_line_ok)
qed simp

lemma conf_ok_flags [simp]:
  "conf_ok (c\<lparr>cf_daemon := b\<rparr>) = conf_ok c" "conf_ok (c\<lparr>cf_verbose := b\<rparr>) = conf_ok c"
  "conf_ok (c\<lparr>cf_nspresolver := b\<rparr>) = conf_ok c"
  by (simp_all add: conf_ok_def)

lemma conf_ok_files:
  "conf_ok c \<Longrightarrow> conf_ok (c\<lparr>cf_pidfile := my_strncpy (cf_pidfile c) x\<rparr>)"
  "conf_ok c \<Longrightarrow> conf_ok (c\<lparr>cf_logfile := my_strncpy (cf_logfile c) x\<rparr>)"
  by (simp_all add: conf_ok_def arr_strncpy)

lemma args_loop_step:
  assumes "args_loop (a # as) conf fname = Inr r" "conf_ok conf"
  obtains c f where "args_loop as c f = Inr r" "conf_ok c"
  | x bs c f where "as = x # bs" "args_loop bs c f = Inr r" "conf_ok c"
proof -
  have "(\<exists>c f. args_loop as c f = Inr r \<and> conf_ok c) \<or> (\<exists>x bs c f. as = x # bs \<and> args_loop bs c f = Inr r \<and> conf_ok c)"
  proof (cases as)
    case Nil
    from assms(1) have "\<exists>c f. args_loop [] c f = Inr r \<and> conf_ok c"
      unfolding Nil args_loop.simps(2) [of a "[]"] list.case
      by (simp only: split: if_split_asm)
        ((simp only: sum.distinct; fail) | (intro exI conjI, assumption, simp add: assms(2)))+
    then show ?thesis using Nil by blast
  next
    case (Cons x bs)
    from assms(1) have "(\<exists>c f. args_loop (x # bs) c f = Inr r \<and> conf_ok c) \<or> (\<exists>c f. args_loop bs c f = Inr r \<and> conf_ok c)"
      unfolding Cons args_loop.simps(2) [of a "x # bs"] list.case
      by (simp only: split: if_split_asm)
        ((simp only: sum.distinct; fail)
        | (rule disjI1, intro exI conjI, assumption, simp add: assms(2) conf_ok_files; fail)
        | (rule disjI2, intro exI conjI, assumption, simp add: assms(2) conf_ok_files; fail))+
    then show ?thesis using Cons by blast
  qed
  then show ?thesis using that by blast
qed

lemma args_loop_ok: "args_loop args conf fname = Inr (conf', fname') \<Longrightarrow> conf_ok conf \<Longrightarrow> conf_ok conf'"
proof (induction args arbitrary: conf fname rule: measure_induct_rule [where f = length])
  case (less args)
  show ?case
  proof (cases args)
    case (Cons a as)
    from less.prems [unfolded Cons] show ?thesis
      by (cases rule: args_loop_step) (auto simp: Cons intro: less.IH [rotated])
  qed (use less.prems in simp)
qed

lemma conf_zero_ok: "conf_ok conf_zero"
  by (simp add: conf_ok_def conf_zero_def server_ok_def arr_def Let_def)

lemma default_ok: "arr n a \<Longrightarrow> length s < n \<Longrightarrow> arr n (default s a)"
  by (auto simp: default_def copy_str_def lit_def arr_def)

lemma default_set: "a \<noteq> [] \<Longrightarrow> lit s = c # cs \<Longrightarrow> c \<noteq> 0 \<Longrightarrow> str (default s a) \<noteq> []"
  by (cases a) (auto simp: default_def copy_str_def str_def)

lemma set_defaults_ok: "conf_ok c \<Longrightarrow> conf_ok (set_defaults c)"
  by (simp add: conf_ok_def set_defaults_def server_ok_def default_server_def default_ok)

definition server_set :: "server_t \<Rightarrow> bool" where
  "server_set srv \<longleftrightarrow> str (addr srv) \<noteq> [] \<and> str (port srv) \<noteq> []"

lemma default_server_set:
  assumes "server_ok srv" "lit a = c # cs" "c \<noteq> 0" "lit p = d # ds" "d \<noteq> 0"
  shows "server_set (default_server a p srv)"
proof -
  have "addr srv \<noteq> []" "port srv \<noteq> []" using assms(1) by (auto simp: server_ok_def arr_def)
  then show ?thesis
    using default_set [OF _ assms(2,3)] default_set [OF _ assms(4,5)]
    by (simp add: server_set_def default_server_def)
qed

section \<open>Reading back a file\<close>

definition word :: "cstr \<Rightarrow> bool" where
  "word w \<longleftrightarrow> w \<noteq> [] \<and> (\<forall>c \<in> set w. \<not> isspace c \<and> c \<noteq> 0)"

lemma fgets_line: "10 \<notin> set l \<Longrightarrow> length l < n \<Longrightarrow> fgets n (l @ 10 # rest) = (l @ [10], rest)"
proof (induction l arbitrary: n)
  case Nil
  then show ?case by (cases n) auto
next
  case (Cons c l)
  then show ?case by (cases n) auto
qed

lemma conf_lines_line:
  assumes "10 \<notin> set l" "0 \<notin> set l" "length l < LINE_MAX - 1"
  shows "conf_lines (l @ 10 # rest) conf =
    (case conf_line conf (l @ [10]) of Inl e \<Rightarrow> Inl e | Inr conf' \<Rightarrow> conf_lines rest conf')"
proof -
  obtain c f where cf: "l @ 10 # rest = c # f" by (cases l) auto
  have "str (l @ [10]) = l @ [10]" using assms(2) by (auto simp: str_def)
  then show ?thesis using fgets_line [OF assms(1,3), of rest] by (simp add: cf)
qed

lemma split_first_eq: "c \<notin> set a \<Longrightarrow> split_first c (a @ c # b) = Some (a, b)"
proof -
  assume "c \<notin> set a"
  then have "takeWhile (\<lambda>x. x \<noteq> c) (a @ c # b) = a" "dropWhile (\<lambda>x. x \<noteq> c) (a @ c # b) = c # b"
    by (induction a) auto
  then show ?thesis by (simp add: split_first_def)
qed

lemma split_last_eq: "c \<notin> set b \<Longrightarrow> split_last c (a @ c # b) = Some (a, b)"
  using split_first_eq [of c "rev b" "rev a"] by (simp add: split_last_def)

lemma word_space: "word w \<Longrightarrow> dropWhile isspace (w @ r) = w @ r" "word w \<Longrightarrow> dropWhile isspace (rev w @ r) = rev w @ r"
  by (cases w; auto simp: word_def) (cases w rule: rev_cases; auto simp: word_def)

text \<open>A line \<open>key=value\<close> is read as it was written.\<close>

lemma conf_line_key:
  assumes "word key" "0x3D \<notin> set key" "hd key \<noteq> 0x23" "word v"
  shows "conf_line conf (key @ 0x3D # v @ [10]) = set_key conf key v"
proof -
  have "dropWhile isspace (rev (key @ 0x3D # v @ [10])) = rev v @ 0x3D # rev key"
    using word_space(2) [OF assms(4)] by (simp add: isspace_def)
  then have "trim (key @ 0x3D # v @ [10]) = key @ 0x3D # v"
    using word_space(1) [OF assms(1)] by (simp add: trim_def)
  moreover have "hd (key @ 0x3D # v) \<noteq> 0x23" using assms(1,3) by (simp add: word_def)
  ultimately show ?thesis using split_first_eq [OF assms(2)] by (simp add: conf_line_def)
qed

text \<open>A file with all settings.\<close>

definition server_line :: "string \<Rightarrow> cstr \<times> cstr \<Rightarrow> byte list" where
  "server_line key srv = lit key @ 0x3D # fst srv @ 0x3A # snd srv @ [10]"

definition write_conf ::
  "cstr \<Rightarrow> cstr \<times> cstr \<Rightarrow> cstr \<times> cstr \<Rightarrow> cstr \<times> cstr \<Rightarrow> cstr \<times> cstr \<Rightarrow> cstr \<times> cstr \<Rightarrow> byte list"
where
  "write_conf user listen socks test cn srv =
     (lit ''user'' @ 0x3D # user @ [10]) @ server_line ''listen'' listen @ server_line ''socks5'' socks
     @ server_line ''test_server'' test @ server_line ''cn_server'' cn @ server_line ''server'' srv"

text \<open>Host and port without blanks, short enough for their arrays, and no colon in the port.\<close>

definition writable :: "cstr \<times> cstr \<Rightarrow> bool" where
  "writable srv \<longleftrightarrow> word (fst srv) \<and> word (snd srv) \<and> length (fst srv) < 64 \<and> length (snd srv) < 16 \<and> 0x3A \<notin> set (snd srv)"

definition reads_as :: "server_t \<Rightarrow> cstr \<times> cstr \<Rightarrow> bool" where
  "reads_as srv w \<longleftrightarrow> str (addr srv) = fst w \<and> str (port srv) = snd w"

lemma word_bytes: "word w \<Longrightarrow> 10 \<notin> set w \<and> 0 \<notin> set w"
  by (auto simp: word_def isspace_def)

lemma set_server_written:
  assumes "writable w" "server_ok srv"
  obtains srv' where "set_server srv (fst w @ 0x3A # snd w) = Inr srv'" "reads_as srv' w" "server_ok srv'"
proof -
  have "split_last 0x3A (fst w @ 0x3A # snd w) = Some (fst w, snd w)"
    using assms(1) by (intro split_last_eq) (simp add: writable_def)
  then have r: "set_server srv (fst w @ 0x3A # snd w) =
      Inr (srv\<lparr>addr := my_strncpy (addr srv) (fst w), port := my_strncpy (port srv) (snd w)\<rparr>)"
    by (cases w) (simp add: set_server_def)
  have "reads_as (srv\<lparr>addr := my_strncpy (addr srv) (fst w), port := my_strncpy (port srv) (snd w)\<rparr>) w"
  proof -
    have "addr srv \<noteq> []" "port srv \<noteq> []" using assms(2) by (auto simp: server_ok_def arr_def)
    then show ?thesis
      using assms word_bytes [of "fst w"] word_bytes [of "snd w"]
      by (simp add: reads_as_def writable_def server_ok_def arr_def str_my_strncpy)
  qed
  then show ?thesis using that r set_server_ok [OF r assms(2)] by blast
qed

text \<open>The six keys.\<close>

lemma key_words:
  assumes "key \<in> {''user'', ''listen'', ''socks5'', ''test_server'', ''cn_server'', ''server''}"
  shows "word (lit key)" "0x3D \<notin> set (lit key)" "hd (lit key) \<noteq> 0x23" "length (lit key) \<le> 11"
  using assms by (auto simp: lit_def word_def isspace_def)

lemma set_key_servers:
  "set_key conf (lit ''listen'') v = map_sum id (\<lambda>x. conf\<lparr>cf_listen := x\<rparr>) (set_server (cf_listen conf) v)"
  "set_key conf (lit ''socks5'') v = map_sum id (\<lambda>x. conf\<lparr>cf_socks5 := x\<rparr>) (set_server (cf_socks5 conf) v)"
  "set_key conf (lit ''test_server'') v = map_sum id (\<lambda>x. conf\<lparr>cf_test_server := x\<rparr>) (set_server (cf_test_server conf) v)"
  "set_key conf (lit ''cn_server'') v = map_sum id (\<lambda>x. conf\<lparr>cf_cn_server := x\<rparr>) (set_server (cf_cn_server conf) v)"
  "set_key conf (lit ''server'') v = map_sum id (\<lambda>x. conf\<lparr>cf_server := x\<rparr>) (set_server (cf_server conf) v)"
  by (simp_all add: set_key_def lit_def)

lemma conf_lines_server:
  assumes "key \<in> {''listen'', ''socks5'', ''test_server'', ''cn_server'', ''server''}" "writable w"
  shows "conf_lines (server_line key w @ rest) conf =
    (case set_key conf (lit key) (fst w @ 0x3A # snd w) of Inl e \<Rightarrow> Inl e | Inr conf' \<Rightarrow> conf_lines rest conf')"
proof -
  let ?l = "lit key @ 0x3D # fst w @ 0x3A # snd w"
  have k: "word (lit key)" "0x3D \<notin> set (lit key)" "hd (lit key) \<noteq> 0x23" "length (lit key) \<le> 11"
    using assms(1) key_words by auto
  have v: "word (fst w @ 0x3A # snd w)" using assms(2) by (auto simp: writable_def word_def isspace_def)
  have "length ?l < LINE_MAX - 1" using k(4) assms(2) by (simp add: writable_def)
  then have "conf_lines (?l @ 10 # rest) conf =
      (case conf_line conf (?l @ [10]) of Inl e \<Rightarrow> Inl e | Inr conf' \<Rightarrow> conf_lines rest conf')"
    using word_bytes [OF k(1)] word_bytes [OF v] by (intro conf_lines_line) auto
  then show ?thesis using conf_line_key [OF k(1-3) v, of conf] by (simp add: server_line_def)
qed

section \<open>Properties\<close>

text \<open>
  C37. Whatever the command line and the configuration file hold, the configuration that comes out of
  \<open>parse_args\<close> keeps every array at its size and terminated, and the four servers the program
  needs have an address and a port: no copy overruns its array.
\<close>

theorem parse_args_ok:
  assumes "parse_args files args = Inr conf"
  shows "conf_ok conf \<and> server_set (cf_listen conf) \<and> server_set (cf_test_server conf)
    \<and> server_set (cf_cn_server conf) \<and> server_set (cf_server conf)"
proof -
  obtain c where c: "conf = set_defaults c" "conf_ok c"
  proof -
    obtain a fname where a: "args_loop args conf_zero None = Inr (a, fname)"
      using assms by (auto simp: parse_args_def split: sum.splits)
    note ok = args_loop_ok [OF a conf_zero_ok]
    show ?thesis
    proof (cases fname)
      case None
      then have "conf = set_defaults a" using assms a by (simp add: parse_args_def)
      then show ?thesis using that ok by blast
    next
      case (Some name)
      then obtain f c where "files name = Some f" "conf_lines f a = Inr c" "conf = set_defaults c"
        using assms a by (auto simp: parse_args_def read_conf_def split: option.splits sum.splits)
      then show ?thesis using that conf_lines_ok ok by blast
    qed
  qed
  have ok: "server_ok (cf_listen c)" "server_ok (cf_test_server c)" "server_ok (cf_cn_server c)" "server_ok (cf_server c)"
    using c(2) by (simp_all add: conf_ok_def)
  show ?thesis
    unfolding c(1) set_defaults_def
    using set_defaults_ok [OF c(2), unfolded set_defaults_def] ok [THEN default_server_set]
    by (simp add: lit_def)
qed

lemma parse_args_ok_witness:
  "\<exists>conf. parse_args (\<lambda>f. None) [lit ''-v''] = Inr conf \<and> conf_ok conf"
proof -
  have r: "\<exists>conf. parse_args (\<lambda>f. None) [lit ''-v''] = Inr conf"
    by (simp add: parse_args_def lit_def)
  then show ?thesis using parse_args_ok by blast
qed

text \<open>
  C38. A configuration file that is written from a user and five servers, a line for each, is read
  back as it was written. Host names may hold colons, as IPv6 addresses do.
\<close>

theorem conf_roundtrip:
  assumes "word user" "length user < 16" "writable listen" "writable socks" "writable test" "writable cn" "writable srv"
  shows "\<exists>c. read_conf (Some (write_conf user listen socks test cn srv)) conf_zero = Inr c \<and> str (cf_user c) = user
    \<and> reads_as (cf_listen c) listen \<and> reads_as (cf_socks5 c) socks \<and> reads_as (cf_test_server c) test
    \<and> reads_as (cf_cn_server c) cn \<and> reads_as (cf_server c) srv"
proof -
  have z: "server_ok (cf_listen conf_zero)" "server_ok (cf_socks5 conf_zero)" "server_ok (cf_test_server conf_zero)"
    "server_ok (cf_cn_server conf_zero)" "server_ok (cf_server conf_zero)"
    using conf_zero_ok by (simp_all add: conf_ok_def)
  obtain l where l: "set_server (cf_listen conf_zero) (fst listen @ 0x3A # snd listen) = Inr l" "reads_as l listen"
    using set_server_written [OF assms(3) z(1)] by blast
  obtain k where k: "set_server (cf_socks5 conf_zero) (fst socks @ 0x3A # snd socks) = Inr k" "reads_as k socks"
    using set_server_written [OF assms(4) z(2)] by blast
  obtain t where t: "set_server (cf_test_server conf_zero) (fst test @ 0x3A # snd test) = Inr t" "reads_as t test"
    using set_server_written [OF assms(5) z(3)] by blast
  obtain n where n: "set_server (cf_cn_server conf_zero) (fst cn @ 0x3A # snd cn) = Inr n" "reads_as n cn"
    using set_server_written [OF assms(6) z(4)] by blast
  obtain v where v: "set_server (cf_server conf_zero) (fst srv @ 0x3A # snd srv) = Inr v" "reads_as v srv"
    using set_server_written [OF assms(7) z(5)] by blast
  let ?u = "my_strncpy (cf_user conf_zero) user"
  have user: "conf_lines ((lit ''user'' @ 0x3D # user) @ 10 # rest) conf = conf_lines rest (conf\<lparr>cf_user := my_strncpy (cf_user conf) user\<rparr>)" for rest conf
  proof -
    have kw: "word (lit ''user'')" "0x3D \<notin> set (lit ''user'')" "hd (lit ''user'') \<noteq> 0x23" "length (lit ''user'') \<le> 11"
      using key_words [of "''user''"] by simp_all
    have "conf_lines ((lit ''user'' @ 0x3D # user) @ 10 # rest) conf =
        (case conf_line conf ((lit ''user'' @ 0x3D # user) @ [10]) of Inl e \<Rightarrow> Inl e | Inr c \<Rightarrow> conf_lines rest c)"
      using word_bytes [OF kw(1)] word_bytes [OF assms(1)] kw(4) assms(2) by (intro conf_lines_line) auto
    then show ?thesis using conf_line_key [OF kw(1-3) assms(1), of conf] by (simp add: set_key_def)
  qed
  have "str ?u = user"
    using assms(1,2) word_bytes [of user] by (simp add: str_my_strncpy conf_zero_def Let_def)
  then show ?thesis
    using assms(3-7) l k t n v
    by (simp add: read_conf_def write_conf_def user [simplified] conf_lines_server set_key_servers
        conf_lines_server [where rest = "[]", simplified] del: conf_lines.simps(2))
qed

lemma conf_roundtrip_witness:
  "\<exists>c. read_conf (Some (write_conf [0x61] ([0x62], [0x35]) ([0x63], [0x36]) ([0x64], [0x37]) ([0x65], [0x38])
       ([0x3A, 0x3A, 0x31], [0x39]))) conf_zero = Inr c \<and> str (cf_user c) = [0x61]
     \<and> reads_as (cf_server c) ([0x3A, 0x3A, 0x31], [0x39])"
proof -
  have w: "word [0x61]" "writable ([0x62], [0x35])" "writable ([0x63], [0x36])" "writable ([0x64], [0x37])"
    "writable ([0x65], [0x38])" "writable ([0x3A, 0x3A, 0x31], [0x39])"
    by (simp_all add: word_def writable_def isspace_def)
  show ?thesis using conf_roundtrip [OF w(1) _ w(2-6)] by fastforce
qed

end
