(* ===== verification/Sans.thy ===== *)
theory Sans
  imports Dnsmsg Async Conf
begin

text \<open>
  The program itself: the callbacks of sans.c, the start (\<open>sans_init\<close>, \<open>socks5_init\<close>), and
  \<open>sans_run\<close> with the event loop. \<open>dispatch\<close> is the call \<open>(wlist[i]->cb)(wlist[i])\<close> of the loop.
\<close>

section \<open>The callbacks\<close>

text \<open>The query at a slot, through the pointer \<open>query_search\<close> returned.\<close>

definition query_at :: "nat \<Rightarrow> world \<Rightarrow> query_t cres" where
  "query_at i s = (case queries s ! i of None \<Rightarrow> Inl Uaf | Some q \<Rightarrow> Inr q)"

definition delete_query :: "16 word \<Rightarrow> world \<Rightarrow> world" where
  "delete_query ident s = (case query_delete (queries s) ident of None \<Rightarrow> s | Some ql \<Rightarrow> s\<lparr>queries := ql\<rparr>)"

text \<open>\<open>query->id = ns_newid()\<close>.\<close>

definition renew_id :: "nat \<Rightarrow> world \<Rightarrow> world cres" where
  "renew_id i s = bindE (ns_newid (queries s) (rnds s)) (\<lambda>(ident, rest).
     Inr (s\<lparr>queries := query_set_id (queries s) i ident, rnds := rest\<rparr>))"

text \<open>
  The three lines \<open>uint8_t msg[NS_PACKETSZ]; msglen = ns_mkquery(msg, NS_PACKETSZ, name, type);
  ns_setid(msg, id)\<close> that occur again and again. When \<open>ns_mkquery\<close> fails the length is -1, and what it
  has written into the buffer is not looked at again.
\<close>

definition make_query :: "cstr \<Rightarrow> int \<Rightarrow> 16 word \<Rightarrow> world \<Rightarrow> ((byte list \<times> int) \<times> world) cres" where
  "make_query name type ident s =
     (let buf = junk NS_PACKETSZ s in
      bindE (rand_uint16 s) (\<lambda>(rnd, s1).
      bindE (attempt (ns_mkquery rnd buf name type) (Inr (buf, - 1)) (\<lambda>(msg, n). Inr (msg, int n))) (\<lambda>(msg, msglen).
      bindE (ns_setid msg ident) (\<lambda>msg'. Inr ((msg', msglen), s1)))))"

definition udp_query :: "int \<Rightarrow> sockaddr \<Rightarrow> cstr \<Rightarrow> int \<Rightarrow> 16 word \<Rightarrow> world \<Rightarrow> world cres" where
  "udp_query sock peer name type ident s =
     bindE (make_query name type ident s) (\<lambda>((msg, msglen), s1). query_send sock ns_udp msg msglen peer s1)"

definition connect_cb :: "int \<Rightarrow> 16 word \<Rightarrow> world \<Rightarrow> world cres" where
  "connect_cb sock data s = (case query_search (queries s) data of
      None \<Rightarrow> Inl Abort
    | Some i \<Rightarrow> bindE (query_at i s) (\<lambda>q.
        if sock < 0 then Inr (delete_query (q_id q) s)
        else bindE (make_query (q_name q) (q_type q) (q_id q) s) (\<lambda>((msg, msglen), s1).
             bindE (query_send sock ns_tcp msg msglen no_addr s1) (\<lambda>s2.
               reply_recv sock ns_tcp Reply_cb s2))))"

text \<open>A pointer to another function is never called as a connect callback.\<close>

definition on_connect :: "user_fn \<Rightarrow> int \<Rightarrow> 16 word \<Rightarrow> world \<Rightarrow> world cres" where
  "on_connect fn = (if fn = Connected_cb then connect_cb else (\<lambda>sock data s. Inl Abort))"

text \<open>The query of a blocked name goes to \<open>server\<close>, over UDP or a connection.\<close>

definition ask_server :: "query_t \<Rightarrow> world \<Rightarrow> world cres" where
  "ask_server q s =
     (if nspresolver (cfg s) then
        udp_query (sock_server (cfg s)) (server (cfg s)) (q_name q) (q_type q) (q_id q) s
      else async_connect on_connect (server (cfg s)) Connected_cb (socks5 (cfg s)) (q_id q) s)"

definition ask_cn :: "query_t \<Rightarrow> world \<Rightarrow> world cres" where
  "ask_cn q s = udp_query (sock_cn (cfg s)) (cn_server (cfg s)) (q_name q) (q_type q) (q_id q) s"

definition query_cb :: "16 word \<Rightarrow> world \<Rightarrow> world cres" where
  "query_cb ident s = (case query_search (queries s) ident of
      None \<Rightarrow> Inl Abort
    | Some i \<Rightarrow> bindE (renew_id i s) (\<lambda>s1.
        bindE (query_at i s1) (\<lambda>q.
        bindE (cache_search (htab s1) (q_name q) ns_t_block) (\<lambda>verdict. case verdict of
            None \<Rightarrow> udp_query (sock_test (cfg s1)) (test_server (cfg s1)) (q_name q) ns_t_soa (q_id q) s1
          | Some item \<Rightarrow> if c_block item \<noteq> 0 then ask_server q s1 else ask_cn q s1))))"

text \<open>
  \<open>cache_insert(cache)\<close>: the address for the new entry is drawn beforehand and used when one is made.
\<close>

definition insert_verdict :: "cache_t \<Rightarrow> world \<Rightarrow> world cres" where
  "insert_verdict item s = (let (a, s1) = malloc_at s in
     bindE (cache_insert (htab s1) item a) (\<lambda>(c, ok). Inr (s1\<lparr>htab := c\<rparr>)))"

definition test_cb :: "byte list \<Rightarrow> nat \<Rightarrow> world \<Rightarrow> world cres" where
  "test_cb msg msglen s = bindE (ns_getid msg) (\<lambda>ident. case query_search (queries s) ident of
      None \<Rightarrow> Inr s
    | Some i \<Rightarrow> bindE (renew_id i s) (\<lambda>s1.
        attempt (ns_parse_reply msg msglen) (Inr s1) (\<lambda>(name, type).
        let (ok, s2) = malloc_ok s1 in
        if \<not> ok then Inr s2
        else bindE (strcpy NS_NAMESZ name) (\<lambda>cname.
             bindE (query_at i s2) (\<lambda>q.
             let blocked = (type = ns_t_a) in
             bindE (if blocked then ask_server q s2 else ask_cn q s2) (\<lambda>s3.
               insert_verdict \<lparr>c_name = cname, c_ttl = 518400, c_type = ns_t_block, c_block = (if blocked then 1 else 0)\<rparr> s3))))))"

text \<open>In verbose mode a reply that cannot be parsed is dropped.\<close>

definition reply_cb :: "byte list \<Rightarrow> nat \<Rightarrow> world \<Rightarrow> world cres" where
  "reply_cb msg msglen s =
     bindE (if verbose (cfg s) then attempt (ns_parse_reply msg msglen) (Inr False) (\<lambda>_. Inr True) else Inr True) (\<lambda>good.
     if \<not> good then Inr s
     else bindE (ns_getid msg) (\<lambda>ident. case query_search (queries s) ident of
         None \<Rightarrow> Inr s
       | Some i \<Rightarrow> bindE (query_at i s) (\<lambda>q.
           bindE (ns_setid msg (q_qid q)) (\<lambda>msg'.
           bindE (if q_sock q > 0 then reply_send (q_sock q) (q_protocol q) msg' (int msglen) (q_addr q) s else Inr s)
             (\<lambda>s1. Inr (delete_query (q_id q) s1))))))"

definition on_query :: "user_fn \<Rightarrow> 16 word \<Rightarrow> world \<Rightarrow> world cres" where
  "on_query fn = (if fn = Query_cb then query_cb else (\<lambda>ident s. Inl Abort))"

definition on_reply :: "user_fn \<Rightarrow> byte list \<Rightarrow> nat \<Rightarrow> world \<Rightarrow> world cres" where
  "on_reply fn = (if fn = Test_cb then test_cb else if fn = Reply_cb then reply_cb else (\<lambda>msg n s. Inl Abort))"

definition accept_cb :: "wptr \<Rightarrow> world \<Rightarrow> world cres" where
  "accept_cb w s = bindE (io_of w s) (\<lambda>io. let (sock, s1) = sys_ret s in
     if sock < 0 then Inr s1 else query_recv sock ns_tcp Query_cb (stream_options s1))"

definition tick_cb :: "world \<Rightarrow> world cres" where
  "tick_cb s = (let s1 = s\<lparr>queries := query_tick (queries s)\<rparr> in
     bindE (cache_tick (htab s1)) (\<lambda>c. Inr (s1\<lparr>htab := c\<rparr>)))"

definition dispatch :: "wptr \<Rightarrow> world \<Rightarrow> world cres" where
  "dispatch w s = bindE (io_of w s) (\<lambda>io. case ev_cb io of
      Accept_cb \<Rightarrow> accept_cb w s
    | Query_udp_recv_cb \<Rightarrow> query_udp_recv_cb on_query w s
    | Query_tcp_recv_cb \<Rightarrow> query_tcp_recv_cb on_query w s
    | Reply_udp_recv_cb \<Rightarrow> reply_udp_recv_cb on_reply w s
    | Reply_tcp_recv_cb \<Rightarrow> reply_tcp_recv_cb on_reply w s
    | Query_tcp_send_cb \<Rightarrow> query_tcp_send_cb w s
    | Reply_tcp_send_cb \<Rightarrow> reply_tcp_send_cb w s
    | Connect_cb \<Rightarrow> async_connect_cb on_connect w s
    | Socks5_send_cb \<Rightarrow> socks5_send_cb on_connect w s
    | Socks5_recv_cb \<Rightarrow> socks5_recv_cb on_connect w s)"

section \<open>Start and run\<close>

definition getaddr :: "server_t \<Rightarrow> world \<Rightarrow> (sockaddr \<times> world) cres" where
  "getaddr srv s = (case os_resolve (sys s) (calls s) (str (addr srv)) (str (port srv)) of
      None \<Rightarrow> Inl Fail
    | Some a \<Rightarrow> Inr (a, s\<lparr>calls := calls s + 1\<rparr>))"

definition open_socket :: "world \<Rightarrow> (int \<times> world) cres" where
  "open_socket s = (let (fd, s1) = sys_ret s in if fd < 0 then Inl Fail else Inr (fd, s1))"

text \<open>A call that has to return 0: \<open>bind\<close> and \<open>listen\<close>.\<close>

definition must_do :: "effect \<Rightarrow> world \<Rightarrow> world cres" where
  "must_do x s = (let (r, s1) = sys_ret (emit x s) in if r \<noteq> 0 then Inl Fail else Inr s1)"

definition socks5_init :: "server_t \<Rightarrow> world \<Rightarrow> world cres" where
  "socks5_init srv s = bindE (getaddr srv s) (\<lambda>(a, s1). Inr (s1\<lparr>cfg := (cfg s1)\<lparr>socks5_server := a\<rparr>\<rparr>))"

definition init_socks5 :: "server_t \<Rightarrow> world \<Rightarrow> world cres" where
  "init_socks5 srv s =
     (if hd (addr srv) = 0 then Inr (s\<lparr>cfg := (cfg s)\<lparr>socks5 := False\<rparr>\<rparr>)
      else attempt (socks5_init srv s) (Inr (s\<lparr>cfg := (cfg s)\<lparr>socks5 := False\<rparr>\<rparr>))
        (\<lambda>s1. Inr (s1\<lparr>cfg := (cfg s1)\<lparr>socks5 := True\<rparr>\<rparr>)))"

text \<open>
  \<open>sans_init\<close>: \<open>Fail\<close> is its return value -1. The results of the option setters and of \<open>runas\<close> are
  not looked at (a failure of \<open>runas\<close> is printed).
\<close>

definition sans_init :: "conf_t \<Rightarrow> world \<Rightarrow> world cres" where
  "sans_init conf s =
     bindE (getaddr (cf_listen conf) (ev_init (os_now (sys s)) s)) (\<lambda>(a1, s1).
     bindE (open_socket s1) (\<lambda>(udp, s2).
     bindE (must_do (Bind udp a1) (snd (setnonblock s2))) (\<lambda>s3.
     bindE (getaddr (cf_listen conf) s3) (\<lambda>(a2, s4).
     bindE (open_socket s4) (\<lambda>(tcp, s5).
     bindE (must_do (Bind tcp a2) (snd (setreuseaddr s5))) (\<lambda>s6.
     bindE (must_do (Listen tcp) s6) (\<lambda>s7.
     bindE (getaddr (cf_test_server conf) (snd (setnonblock s7))) (\<lambda>(ta, s8).
     bindE (getaddr (cf_cn_server conf) s8) (\<lambda>(ca, s9).
     bindE (getaddr (cf_server conf) s9) (\<lambda>(sa, s10).
     bindE (open_socket s10) (\<lambda>(test, s11).
     bindE (open_socket (snd (setnonblock s11))) (\<lambda>(cn, s12).
     bindE (open_socket (snd (setnonblock s12))) (\<lambda>(srv, s13).
     bindE (init_socks5 (cf_socks5 conf) ((snd (setnonblock s13))\<lparr>cfg :=
         \<lparr>verbose = cf_verbose conf, nspresolver = cf_nspresolver conf, socks5 = False, sock_udp = udp, sock_tcp = tcp,
          sock_server = srv, sock_cn = cn, sock_test = test, test_server = ta, cn_server = ca, server = sa,
          socks5_server = socks5_server (cfg s13)\<rparr>\<rparr>)) (\<lambda>s14.
     Inr (if hd (cf_user conf) \<noteq> 0 then snd (runas (str (cf_user conf)) s14) else s14)))))))))))))))"

text \<open>The first part of \<open>sans_run\<close>: the watchers of the five sockets. \<open>w_tcp\<close> is a local variable.\<close>

definition start_watching :: "world \<Rightarrow> world cres" where
  "start_watching s =
     (let a = brk s; s0 = s\<lparr>brk := a + 1, objs := (objs s)(a \<mapsto> W_tcp)\<rparr> in
      bindE (ev_io_init s0 (a, F_w) Accept_cb (sock_tcp (cfg s)) EV_READ) (\<lambda>s1.
      bindE (ev_io_start s1 (a, F_w)) (\<lambda>s2.
      bindE (query_recv (sock_udp (cfg s)) ns_udp Query_cb s2) (\<lambda>s3.
      bindE (reply_recv (sock_test (cfg s)) ns_udp Test_cb s3) (\<lambda>s4.
      bindE (reply_recv (sock_cn (cfg s)) ns_udp Reply_cb s4) (\<lambda>s5.
        reply_recv (sock_server (cfg s)) ns_udp Reply_cb s5))))))"

definition close_all :: "settings \<Rightarrow> world \<Rightarrow> world" where
  "close_all c s = emit (Close (sock_server c)) (emit (Close (sock_cn c)) (emit (Close (sock_test c))
     (emit (Close (sock_udp c)) (emit (Close (sock_tcp c)) s))))"

text \<open>
  \<open>sans_run\<close> for the rounds of the event loop that the environment supplies; the sockets are closed
  when the loop has ended, that is when \<open>run\<close> has been cleared.
\<close>

definition sans_run :: "round list \<Rightarrow> world \<Rightarrow> world cres" where
  "sans_run rounds s =
     bindE (start_watching s) (\<lambda>s1.
     bindE (ev_run dispatch tick_cb rounds s1) (\<lambda>s2.
     Inr (if run s2 then s2 else close_all (cfg s) s2)))"

definition sans_stop :: "world \<Rightarrow> world" where
  "sans_stop s = ev_stop s"

text \<open>
  \<open>main\<close> of main.c: \<open>Fail\<close> is \<open>EXIT_FAILURE\<close>. The parent of a daemon exits with success at once. The
  signals, whose handler is \<open>sans_stop\<close>, come with the rounds of the loop.
\<close>

definition main ::
  "(cstr \<Rightarrow> byte list option) \<Rightarrow> cstr list \<Rightarrow> round list \<Rightarrow> world \<Rightarrow> world cres"
where
  "main files args rounds s = (case parse_args files args of
      Inl e \<Rightarrow> Inl Fail
    | Inr conf \<Rightarrow>
        bindE (if cf_daemon conf then daemonize (str (cf_pidfile conf)) (str (cf_logfile conf)) s else Inr (True, s))
          (\<lambda>(go, s1). if go then bindE (sans_init conf s1) (sans_run rounds) else Inr s1))"

end
