(* ===== verification/Safety.thy ===== *)
theory Safety
  imports Sans
begin

text \<open>
  The program keeps its invariant: each callback of sans.c does, so the contracts \<open>dnsmsg_client\<close>,
  \<open>connect_client\<close> and \<open>loop_client\<close> hold of the program's own functions, and with them every event
  and every run of the event loop.
\<close>

section \<open>The table of queries\<close>

definition queries_ok :: "qlist \<Rightarrow> bool" where
  "queries_ok ql \<longleftrightarrow> length ql = QLIST_SIZE \<and> (\<forall>q \<in> set (pending ql). name_ok (q_name q)) \<and> ids_ok ql"

abbreviation (input) idsm :: "qlist \<Rightarrow> 16 word multiset" where
  "idsm ql \<equiv> image_mset q_id (mset (pending ql))"

lemma ids_ok_mset: "ids_ok ql \<longleftrightarrow> (\<forall>x. count (idsm ql) x \<le> 1) \<and> 0 \<notin># idsm ql"
proof -
  have "distinct (map q_id (pending ql)) \<longleftrightarrow> (\<forall>x. count (mset (map q_id (pending ql))) x \<le> 1)"
    by (metis count_eq_zero_iff distinct_count_atmost_1 le_numeral_extra(4) less_one nle_le not_less set_mset_mset)
  then show ?thesis by (auto simp: ids_ok_def ids_def)
qed

lemma tables_queries: "tables_ok env k s \<longleftrightarrow> queries_ok (queries s) \<and> ttl_ok k (htab s)
    \<and> (\<forall>a. eheap (htab s) a \<noteq> None \<longrightarrow> a < brk s) \<and> sys s = env"
  by (auto simp: tables_ok_def queries_ok_def)

lemma winv_queries:
  assumes "winv env k L s" "queries_ok ql"
  shows "winv env k L (s\<lparr>queries := ql\<rparr>)"
proof -
  have "tables_ok env k (s\<lparr>queries := ql\<rparr>)"
    using winvD(1) [OF assms(1)] assms(2) by (simp add: tables_queries)
  then show ?thesis
    using winv_tables [OF assms(1), where ql = ql and c = "htab s" and b = "brk s"] by simp
qed

lemma slot_query:
  assumes "query_search ql ident = Some i"
  obtains q where "i < length ql" "ql ! i = Some q" "q_id q = ident" "q \<in> set (pending ql)"
  using assms by (auto simp: query_search_Some set_pending) (metis nth_mem)

text \<open>
  A query gets a new id: the ids stay distinct, also when a query was just added whose id another
  one already had, because it is a query with that id that is renamed.
\<close>

lemma rename_idsm:
  assumes "query_search ql x = Some i"
  shows "add_mset x (idsm (query_set_id ql i n)) = add_mset n (idsm ql)"
proof -
  obtain q where q: "i < length ql" "ql ! i = Some q" "q_id q = x" using assms by (rule slot_query)
  have "image_mset q_id (mset (pending (query_set_id ql i n)) + {#q#}) = image_mset q_id (mset (pending ql) + {#q\<lparr>q_id := n\<rparr>#})"
    using query_set_id_pending [OF q(1,2)] by simp
  then show ?thesis using q(3) by simp
qed

lemma set_id_names:
  assumes "query_search ql x = Some i" "\<forall>q \<in> set (pending ql). name_ok (q_name q)"
  shows "\<forall>q \<in> set (pending (query_set_id ql i n)). name_ok (q_name q)"
proof -
  obtain q where q: "i < length ql" "ql ! i = Some q" "q \<in> set (pending ql)" using assms(1) by (rule slot_query)
  have "set_mset (mset (pending (query_set_id ql i n)) + {#q#}) = set_mset (mset (pending ql) + {#q\<lparr>q_id := n\<rparr>#})"
    using query_set_id_pending [OF q(1,2)] by simp
  then have "set (pending (query_set_id ql i n)) \<subseteq> insert (q\<lparr>q_id := n\<rparr>) (set (pending ql))" by auto
  then show ?thesis using assms(2) q(3) by auto
qed

lemma add_queries:
  assumes "query_add ql q = Some ql'"
  shows "length ql' = length ql" "mset (pending ql') = add_mset (q\<lparr>q_ttl := 10, q_qid := q_id q\<rparr>) (mset (pending ql))"
    "idsm ql' = add_mset (q_id q) (idsm ql)" "q_id q \<in> ids ql'"
  using add_loop_Some [of ql "q\<lparr>q_ttl := 10, q_qid := q_id q\<rparr>" ql'] assms
  by (simp_all add: query_add_def ids_mset)

lemma fresh_idsm: "ns_newid ql rs = Inr (n, rest) \<Longrightarrow> n \<noteq> 0 \<and> count (idsm ql) n = 0"
  using qids.newid_fresh [of ql rs n rest] unfolding ns_newid_def ids_mset not_in_iff by blast

lemma ids_ok_sub: "idsm ql' \<subseteq># idsm ql \<Longrightarrow> ids_ok ql \<Longrightarrow> ids_ok ql'"
  unfolding ids_ok_mset by (meson mset_subset_eqD mset_subset_eq_count order_trans)

lemma queries_ok_renamed:
  assumes "queries_ok ql" "query_search ql x = Some i" "ns_newid ql rs = Inr (n, rest)"
  shows "queries_ok (query_set_id ql i n)"
proof -
  have M: "add_mset x (idsm (query_set_id ql i n)) = add_mset n (idsm ql)" by (rule rename_idsm [OF assms(2)])
  have n: "n \<noteq> 0" "count (idsm ql) n = 0" using fresh_idsm [OF assms(3)] by simp_all
  have ok: "count (idsm ql) y \<le> 1" "0 \<notin># idsm ql" for y using assms(1) by (simp_all add: queries_ok_def ids_ok_mset)
  have "count (idsm (query_set_id ql i n)) y \<le> 1" for y
  proof -
    have "count (add_mset x (idsm (query_set_id ql i n))) y = count (add_mset n (idsm ql)) y" by (simp only: M)
    then show ?thesis using n(2) ok(1) [of y] by (auto split: if_splits)
  qed
  moreover have "0 \<notin># idsm (query_set_id ql i n)"
  proof
    assume "0 \<in># idsm (query_set_id ql i n)"
    then have "0 \<in># add_mset n (idsm ql)" by (simp flip: M)
    then show False using n(1) ok(2) by auto
  qed
  ultimately show ?thesis
    using assms(1) set_id_names [OF assms(2)] by (simp add: queries_ok_def ids_ok_mset)
qed

lemma queries_ok_added:
  assumes "queries_ok ql" "query_add ql q = Some ql'" "name_ok (q_name q)"
    "query_search ql' (q_id q) = Some i" "ns_newid ql' rs = Inr (n, rest)"
  shows "queries_ok (query_set_id ql' i n)"
proof -
  note add = add_queries [OF assms(2)]
  have "add_mset (q_id q) (idsm (query_set_id ql' i n)) = add_mset n (add_mset (q_id q) (idsm ql))"
    using rename_idsm [OF assms(4)] add(3) by simp
  then have M: "idsm (query_set_id ql' i n) = add_mset n (idsm ql)" by (simp add: add_mset_commute)
  have n: "n \<noteq> 0" "count (idsm ql) n = 0" using fresh_idsm [OF assms(5)] unfolding add(3) by (simp_all split: if_splits)
  have "\<forall>p \<in> set (pending ql'). name_ok (q_name p)"
  proof -
    have "set (pending ql') = insert (q\<lparr>q_ttl := 10, q_qid := q_id q\<rparr>) (set (pending ql))"
      using add(2) by (metis set_mset_add_mset_insert set_mset_mset)
    then show ?thesis using assms(1,3) by (simp add: queries_ok_def)
  qed
  then show ?thesis
    using set_id_names [OF assms(4)] M n assms(1) add(1) by (auto simp: queries_ok_def ids_ok_mset)
qed

lemma queries_ok_delete:
  assumes "queries_ok ql" "query_delete ql x = Some ql'"
  shows "queries_ok ql'"
proof -
  obtain i where i: "query_search ql x = Some i" "ql' = ql[i := None]"
    using assms(2) by (auto simp: query_delete_search)
  obtain q where q: "i < length ql" "ql ! i = Some q" using i(1) by (rule slot_query)
  have M: "mset (pending ql) = add_mset q (mset (pending ql'))" using pending_update_None [OF q] i(2) by simp
  then have sub: "set (pending ql') \<subseteq> set (pending ql)" by (metis set_mset_add_mset_insert set_mset_mset subset_insertI)
  have "idsm ql' \<subseteq># idsm ql" using M by simp
  then show ?thesis using ids_ok_sub assms(1) sub i(2) by (auto simp: queries_ok_def)
qed

lemma queries_ok_tick: "queries_ok ql \<Longrightarrow> queries_ok (query_tick ql)"
proof -
  have "idsm (query_tick ql) = image_mset q_id (filter_mset (\<lambda>q. q_ttl q \<noteq> 1) (mset (pending ql)))"
    by (simp add: query_tick_pending image_mset.compositionality comp_def)
  then have "idsm (query_tick ql) \<subseteq># idsm ql" by (simp add: image_mset_subseteq_mono)
  then show "queries_ok ql \<Longrightarrow> queries_ok (query_tick ql)"
    using ids_ok_sub by (auto simp: queries_ok_def query_tick_pending)
qed

section \<open>The callbacks of sans.c\<close>

lemma delete_query_inv: "winv env k L s \<Longrightarrow> winv env k L (delete_query x s)"
  using queries_ok_delete [of "queries s" x] winvD(1) [of env k L s] winv_queries [of env k L s]
  by (auto simp: delete_query_def tables_queries split: option.split)

lemma query_at_Some: "query_search (queries s) x = Some i \<Longrightarrow>
    \<exists>q. query_at i s = Inr q \<and> q \<in> set (pending (queries s)) \<and> q_id q = x"
  by (auto simp: query_at_def elim!: slot_query)

lemma winv_name: "winv env k L s \<Longrightarrow> q \<in> set (pending (queries s)) \<Longrightarrow> name_ok (q_name q)"
  using winvD(1) by (simp add: tables_ok_def)

text \<open>A new id for the query at slot \<open>i\<close> of a table that is in order afterwards.\<close>

lemma renew_id_table:
  assumes "winv env k L s" "query_search ql x = Some i"
    and renamed: "\<And>n rest. ns_newid ql (rnds s) = Inr (n, rest) \<Longrightarrow> queries_ok (query_set_id ql i n)"
  shows "outcome stops (\<lambda>s'. winv env k L s' \<and> (\<exists>q. query_at i s' = Inr q \<and> q \<in> set (pending (queries s'))))
    (renew_id i (s\<lparr>queries := ql\<rparr>))"
proof (cases "ns_newid ql (rnds s)")
  case (Inl e)
  have "e = Diverge" if "newid_loop f rs = Inl e" for f rs
    using that by (induction f rs rule: newid_loop.induct) (auto split: if_splits)
  then show ?thesis using Inl by (simp add: renew_id_def ns_newid_def)
next
  case (Inr r)
  obtain n rest where r: "r = (n, rest)" by (cases r)
  let ?ql = "query_set_id ql i n"
  have "winv env k L (s\<lparr>queries := ?ql\<rparr>)" using renamed Inr r by (intro winv_queries [OF assms(1)]) simp
  then have "winv env k L (s\<lparr>queries := ?ql\<rparr>\<lparr>rnds := rest\<rparr>)" by simp
  moreover obtain q where q: "i < length ql" "ql ! i = Some q" using assms(2) by (rule slot_query)
  then have "?ql ! i = Some (q\<lparr>q_id := n\<rparr>)" "i < length ?ql" by (simp_all add: query_set_id_def)
  then have "?ql ! i = Some (q\<lparr>q_id := n\<rparr>)" "q\<lparr>q_id := n\<rparr> \<in> set (pending ?ql)"
    using nth_mem [of i ?ql] by (auto simp: set_pending)
  ultimately show ?thesis using Inr r by (simp add: renew_id_def query_at_def)
qed

lemma renew_id_inv:
  assumes "winv env k L s" "query_search (queries s) x = Some i"
  shows "outcome stops (\<lambda>s'. winv env k L s' \<and> (\<exists>q. query_at i s' = Inr q \<and> q \<in> set (pending (queries s')))) (renew_id i s)"
  using renew_id_table [OF assms] queries_ok_renamed [OF _ assms(2)] winvD(1) [OF assms(1)]
  by (simp add: tables_queries)

lemma renew_id_added:
  assumes "winv env k L s" "query_add (queries s) q = Some ql" "name_ok (q_name q)" "query_search ql (q_id q) = Some i"
  shows "outcome stops (\<lambda>s'. winv env k L s' \<and> (\<exists>q. query_at i s' = Inr q \<and> q \<in> set (pending (queries s'))))
    (renew_id i (s\<lparr>queries := ql\<rparr>))"
  using renew_id_table [OF assms(1,4)] queries_ok_added [OF _ assms(2-4)] winvD(1) [OF assms(1)]
  by (simp add: tables_queries)

lemma make_query_inv:
  assumes "winv env k L s" "name_ok name"
  shows "outcome stops (\<lambda>((msg, msglen), s'). winv env k L s' \<and> length msg = NS_PACKETSZ \<and> msglen < int NS_PACKETSZ)
    (make_query name type ident s)"
proof -
  obtain ls where ls: "\<forall>l \<in> set ls. ok_label l" "name = text_name ls" using assms(2) by (auto simp: name_ok_def)
  let ?buf = "junk NS_PACKETSZ s"
  have buf: "length ?buf = NS_PACKETSZ" by (simp add: junk_def)
  have body: "outcome stops (\<lambda>((msg, msglen), s'). winv env k L s' \<and> length msg = NS_PACKETSZ \<and> msglen < int NS_PACKETSZ)
      (bindE (attempt (ns_mkquery rnd ?buf name type) (Inr (?buf, - 1)) (\<lambda>(msg, n). Inr (msg, int n))) (\<lambda>(msg, msglen).
        bindE (ns_setid msg ident) (\<lambda>msg'. Inr ((msg', msglen), s1))))"
    if "winv env k L s1" for rnd s1
  proof (rule outcome_bindE [where Q = "\<lambda>(msg, msglen). length msg = NS_PACKETSZ \<and> msglen < int NS_PACKETSZ"])
    show "outcome stops (\<lambda>(msg, msglen). length msg = NS_PACKETSZ \<and> msglen < int NS_PACKETSZ)
      (attempt (ns_mkquery rnd ?buf name type) (Inr (?buf, - 1)) (\<lambda>(msg, n). Inr (msg, int n)))"
    proof (rule outcome_attempt [where Q = "\<lambda>(msg, n). length msg = NS_PACKETSZ \<and> n < NS_PACKETSZ"])
      show "outcome (insert Fail stops) (\<lambda>(msg, n). length msg = NS_PACKETSZ \<and> n < NS_PACKETSZ) (ns_mkquery rnd ?buf name type)"
        unfolding ls(2) by (rule outcome_weaken [OF ns_mkquery_outcome [OF ls(1) buf]]) auto
    qed (use buf in auto)
  next
    fix r :: "byte list \<times> int"
    assume "case r of (msg, msglen) \<Rightarrow> length msg = NS_PACKETSZ \<and> msglen < int NS_PACKETSZ"
    then show "outcome stops (\<lambda>((msg, msglen), s'). winv env k L s' \<and> length msg = NS_PACKETSZ \<and> msglen < int NS_PACKETSZ)
      (case r of (msg, msglen) \<Rightarrow> bindE (ns_setid msg ident) (\<lambda>msg'. Inr ((msg', msglen), s1)))"
      using that by (cases r) (simp add: ns_setid_ok NS_PUT16_def Let_def)
  qed
  show ?thesis
    unfolding make_query_def Let_def
    by (rule outcome_bindE [OF winv_rand [OF assms(1)]]) (use body in auto)
qed

lemma udp_query_inv:
  assumes "winv env k L s" "name_ok name"
  shows "outcome stops (winv env k L) (udp_query sock peer name type ident s)"
  unfolding udp_query_def
proof (rule outcome_bindE [OF make_query_inv [OF assms]], clarify)
  fix msg :: "byte list" and msglen :: int and s1 :: world
  assume "winv env k L s1" "length msg = NS_PACKETSZ" "msglen < int NS_PACKETSZ"
  then show "outcome stops (winv env k L) (query_send sock ns_udp msg msglen peer s1)"
    unfolding query_send_def by (intro send_start_inv) auto
qed

lemma connect_cb_inv:
  assumes "winv env k L s" "sock > 0 \<or> sock = - 1"
  shows "outcome stops (winv env k L) (connect_cb sock data s)"
proof (cases "query_search (queries s) data")
  case (Some i)
  then obtain q where q: "query_at i s = Inr q" "q \<in> set (pending (queries s))"
    using query_at_Some by blast
  have name: "name_ok (q_name q)" by (rule winv_name [OF assms(1) q(2)])
  have "outcome stops (winv env k L) (bindE (make_query (q_name q) (q_type q) (q_id q) s) (\<lambda>((msg, msglen), s1).
      bindE (query_send sock ns_tcp msg msglen no_addr s1) (\<lambda>s2. reply_recv sock ns_tcp Reply_cb s2)))"
    if "sock > 0"
  proof (rule outcome_bindE [OF make_query_inv [OF assms(1) name]], clarify)
    fix msg :: "byte list" and msglen :: int and s1 :: world
    assume m: "winv env k L s1" "length msg = NS_PACKETSZ" "msglen < int NS_PACKETSZ"
    then have "outcome stops (winv env k L) (query_send sock ns_tcp msg msglen no_addr s1)"
      unfolding query_send_def using that by (intro send_start_inv) auto
    then show "outcome stops (winv env k L) (bindE (query_send sock ns_tcp msg msglen no_addr s1)
        (\<lambda>s2. reply_recv sock ns_tcp Reply_cb s2))"
      by (rule outcome_bindE) (rule reply_recv_inv, auto)
  qed
  then show ?thesis using Some q(1) assms(2) delete_query_inv [OF assms(1)] by (auto simp: connect_cb_def)
qed (simp add: connect_cb_def)

interpretation conn: connect_client on_connect
  by unfold_locales (simp add: on_connect_def connect_cb_inv)

lemma ask_server_inv:
  assumes "winv env k L s" "name_ok (q_name q)"
  shows "outcome stops (winv env k L) (ask_server q s)"
  using udp_query_inv [OF assms] conn.async_connect_inv [OF assms(1)] by (simp add: ask_server_def)

lemma ask_cn_inv: "winv env k L s \<Longrightarrow> name_ok (q_name q) \<Longrightarrow> outcome stops (winv env k L) (ask_cn q s)"
  unfolding ask_cn_def by (rule udp_query_inv)

lemma verdict_search: "winv env k L s \<Longrightarrow> \<exists>r. cache_search (htab s) name ns_t_block = Inr r"
  using winvD(1) by (intro verdicts.search_ends) (auto simp: tables_ok_def ttl_ok_def key_ok_def)

text \<open>The choice of the upstream server, with the query under its new id.\<close>

lemma ask_upstream_inv:
  assumes "winv env k L s" "name_ok (q_name q)"
  shows "outcome stops (winv env k L) (bindE (cache_search (htab s) (q_name q) ns_t_block) (\<lambda>verdict. case verdict of
      None \<Rightarrow> udp_query (sock_test (cfg s)) (test_server (cfg s)) (q_name q) ns_t_soa (q_id q) s
    | Some item \<Rightarrow> if c_block item \<noteq> 0 then ask_server q s else ask_cn q s))"
proof -
  obtain r where "cache_search (htab s) (q_name q) ns_t_block = Inr r" using verdict_search [OF assms(1)] by blast
  then show ?thesis
    using udp_query_inv [OF assms] ask_server_inv [OF assms] ask_cn_inv [OF assms] by (auto split: option.split)
qed

lemma query_cb_inv:
  assumes "winv env k L s" "name_ok (q_name q)" "query_add (queries s) q = Some ql"
  shows "outcome stops (winv env k L) (query_cb (q_id q) (s\<lparr>queries := ql\<rparr>))"
proof -
  obtain i where i: "query_search ql (q_id q) = Some i"
    using add_queries(4) [OF assms(3)] query_search_None [of ql "q_id q"] by auto
  have "outcome stops (winv env k L) (bindE (renew_id i (s\<lparr>queries := ql\<rparr>)) (\<lambda>s1.
      bindE (query_at i s1) (\<lambda>q.
      bindE (cache_search (htab s1) (q_name q) ns_t_block) (\<lambda>verdict. case verdict of
          None \<Rightarrow> udp_query (sock_test (cfg s1)) (test_server (cfg s1)) (q_name q) ns_t_soa (q_id q) s1
        | Some item \<Rightarrow> if c_block item \<noteq> 0 then ask_server q s1 else ask_cn q s1))))"
    by (rule outcome_bindE [OF renew_id_added [OF assms(1,3,2) i]])
      (use ask_upstream_inv winv_name in auto)
  then show ?thesis using i by (simp add: query_cb_def)
qed

lemma insert_verdict_inv:
  assumes "winv env k L s" "c_type item = ns_t_block" "c_ttl item = 518400"
  shows "outcome stops (winv env k L) (insert_verdict item s)"
proof -
  obtain a s1 where a: "malloc_at s = (a, s1)" by fastforce
  note s1 = winv_malloc_at [OF a assms(1)]
  have t: "tables_ok env k s1" by (rule winvD(1) [OF s1(1)])
  have key: "key_ok (c_type item)" by (simp add: assms(2) key_ok_def)
  have fresh: "\<forall>b. a = Some b \<longrightarrow> eheap (htab s1) b = None" using s1(2) by blast
  obtain c ok where c: "cache_insert (htab s1) item a = Inr (c, ok)" "wf_cache c"
    "\<forall>n t. key_ok t \<longrightarrow> cache_search c n t = (if ok \<and> (n, t) = key item then Inr (Some item) else cache_search (htab s1) n t)"
    using cache_insert_spec [OF _ key fresh] t by (auto simp: tables_ok_def ttl_ok_def)
  have "ttl_ok k c"
    using t c(2,3) assms(3) by (auto simp: tables_ok_def ttl_ok_def split: if_splits)
  moreover have "b < brk s1" if "eheap c b \<noteq> None" for b
    using cache_insert_heap [OF c(1) that] s1(2) t by (auto simp: tables_ok_def)
  ultimately have "tables_ok env k (s1\<lparr>queries := queries s1, htab := c, brk := brk s1\<rparr>)"
    using t by (simp add: tables_ok_def)
  from winv_tables [OF s1(1) this] show ?thesis by (simp add: insert_verdict_def a c(1))
qed

lemma parse_reply_outcome:
  assumes "0 < n" "n \<le> length msg"
  shows "outcome (if n < length msg then {Fail} else {Fail, Oob}) (\<lambda>(name, type). length name < NS_NAMESZ) (ns_parse_reply msg n)"
proof (cases "ns_parse_reply msg n")
  case (Inr r)
  then show ?thesis using ns_parse_reply_sound_aux [of msg n "fst r" "snd r"] assms(2) by fastforce
next
  case (Inl e)
  then show ?thesis
    using ns_parse_reply_safe_aux [OF assms(1), of msg] mild_parse_message(2) [OF assms(1), of msg] by auto
qed

lemma test_cb_inv:
  assumes "winv env k L s" "length msg = NS_PACKETSZ" "0 < n" "n \<le> NS_PACKETSZ"
  shows "outcome (stops_of (n = NS_PACKETSZ)) (winv env k L) (test_cb msg n s)"
proof -
  have go: "outcome (stops_of (n = NS_PACKETSZ)) (winv env k L) (attempt (ns_parse_reply msg n) (Inr s1) (\<lambda>(name, type).
      let (ok, s2) = malloc_ok s1 in
      if \<not> ok then Inr s2
      else bindE (strcpy NS_NAMESZ name) (\<lambda>cname.
           bindE (query_at i s2) (\<lambda>q.
           let blocked = (type = ns_t_a) in
           bindE (if blocked then ask_server q s2 else ask_cn q s2) (\<lambda>s3.
             insert_verdict \<lparr>c_name = cname, c_ttl = 518400, c_type = ns_t_block, c_block = (if blocked then 1 else 0)\<rparr> s3)))))"
    if s1: "winv env k L s1" "query_at i s1 = Inr q" "q \<in> set (pending (queries s1))" for i s1 q
  proof (rule outcome_attempt [where Q = "\<lambda>(name, type). length name < NS_NAMESZ"], goal_cases)
    case 1
    show ?case by (rule outcome_weaken [OF parse_reply_outcome]) (use assms(2-4) in \<open>auto split: if_splits\<close>)
  next
    case 2
    show ?case using s1(1) by simp
  next
    case (3 r)
    obtain name type where r: "r = (name, type)" by (cases r)
    obtain ok s2 where ok: "malloc_ok s1 = (ok, s2)" by fastforce
    have s2: "winv env k L s2" "query_at i s2 = Inr q" "q \<in> set (pending (queries s2))"
      using winv_malloc_ok [OF ok s1(1)] s1(2,3) ok by (auto simp: malloc_ok_def query_at_def)
    have name: "name_ok (q_name q)" by (rule winv_name [OF s2(1,3)])
    have "outcome (stops_of (n = NS_PACKETSZ)) (winv env k L) (bindE (if b then ask_server q s2 else ask_cn q s2) (insert_verdict
        \<lparr>c_name = name, c_ttl = 518400, c_type = ns_t_block, c_block = v\<rparr>))" for b v
      by (rule outcome_bindE [where Q = "winv env k L"])
        (use ask_server_inv [OF s2(1) name] ask_cn_inv [OF s2(1) name] insert_verdict_inv in \<open>auto intro: outcome_stops\<close>)
    then show ?case using 3 r ok s2 by (simp add: strcpy_def Let_def)
  qed
  have "outcome (stops_of (n = NS_PACKETSZ)) (winv env k L) (bindE (renew_id i s) (\<lambda>s1. attempt (ns_parse_reply msg n) (Inr s1) (\<lambda>(name, type).
      let (ok, s2) = malloc_ok s1 in
      if \<not> ok then Inr s2
      else bindE (strcpy NS_NAMESZ name) (\<lambda>cname.
           bindE (query_at i s2) (\<lambda>q.
           let blocked = (type = ns_t_a) in
           bindE (if blocked then ask_server q s2 else ask_cn q s2) (\<lambda>s3.
             insert_verdict \<lparr>c_name = cname, c_ttl = 518400, c_type = ns_t_block, c_block = (if blocked then 1 else 0)\<rparr> s3))))))"
    if "query_search (queries s) x = Some i" for x i
    by (rule outcome_bindE [OF outcome_stops [OF renew_id_inv [OF assms(1) that]]]) (use go in blast)
  moreover obtain x where "ns_getid msg = Inr x" using assms(2) by (simp add: ns_getid_def NS_GET16_ok)
  ultimately show ?thesis using assms(1) by (simp add: test_cb_def split: option.split)
qed

lemma reply_cb_inv:
  assumes "winv env k L s" "length msg = NS_PACKETSZ" "0 < n" "n \<le> NS_PACKETSZ"
  shows "outcome (stops_of (n = NS_PACKETSZ)) (winv env k L) (reply_cb msg n s)"
proof -
  obtain x where x: "ns_getid msg = Inr x" using assms(2) by (simp add: ns_getid_def NS_GET16_ok)
  have main: "outcome (stops_of (n = NS_PACKETSZ)) (winv env k L) (if \<not> good then Inr s
      else bindE (ns_getid msg) (\<lambda>ident. case query_search (queries s) ident of
         None \<Rightarrow> Inr s
       | Some i \<Rightarrow> bindE (query_at i s) (\<lambda>q.
           bindE (ns_setid msg (q_qid q)) (\<lambda>msg'.
           bindE (if q_sock q > 0 then reply_send (q_sock q) (q_protocol q) msg' (int n) (q_addr q) s else Inr s)
             (\<lambda>s1. Inr (delete_query (q_id q) s1))))))" for good
  proof (cases "query_search (queries s) x")
    case (Some i)
    then obtain q where q: "query_at i s = Inr q" using query_at_Some by blast
    obtain msg' where m: "ns_setid msg (q_qid q) = Inr msg'" "length msg' = NS_PACKETSZ"
      using assms(2) by (simp add: ns_setid_ok NS_PUT16_def Let_def)
    have "outcome (stops_of (n = NS_PACKETSZ)) (winv env k L) (if q_sock q > 0 then reply_send (q_sock q) (q_protocol q) msg' (int n) (q_addr q) s else Inr s)"
      using assms(1,4) m(2) by (auto simp: reply_send_def intro!: outcome_stops send_start_inv)
    then have "outcome (stops_of (n = NS_PACKETSZ)) (winv env k L) (bindE (if q_sock q > 0 then reply_send (q_sock q) (q_protocol q) msg' (int n) (q_addr q) s else Inr s)
        (\<lambda>s1. Inr (delete_query (q_id q) s1)))"
      by (rule outcome_bindE) (simp add: delete_query_inv)
    then show ?thesis using Some q m(1) x assms(1) by simp
  qed (use x assms(1) in simp)
  have "outcome (stops_of (n = NS_PACKETSZ)) (\<lambda>_. True) (if verbose (cfg s) then attempt (ns_parse_reply msg n) (Inr False) (\<lambda>_. Inr True) else Inr True)"
    using parse_reply_outcome [OF assms(3), of msg] assms(2,4)
    by (auto intro!: outcome_attempt [where Q = "\<lambda>_. True"] elim!: outcome_weaken split: if_splits)
  then show ?thesis unfolding reply_cb_def by (rule outcome_bindE) (rule main)
qed

interpretation dns: dnsmsg_client on_query on_reply
proof
  show "outcome stops (winv env k L) (on_query Query_cb (q_id q) (s\<lparr>queries := ql\<rparr>))"
    if "winv env k L s" "name_ok (q_name q)" "query_add (queries s) q = Some ql" for env k L s q ql
    using query_cb_inv [OF that] by (simp add: on_query_def)
  show "outcome (stops_of (n = NS_PACKETSZ)) (winv env k L) (on_reply fn msg n s)"
    if "winv env k L s" "fn \<in> {Test_cb, Reply_cb}" "length msg = NS_PACKETSZ" "0 < n" "n \<le> NS_PACKETSZ" for env k L s fn msg n
    using that test_cb_inv reply_cb_inv by (auto simp: on_reply_def)
qed

section \<open>Events\<close>

lemma accept_cb_inv:
  assumes "winv env k L s" "ios s w = Some io"
  shows "outcome stops (winv env k L) (accept_cb w s)"
proof -
  obtain sock s1 where r: "sys_ret s = (sock, s1)" by fastforce
  have "winv env k L s1" by (rule winv_sys_ret [OF r assms(1)])
  then show ?thesis using query_recv_inv winv_stream_options assms(2) r by (simp add: accept_cb_def io_of_def)
qed

lemma dispatch_inv:
  assumes "winv env k L s" "w \<in> set (watching (wlist s))"
  shows "outcome (stops_of (fills (sys s) (calls s) \<or> fills (sys s) (calls s + 1))) (winv env k L) (dispatch w s)"
proof -
  obtain io where io: "ios s w = Some io"
    using winvD(3) [OF assms] watch_ok_allocated by blast
  have go: "dispatch w s = (case ev_cb io of
      Accept_cb \<Rightarrow> accept_cb w s
    | Query_udp_recv_cb \<Rightarrow> query_udp_recv_cb on_query w s
    | Query_tcp_recv_cb \<Rightarrow> query_tcp_recv_cb on_query w s
    | Reply_udp_recv_cb \<Rightarrow> reply_udp_recv_cb on_reply w s
    | Reply_tcp_recv_cb \<Rightarrow> reply_tcp_recv_cb on_reply w s
    | Query_tcp_send_cb \<Rightarrow> query_tcp_send_cb w s
    | Reply_tcp_send_cb \<Rightarrow> reply_tcp_send_cb w s
    | Connect_cb \<Rightarrow> async_connect_cb on_connect w s
    | Socks5_send_cb \<Rightarrow> socks5_send_cb on_connect w s
    | Socks5_recv_cb \<Rightarrow> socks5_recv_cb on_connect w s)"
    by (simp add: dispatch_def io_of_def io)
  define bad where "bad = stops_of (fills (sys s) (calls s) \<or> fills (sys s) (calls s + 1))"
  have weaker: "outcome stops P m \<Longrightarrow> outcome bad P m" "outcome (stops_of (fills (sys s) (calls s))) P m \<Longrightarrow> outcome bad P m"
    "outcome (stops_of (fills (sys s) (calls s + 1))) P m \<Longrightarrow> outcome bad P m" for P :: "world \<Rightarrow> bool" and m
    unfolding bad_def by (auto intro: outcome_stops elim!: outcome_stops_of)
  note plain = accept_cb_inv [OF assms(1) io] tcp_send_cb_inv [OF assms io] conn.async_connect_cb_inv [OF assms io]
    conn.socks5_send_inv [OF assms io] conn.socks5_recv_inv [OF assms io]
  note received = dns.query_tcp_recv_inv [OF assms io] dns.reply_udp_recv_inv [OF assms io] dns.reply_tcp_recv_inv [OF assms io]
  have "outcome bad (winv env k L) (dispatch w s)"
    unfolding go
    by (cases "ev_cb io") (simp_all add: plain [THEN weaker(1)] received [THEN weaker(2)]
        dns.query_udp_recv_inv [OF assms io, THEN weaker(3)] query_tcp_send_cb_def reply_tcp_send_cb_def)
  then show ?thesis unfolding bad_def .
qed

lemma winv_mono: "winv env j L s \<Longrightarrow> k \<le> j \<Longrightarrow> winv env k L s"
proof -
  assume "winv env j L s" "k \<le> j"
  moreover then have "tables_ok env k s" using winvD(1) by (force simp: tables_ok_def ttl_ok_def)
  ultimately show ?thesis by (simp add: winv_def)
qed

text \<open>
  A tick of the table of verdicts uses up one of the ticks it is good for. When a verdict has one tick left,
  \<open>cache_tick\<close> uses freed memory instead.
\<close>

definition verdict_ends :: "cache \<Rightarrow> bool" where
  "verdict_ends c \<longleftrightarrow> (\<exists>n t item. key_ok t \<and> cache_search c n t = Inr (Some item) \<and> c_ttl item = 1)"

lemma ttl_ok_lasts: "ttl_ok (Suc k) c \<Longrightarrow> \<not> verdict_ends c"
  by (fastforce simp: ttl_ok_def verdict_ends_def)

lemma ttl_ok_tick:
  assumes "ttl_ok k c"
  shows "if verdict_ends c then cache_tick c = Inl Uaf
    else \<exists>c'. cache_tick c = Inr c' \<and> ttl_ok (k - 1) c' \<and> dom (eheap c') = dom (eheap c)"
proof (cases "verdict_ends c")
  case True
  with assms show ?thesis
    using cache_tick_cases [of c] unfolding ttl_ok_def verdict_ends_def by (auto split: if_splits)
next
  case False
  have wf: "wf_cache c" "k < TTL"
    and ttl: "\<And>n t item. key_ok t \<Longrightarrow> cache_search c n t = Inr (Some item) \<Longrightarrow> k < unat (c_ttl item)"
    using assms by (auto simp: ttl_ok_def)
  obtain c' where c: "cache_tick c = Inr c'" "wf_cache c'" "dom (eheap c') = dom (eheap c)"
    "\<forall>n t. key_ok t \<longrightarrow> (\<exists>r. cache_search c n t = Inr r \<and> cache_search c' n t = Inr (map_option decr r))"
    using cache_tick_cases [OF wf(1)] unfolding if_not_P [OF False [unfolded verdict_ends_def]] by blast
  have "k - 1 < unat (c_ttl item)" if key: "key_ok t" and item: "cache_search c' n t = Inr (Some item)" for n t item
  proof -
    obtain old where old: "cache_search c n t = Inr (Some old)" "item = decr old"
    proof -
      obtain r where "cache_search c n t = Inr r" "cache_search c' n t = Inr (map_option decr r)"
        using c(4) key by blast
      then show ?thesis using that item by (cases r) auto
    qed
    have "k < unat (c_ttl old)" by (rule ttl [OF key old(1)])
    moreover have "unat (c_ttl old) \<noteq> 1"
      using False key old(1) unfolding verdict_ends_def by (metis unat_1 word_unat_eq_iff)
    ultimately show ?thesis using old(2) by (auto simp: decr_def unat_sub_if' split: if_splits)
  qed
  then have "ttl_ok (k - 1) c'" using c(2) wf(2) by (auto simp: ttl_ok_def)
  then show ?thesis using False c by simp
qed

lemma tick_cb_inv:
  assumes "winv env k L s"
  shows "if verdict_ends (htab s) then tick_cb s = Inl Uaf else \<exists>s'. tick_cb s = Inr s' \<and> winv env (k - 1) L s'"
proof (cases "verdict_ends (htab s)")
  case True
  moreover have "ttl_ok k (htab s)" using winvD(1) [OF assms] by (simp add: tables_ok_def)
  ultimately show ?thesis using ttl_ok_tick [of k "htab s"] by (simp add: tick_cb_def)
next
  case False
  have t: "tables_ok env k s" by (rule winvD(1) [OF assms])
  then have "ttl_ok k (htab s)" by (simp add: tables_ok_def)
  then obtain c where c: "cache_tick (htab s) = Inr c" "ttl_ok (k - 1) c" "dom (eheap c) = dom (eheap (htab s))"
    using ttl_ok_tick [of k "htab s"] False by auto
  have "a < brk s" if "eheap c a \<noteq> None" for a
    using that c(3) t by (auto simp: tables_ok_def)
  moreover have "queries_ok (query_tick (queries s))"
    using t by (intro queries_ok_tick) (simp add: tables_queries)
  ultimately have "tables_ok env (k - 1) (s\<lparr>queries := query_tick (queries s), htab := c, brk := brk s\<rparr>)"
    using t c(2) by (simp add: tables_queries)
  moreover have "winv env (k - 1) L s" by (rule winv_mono [OF assms]) simp
  ultimately have "winv env (k - 1) L (s\<lparr>queries := query_tick (queries s), htab := c, brk := brk s\<rparr>)"
    by (intro winv_tables) auto
  then show ?thesis using False by (simp add: tick_cb_def c(1))
qed

text \<open>
  The event loop of the program, twice: with a verdict's lifetime as the number of ticks ahead, in which
  case no tick goes wrong; and for any number of ticks, one of which may use freed memory.
\<close>

abbreviation (input) some_fills :: "os \<Rightarrow> bool" where
  "some_fills env \<equiv> \<exists>n. fills env n"

lemma dispatch_env_inv:
  assumes "winv env k {#} s" "w \<in> set (watching (wlist s))"
  shows "outcome (stops_of (some_fills env)) (winv env k {#}) (dispatch w s)"
proof -
  have "sys s = env" using winvD(1) [OF assms(1)] by (simp add: tables_ok_def)
  then show ?thesis by (intro outcome_stops_of [OF dispatch_inv [OF assms]]) auto
qed

interpretation events: loop_client dispatch tick_cb "\<lambda>k. winv env k {#}" "stops_of (some_fills env)" for env
proof
  show "watchers_ok s" if "winv env k {#} s" for k s using winvD(2) that .
  show "winv env k {#} (s\<lparr>changed := False\<rparr>)" "winv env k {#} (ev_stop s)" if "winv env k {#} s" for k s
    using that by (simp_all add: ev_stop_def)
  show "outcome (stops_of (some_fills env)) (winv env k {#}) (dispatch p s)"
    if "winv env k {#} s" "p \<in> set (watching (wlist s))" for k s p
    using that by (rule dispatch_env_inv)
  show "outcome (stops_of (some_fills env)) (winv env k {#}) (tick_cb s)" if "winv env (Suc k) {#} s" for k s
  proof -
    have "\<not> verdict_ends (htab s)" using winvD(1) [OF that] ttl_ok_lasts [of k "htab s"] by (simp add: tables_ok_def)
    then show ?thesis using tick_cb_inv [OF that] by auto
  qed
qed

interpretation long_run: loop_client dispatch tick_cb "\<lambda>k. winv env 0 {#}" "insert Uaf (stops_of (some_fills env))" for env
proof
  show "watchers_ok s" if "winv env 0 {#} s" for s using winvD(2) that .
  show "winv env 0 {#} (s\<lparr>changed := False\<rparr>)" "winv env 0 {#} (ev_stop s)" if "winv env 0 {#} s" for s
    using that by (simp_all add: ev_stop_def)
  show "outcome (insert Uaf (stops_of (some_fills env))) (winv env 0 {#}) (dispatch p s)"
    if "winv env 0 {#} s" "p \<in> set (watching (wlist s))" for s p
    by (rule outcome_weaken [OF dispatch_env_inv [OF that]]) auto
  show "outcome (insert Uaf (stops_of (some_fills env))) (winv env 0 {#}) (tick_cb s)" if "winv env 0 {#} s" for s
    using tick_cb_inv [OF that] by (auto split: if_splits)
qed

section \<open>Start and run\<close>

text \<open>Before the first watcher is set up.\<close>

definition fresh :: "world \<Rightarrow> bool" where
  "fresh s \<longleftrightarrow> wlist s = replicate WLIST_SIZE None \<and> objs s = (\<lambda>a. None) \<and> ios s = (\<lambda>p. None) \<and> queries s = qlist_init
     \<and> htab s = cache_init"

lemma fresh_winv: "fresh s \<Longrightarrow> k < TTL \<Longrightarrow> winv (sys s) k {#} s"
proof -
  assume f: "fresh s" and k: "k < TTL"
  have "ids_ok qlist_init" by (simp add: ids_ok_def ids_def)
  moreover have "length qlist_init = QLIST_SIZE" by (simp add: qlist_init_def)
  moreover have "ttl_ok k cache_init" using k search_empty by (simp add: ttl_ok_def wf_cache_init)
  ultimately have "tables_ok (sys s) k s" using f by (simp add: tables_ok_def fresh_def)
  moreover have "watching (wlist s) = []" "length (wlist s) = WLIST_SIZE"
    using f by (simp_all add: fresh_def del: replicate.simps replicate_Suc watching.simps)
  ultimately show ?thesis using f by (simp add: winv_def fresh_def)
qed

lemma start_watching_inv:
  assumes "fresh s" "k < TTL"
  shows "outcome stops (winv (sys s) k {#}) (start_watching s)"
proof -
  have s: "winv (sys s) k {#} s" by (rule fresh_winv [OF assms])
  have "tables_ok (sys s) k (s\<lparr>queries := queries s, htab := htab s, brk := brk s + 1\<rparr>)"
    using winvD(1) [OF s] by (auto simp: tables_ok_def intro: less_SucI)
  then have "winv (sys s) k {#} (s\<lparr>queries := queries s, htab := htab s, brk := brk s + 1\<rparr>)" by (rule winv_tables [OF s]) simp
  then have b: "winv (sys s) k {#} (s\<lparr>brk := brk s + 1\<rparr>)" by simp
  define s0 where "s0 = s\<lparr>brk := brk s + 1, objs := (objs s)(brk s \<mapsto> W_tcp)\<rparr>"
  have "winv (sys s) k (add_mset (brk s) {#}) (s\<lparr>brk := brk s + 1\<rparr>\<lparr>objs := (objs (s\<lparr>brk := brk s + 1\<rparr>))(brk s \<mapsto> W_tcp)\<rparr>)"
    using assms(1) by (intro winv_alloc [OF b]) (simp_all add: fresh_def)
  then have s0: "winv (sys s) k (add_mset (brk s) {#}) s0" by (simp add: s0_def)
  let ?w = "(brk s, F_w)" and ?c = "cfg s"
  let ?s1 = "s0\<lparr>ios := (ios s0)(?w \<mapsto> \<lparr>ev_fd = sock_tcp ?c, ev_event = EV_READ, ev_cb = Accept_cb\<rparr>)\<rparr>"
  have accept: "outcome stops (winv (sys s) k {#}) (bindE (ev_io_init s0 ?w Accept_cb (sock_tcp ?c) EV_READ) (\<lambda>s1. ev_io_start s1 ?w))"
  proof (cases "sock_tcp ?c > 0")
    case True
    note i = winv_io_init [where w = ?w and s = s0 and k = k and L = "{#}" and fd = "sock_tcp ?c" and cb = Accept_cb and event = EV_READ]
    have "watch_ok ?s1 ?w" using True by (simp add: watch_ok_def s0_def)
    then have "outcome stops (winv (sys s) k {#}) (ev_io_start ?s1 ?w)" using i(2) s0 True by (intro winv_start) simp_all
    then show ?thesis using i(1) s0 True by simp
  qed (simp add: ev_io_init_def)
  have rest: "outcome stops (winv (sys s) k {#})
      (bindE (query_recv (sock_udp ?c) ns_udp Query_cb s2) (\<lambda>s3.
       bindE (reply_recv (sock_test ?c) ns_udp Test_cb s3) (\<lambda>s4.
       bindE (reply_recv (sock_cn ?c) ns_udp Reply_cb s4) (\<lambda>s5.
       reply_recv (sock_server ?c) ns_udp Reply_cb s5))))"
    if s2: "winv (sys s) k {#} s2" for s2
    by (intro outcome_bindE [OF query_recv_inv [OF s2]] outcome_bindE [OF reply_recv_inv] reply_recv_inv) auto
  have "outcome stops (winv (sys s) k {#}) (bindE (bindE (ev_io_init s0 ?w Accept_cb (sock_tcp ?c) EV_READ) (\<lambda>s1. ev_io_start s1 ?w))
      (\<lambda>s2. bindE (query_recv (sock_udp ?c) ns_udp Query_cb s2) (\<lambda>s3.
       bindE (reply_recv (sock_test ?c) ns_udp Test_cb s3) (\<lambda>s4.
       bindE (reply_recv (sock_cn ?c) ns_udp Reply_cb s4) (\<lambda>s5.
       reply_recv (sock_server ?c) ns_udp Reply_cb s5)))))"
    by (rule outcome_bindE [OF accept]) (rule rest)
  then show ?thesis by (simp add: start_watching_def Let_def bindE_assoc s0_def)
qed

text \<open>Until the loop begins the time stays as \<open>ev_init\<close> set it.\<close>

lemma recv_start_tv: "recv_start udp_fn tcp_fn sock prot cb s = Inr s' \<Longrightarrow> tv s' = tv s"
  by (auto simp: recv_start_def malloc_obj_def malloc_at_def malloc_ok_def malloc_buf_def ev_io_init_def ev_io_start_def free_obj_def
      set_obj_def bindE_Inr_iff Let_def split: if_splits option.splits)

lemma start_watching_tv: "start_watching s = Inr s' \<Longrightarrow> tv s' = tv s"
  by (auto simp: start_watching_def query_recv_def reply_recv_def bindE_Inr_iff ev_io_init_def ev_io_start_def Let_def
      dest!: recv_start_tv split: if_splits option.splits)

lemma sans_run_inv:
  assumes "fresh s"
  shows "outcome (stops_of (some_fills (sys s)) \<union> (if ticks (tv s) (clock rounds) < TTL then {} else {Uaf}))
    (winv (sys s) 0 {#}) (sans_run rounds s)"
proof -
  define k where "k = (if ticks (tv s) (clock rounds) < TTL then ticks (tv s) (clock rounds) else 0)"
  let ?bad = "stops_of (some_fills (sys s)) \<union> (if ticks (tv s) (clock rounds) < TTL then {} else {Uaf})"
  have "outcome stops (\<lambda>s1. winv (sys s) k {#} s1 \<and> tv s1 = tv s) (start_watching s)"
    using start_watching_inv [OF assms, of k] start_watching_tv [of s] by (cases "start_watching s") (auto simp: k_def)
  then have "outcome ?bad (\<lambda>s1. winv (sys s) k {#} s1 \<and> tv s1 = tv s) (start_watching s)"
    by (rule outcome_weaken) (auto simp: stops_of_def)
  then show ?thesis
    unfolding sans_run_def
  proof (rule outcome_bindE)
    fix s1
    assume s1: "winv (sys s) k {#} s1 \<and> tv s1 = tv s"
    have "outcome ?bad (winv (sys s) 0 {#}) (ev_run dispatch tick_cb rounds s1)"
    proof (cases "ticks (tv s) (clock rounds) < TTL")
      case True
      have "outcome (stops_of (some_fills (sys s))) (\<lambda>s'. \<exists>k. winv (sys s) k {#} s') (ev_run dispatch tick_cb rounds s1)"
        using s1 True by (intro events.ev_run_inv) (simp add: k_def)
      then show ?thesis by (rule outcome_weaken) (use True in \<open>auto intro: winv_mono\<close>)
    next
      case False
      have "outcome (insert Uaf (stops_of (some_fills (sys s)))) (\<lambda>s'. \<exists>k :: nat. winv (sys s) 0 {#} s') (ev_run dispatch tick_cb rounds s1)"
        using s1 False by (intro long_run.ev_run_inv) (simp add: k_def)
      then show ?thesis by (rule outcome_weaken) (use False in auto)
    qed
    then show "outcome ?bad (winv (sys s) 0 {#}) (bindE (ev_run dispatch tick_cb rounds s1) (\<lambda>s2. Inr (if run s2 then s2 else close_all (cfg s) s2)))"
      by (rule outcome_bindE) (auto simp: close_all_def)
  qed
qed

end
