(* ===== verification/Forward.thy ===== *)
theory Forward
  imports Safety
begin

text \<open>
  What the forwarder does, event by event, as equations on the whole state: which message it sends to
  whom for a query, a test reply and a reply; and, composed, what a client sees. Names are those of
  ordinary labels here, for which the message made is the plain encoding of the name.
\<close>

section \<open>The message sent\<close>

text \<open>
  A standard query with recursion desired, one question and nothing else, under an id in network byte
  order.
\<close>

definition query_msg :: "16 word \<Rightarrow> label list \<Rightarrow> int \<Rightarrow> byte list" where
  "query_msg ident ls type =
     NS_PUT16 (uint ident) @ [1, 0, 0, 1, 0, 0, 0, 0, 0, 0] @ enc_name ls @ NS_PUT16 type @ NS_PUT16 ns_c_in"

definition plain_name :: "label list \<Rightarrow> bool" where
  "plain_name ls \<longleftrightarrow> (\<forall>l \<in> set ls. ok_label l \<and> is_plain l) \<and> length (enc_name ls) \<le> NS_MAXCDNAME"

text \<open>The state after a datagram was sent.\<close>

definition sent :: "int \<Rightarrow> byte list \<Rightarrow> sockaddr \<Rightarrow> world \<Rightarrow> world" where
  "sent fd data peer s = emit (Sendto fd data peer) (s\<lparr>calls := calls s + 1\<rparr>)"

lemma sent_fields [simp]:
  "trace (sent fd data peer s) = trace s @ [Sendto fd data peer]" "calls (sent fd data peer s) = calls s + 1"
  "queries (sent fd data peer s) = queries s" "htab (sent fd data peer s) = htab s" "cfg (sent fd data peer s) = cfg s"
  "sys (sent fd data peer s) = sys s" "objs (sent fd data peer s) = objs s" "ios (sent fd data peer s) = ios s"
  "wlist (sent fd data peer s) = wlist s" "rnds (sent fd data peer s) = rnds s" "brk (sent fd data peer s) = brk s"
  by (simp_all add: sent_def emit_def)

lemma take_setid:
  assumes "stands_at mem 0 (query_bytes rnd ls type)" "16 + length (enc_name ls) \<le> length mem"
  shows "take (16 + length (enc_name ls)) (mem_put mem 0 (NS_PUT16 (uint ident))) = query_msg ident ls type"
proof -
  let ?rest = "[1, 0, 0, 1, 0, 0, 0, 0, 0, 0] @ enc_name ls @ NS_PUT16 type @ NS_PUT16 ns_c_in"
  let ?mem = "mem_put mem 0 (NS_PUT16 (uint ident))"
  have q: "query_bytes r ls type = [ucast r, ucast (drop_bit 8 r)] @ ?rest" for r
    by (simp add: query_bytes_def)
  have "stands_at mem (0 + 2) ?rest"
    using assms(1) unfolding q stands_at_append by simp
  then have "stands_at ?mem (0 + 2) ?rest" using assms(2) by (intro stands_at_put_other) auto
  moreover have "stands_at ?mem 0 (NS_PUT16 (uint ident))" using assms(2) by (intro stands_at_put) simp
  ultimately have "stands_at ?mem 0 (NS_PUT16 (uint ident) @ ?rest)" unfolding stands_at_append by simp
  then show ?thesis by (simp add: stands_at_def query_msg_def)
qed

lemma make_query_sends:
  assumes "plain_name ls" "rnds s = r # rs"
  shows "\<exists>msg. make_query (text_name ls) type ident s = Inr ((msg, int (16 + length (enc_name ls))), s\<lparr>rnds := rs\<rparr>)
    \<and> length msg = NS_PACKETSZ \<and> take (16 + length (enc_name ls)) msg = query_msg ident ls type"
proof -
  have ls: "\<forall>l \<in> set ls. ok_label l \<and> is_plain l" "length (enc_name ls) \<le> NS_MAXCDNAME"
    using assms(1) by (simp_all add: plain_name_def)
  let ?buf = "junk NS_PACKETSZ s"
  have buf: "length ?buf = NS_PACKETSZ" by (simp add: junk_def)
  obtain mem where mem: "ns_mkquery r ?buf (text_name ls) type = Inr (mem, 16 + length (enc_name ls))"
    "length mem = NS_PACKETSZ" "stands_at mem 0 (query_bytes r ls type)"
    using ns_mkquery_ok [OF ls, of ?buf r type] buf ls(2) by auto
  let ?msg = "mem_put mem 0 (NS_PUT16 (uint ident))"
  have "ns_setid mem ident = Inr ?msg" "length ?msg = NS_PACKETSZ"
    using mem(2) by (simp_all add: ns_setid_ok)
  moreover have "take (16 + length (enc_name ls)) ?msg = query_msg ident ls type"
    using take_setid [OF mem(3)] mem(2) ls(2) by simp
  ultimately show ?thesis using mem(1) assms(2) by (auto simp: make_query_def rand_uint16_def Let_def)
qed

lemma udp_query_sends:
  assumes "plain_name ls" "rnds s = r # rs"
  shows "udp_query sock peer (text_name ls) type ident s = Inr (sent sock (query_msg ident ls type) peer (s\<lparr>rnds := rs\<rparr>))"
proof -
  obtain msg where msg: "make_query (text_name ls) type ident s = Inr ((msg, int (16 + length (enc_name ls))), s\<lparr>rnds := rs\<rparr>)"
    "length msg = NS_PACKETSZ" "take (16 + length (enc_name ls)) msg = query_msg ident ls type"
    using make_query_sends [OF assms] by blast
  have "length (enc_name ls) \<le> NS_MAXCDNAME" using assms(1) by (simp add: plain_name_def)
  then show ?thesis
    using msg by (simp add: udp_query_def query_send_def send_start_def rd_n_ok sys_ret_def sent_def nat_add_distrib)
qed

section \<open>The callbacks\<close>

text \<open>Where a query goes: socket, server and type, by what the table of verdicts knows of the name.\<close>

definition route :: "settings \<Rightarrow> cache_t option \<Rightarrow> int \<Rightarrow> int \<times> sockaddr \<times> int" where
  "route c verdict type = (case verdict of
      None \<Rightarrow> (sock_test c, test_server c, ns_t_soa)
    | Some item \<Rightarrow> if c_block item \<noteq> 0 then (sock_server c, server c, type) else (sock_cn c, cn_server c, type))"

text \<open>Whether a datagram is sent: blocked names go over a connection unless \<open>nspresolver\<close> is set.\<close>

definition by_udp :: "settings \<Rightarrow> cache_t option \<Rightarrow> bool" where
  "by_udp c verdict \<longleftrightarrow> nspresolver c \<or> (case verdict of None \<Rightarrow> True | Some item \<Rightarrow> c_block item = 0)"

lemma renew_id_eq:
  assumes "query_search (queries s) x = Some i" "query_at i s = Inr q" "ns_newid (queries s) (rnds s) = Inr (new, rest)"
  shows "renew_id i s = Inr (s\<lparr>queries := query_set_id (queries s) i new, rnds := rest\<rparr>)"
    "query_at i (s\<lparr>queries := query_set_id (queries s) i new, rnds := rest\<rparr>) = Inr (q\<lparr>q_id := new\<rparr>)"
proof -
  have "queries s ! i = Some q" using assms(2) by (simp add: query_at_def split: option.splits)
  moreover have "i < length (queries s)" using assms(1) by (simp add: query_search_Some)
  ultimately show "renew_id i s = Inr (s\<lparr>queries := query_set_id (queries s) i new, rnds := rest\<rparr>)"
    "query_at i (s\<lparr>queries := query_set_id (queries s) i new, rnds := rest\<rparr>) = Inr (q\<lparr>q_id := new\<rparr>)"
    using assms(3) by (simp_all add: renew_id_def query_at_def query_set_id_def)
qed

lemma ask_udp:
  assumes "by_udp (cfg s) (Some item)" "q_name q = text_name ls" "plain_name ls" "rnds s = r # rest"
    "route (cfg s) (Some item) (q_type q) = (sock, peer, type)"
  shows "(if c_block item \<noteq> 0 then ask_server q s else ask_cn q s)
    = Inr (sent sock (query_msg (q_id q) ls type) peer (s\<lparr>rnds := rest\<rparr>))"
  using assms udp_query_sends [OF assms(3,4)]
  by (auto simp: route_def by_udp_def ask_server_def ask_cn_def split: if_splits)

text \<open>What \<open>query_cb\<close> does once it has found the query and given it a new id.\<close>

definition ask :: "cache_t option \<Rightarrow> query_t \<Rightarrow> world \<Rightarrow> world cres" where
  "ask verdict q s = (case verdict of
      None \<Rightarrow> udp_query (sock_test (cfg s)) (test_server (cfg s)) (q_name q) ns_t_soa (q_id q) s
    | Some item \<Rightarrow> if c_block item \<noteq> 0 then ask_server q s else ask_cn q s)"

lemma query_cb_ask:
  assumes "query_search (queries s) ident = Some i" "query_at i s = Inr q"
    "ns_newid (queries s) (rnds s) = Inr (new, rest)" "cache_search (htab s) (q_name q) ns_t_block = Inr verdict"
  shows "query_cb ident s = ask verdict (q\<lparr>q_id := new\<rparr>) (s\<lparr>queries := query_set_id (queries s) i new, rnds := rest\<rparr>)"
  using assms(1,4) renew_id_eq [OF assms(1-3)] by (cases verdict) (simp_all add: query_cb_def ask_def)

lemma ask_sends:
  assumes "by_udp (cfg s) verdict" "q_name q = text_name ls" "plain_name ls" "rnds s = r # rest"
    "route (cfg s) verdict (q_type q) = (sock, peer, type)"
  shows "ask verdict q s = Inr (sent sock (query_msg (q_id q) ls type) peer (s\<lparr>rnds := rest\<rparr>))"
proof (cases verdict)
  case None
  then show ?thesis using udp_query_sends [OF assms(3,4)] assms(2,5) by (simp add: ask_def route_def)
next
  case (Some item)
  then show ?thesis using ask_udp [OF assms(1) [unfolded Some] assms(2-5) [unfolded Some]] by (simp add: ask_def)
qed

lemma query_cb_udp:
  assumes "query_search (queries s) ident = Some i" "query_at i s = Inr q" "q_name q = text_name ls" "plain_name ls"
    "ns_newid (queries s) (rnds s) = Inr (new, r # rest)"
    "cache_search (htab s) (q_name q) ns_t_block = Inr verdict" "by_udp (cfg s) verdict"
    "route (cfg s) verdict (q_type q) = (sock, peer, type)"
  shows "query_cb ident s
    = Inr (sent sock (query_msg new ls type) peer (s\<lparr>queries := query_set_id (queries s) i new, rnds := rest\<rparr>))"
  using query_cb_ask [OF assms(1,2,5,6)] assms(3,4,7,8)
    ask_sends [where verdict = verdict and q = "q\<lparr>q_id := new\<rparr>" and s = "s\<lparr>queries := query_set_id (queries s) i new, rnds := r # rest\<rparr>"]
  by simp

lemma getid_reply: "ns_getid ((NS_PUT16 (uint (x :: 16 word)) @ body) @ pad) = Inr x"
proof -
  have "stands_at ((NS_PUT16 (uint x) @ body) @ pad) 0 (NS_PUT16 (uint x))"
    using stands_at_self [of "[]" 0 "NS_PUT16 (uint x)" "body @ pad"] by simp
  then show ?thesis by (simp add: ns_getid_def NS_GET16_put)
qed

lemma reply_cb_eq:
  assumes "query_search (queries s) x = Some i" "query_at i s = Inr q" "q_sock q > 0"
    "msg = (NS_PUT16 (uint x) @ body) @ pad" "length msg = NS_PACKETSZ" "n = 2 + length body"
    "verbose (cfg s) \<longrightarrow> (\<exists>r. ns_parse_reply msg n = Inr r)"
  obtains msg' where "length msg' = NS_PACKETSZ" "take n msg' = NS_PUT16 (uint (q_qid q)) @ body"
    "reply_cb msg n s = bindE (reply_send (q_sock q) (q_protocol q) msg' (int n) (q_addr q) s) (\<lambda>s1. Inr (delete_query x s1))"
proof -
  have q: "queries s ! i = Some q" "q_id q = x"
    using assms(1,2) by (auto simp: query_at_def query_search_Some split: option.splits)
  let ?msg = "mem_put msg 0 (NS_PUT16 (uint (q_qid q)))"
  have set: "ns_setid msg (q_qid q) = Inr ?msg" using assms(4) by (simp add: ns_setid_ok)
  have id: "ns_getid msg = Inr x" unfolding assms(4) by (rule getid_reply)
  have "take n ?msg = NS_PUT16 (uint (q_qid q)) @ body" "length ?msg = NS_PACKETSZ"
    using assms(4-6) by (simp_all add: mem_put_def)
  moreover have good: "(if verbose (cfg s) then attempt (ns_parse_reply msg n) (Inr False) (\<lambda>_. Inr True) else Inr True) = Inr True"
    using assms(7) by auto
  have "reply_cb msg n s = bindE (reply_send (q_sock q) (q_protocol q) ?msg (int n) (q_addr q) s) (\<lambda>s1. Inr (delete_query x s1))"
    unfolding reply_cb_def good using set id assms(1-3) q(2) by simp
  ultimately show ?thesis using that by blast
qed

lemma delete_query_search:
  "query_search (queries s) x = Some i \<Longrightarrow> delete_query x s = s\<lparr>queries := (queries s)[i := None]\<rparr>"
  by (simp add: delete_query_def query_delete_search)

lemma reply_cb_udp:
  assumes "query_search (queries s) x = Some i" "query_at i s = Inr q" "q_sock q > 0" "q_protocol q = ns_udp"
    "msg = (NS_PUT16 (uint x) @ body) @ pad" "length msg = NS_PACKETSZ" "n = 2 + length body"
    "verbose (cfg s) \<longrightarrow> (\<exists>r. ns_parse_reply msg n = Inr r)"
  shows "reply_cb msg n s = Inr (sent (q_sock q) (NS_PUT16 (uint (q_qid q)) @ body) (q_addr q)
    (s\<lparr>queries := (queries s)[i := None]\<rparr>))"
proof -
  obtain msg' where msg': "length msg' = NS_PACKETSZ" "take n msg' = NS_PUT16 (uint (q_qid q)) @ body"
    "reply_cb msg n s = bindE (reply_send (q_sock q) (q_protocol q) msg' (int n) (q_addr q) s) (\<lambda>s1. Inr (delete_query x s1))"
    by (rule reply_cb_eq [OF assms(1-3,5-8)])
  have "n \<le> length msg'" using assms(5-7) msg'(1) by simp
  then have "reply_send (q_sock q) (q_protocol q) msg' (int n) (q_addr q) s
      = Inr (sent (q_sock q) (NS_PUT16 (uint (q_qid q)) @ body) (q_addr q) s)"
    using assms(4) msg'(2) by (simp add: reply_send_def send_start_def rd_n_ok sys_ret_def sent_def)
  then show ?thesis
    using msg'(3) delete_query_search [of "sent (q_sock q) (NS_PUT16 (uint (q_qid q)) @ body) (q_addr q) s" x i] assms(1)
    by (simp add: sent_def emit_def)
qed

text \<open>The verdict \<open>test_cb\<close> stores.\<close>

definition verdict_on :: "cstr \<Rightarrow> bool \<Rightarrow> cache_t" where
  "verdict_on name blocked = \<lparr>c_name = name, c_ttl = 518400, c_type = ns_t_block, c_block = (if blocked then 1 else 0)\<rparr>"

text \<open>The table of verdicts, and the addresses of its entries.\<close>

definition verdicts_ok :: "world \<Rightarrow> bool" where
  "verdicts_ok s \<longleftrightarrow> wf_cache (htab s) \<and> (\<forall>a. eheap (htab s) a \<noteq> None \<longrightarrow> a < brk s)"

lemma insert_verdict_new:
  assumes "verdicts_ok s" "c_type item = ns_t_block" "os_mem (sys s) (calls s)"
    "cache_search (htab s) (c_name item) ns_t_block = Inr None"
  shows "\<exists>c. insert_verdict item s = Inr (s\<lparr>calls := calls s + 1, brk := brk s + 1, htab := c\<rparr>)
    \<and> verdicts_ok (s\<lparr>calls := calls s + 1, brk := brk s + 1, htab := c\<rparr>)
    \<and> cache_search c (c_name item) ns_t_block = Inr (Some item)
    \<and> (\<forall>n. n \<noteq> c_name item \<longrightarrow> cache_search c n ns_t_block = cache_search (htab s) n ns_t_block)"
proof -
  have key: "key_ok (c_type item)" "key_ok ns_t_block" by (simp_all add: assms(2) key_ok_def)
  have fresh: "\<forall>a. Some (brk s) = Some a \<longrightarrow> eheap (htab s) a = None" using assms(1) by (auto simp: verdicts_ok_def)
  have wf: "wf_cache (htab s)" using assms(1) by (simp add: verdicts_ok_def)
  obtain c where c: "cache_insert (htab s) item (Some (brk s)) = Inr (c, True)" "wf_cache c"
    "\<forall>n t. key_ok t \<longrightarrow> cache_search c n t = (if (n, t) = key item then Inr (Some item) else cache_search (htab s) n t)"
    using cache_insert_spec [OF wf key(1) fresh] assms(2,4) by auto
  have "a < brk s + 1" if "eheap c a \<noteq> None" for a
    using cache_insert_heap [OF c(1) that] assms(1) by (auto simp: verdicts_ok_def less_SucI)
  then show ?thesis
    using c key(2) assms(2,3) by (intro exI [of _ c]) (auto simp: insert_verdict_def malloc_at_def malloc_ok_def verdicts_ok_def key_def)
qed

lemma test_cb_udp:
  assumes "query_search (queries s) x = Some i" "query_at i s = Inr q" "q_name q = text_name ls" "plain_name ls"
    "ns_newid (queries s) (rnds s) = Inr (new, r # rest)"
    "ns_getid msg = Inr x" "ns_parse_reply msg n = Inr (name, atype)" "length name < NS_NAMESZ"
    "os_mem (sys s) (calls s)" "os_mem (sys s) (calls s + 2)" "verdicts_ok s" "cache_search (htab s) name ns_t_block = Inr None"
    "verdict = verdict_on name (atype = ns_t_a)" "by_udp (cfg s) (Some verdict)"
    "route (cfg s) (Some verdict) (q_type q) = (sock, peer, type)"
  shows "\<exists>c. test_cb msg n s = Inr (sent sock (query_msg new ls type) peer
      (s\<lparr>queries := query_set_id (queries s) i new, calls := calls s + 1, rnds := rest\<rparr>)\<lparr>calls := calls s + 3, brk := brk s + 1, htab := c\<rparr>)
    \<and> wf_cache c \<and> (\<forall>a. eheap c a \<noteq> None \<longrightarrow> a < brk s + 1) \<and> cache_search c name ns_t_block = Inr (Some verdict)
    \<and> (\<forall>m. m \<noteq> name \<longrightarrow> cache_search c m ns_t_block = cache_search (htab s) m ns_t_block)"
proof -
  let ?s1 = "s\<lparr>queries := query_set_id (queries s) i new, rnds := r # rest\<rparr>"
  let ?s2 = "?s1\<lparr>calls := calls s + 1\<rparr>"
  define s3 where "s3 = sent sock (query_msg new ls type) peer
    (s\<lparr>queries := query_set_id (queries s) i new, calls := calls s + 1, rnds := rest\<rparr>)"
  note n = renew_id_eq [OF assms(1,2,5)]
  have at: "query_at i ?s2 = Inr (q\<lparr>q_id := new\<rparr>)" using n(2) by (simp add: query_at_def)
  have ask: "(if atype = ns_t_a then ask_server (q\<lparr>q_id := new\<rparr>) ?s2 else ask_cn (q\<lparr>q_id := new\<rparr>) ?s2) = Inr s3"
    using ask_udp [where s = ?s2 and q = "q\<lparr>q_id := new\<rparr>" and item = verdict and ls = ls and r = r and rest = rest
        and sock = sock and peer = peer and type = type] assms(3,4,13-15)
    by (simp add: s3_def verdict_on_def split: if_splits)
  have s3: "verdicts_ok s3" "os_mem (sys s3) (calls s3)" "cache_search (htab s3) (c_name verdict) ns_t_block = Inr None"
    "c_type verdict = ns_t_block" "brk s3 = brk s" "calls s3 = calls s + 2" "htab s3 = htab s" "c_name verdict = name"
    using assms(10-13) by (simp_all add: s3_def verdicts_ok_def verdict_on_def)
  obtain c where c: "insert_verdict verdict s3 = Inr (s3\<lparr>calls := calls s3 + 1, brk := brk s3 + 1, htab := c\<rparr>)"
    "verdicts_ok (s3\<lparr>calls := calls s3 + 1, brk := brk s3 + 1, htab := c\<rparr>)"
    "cache_search c name ns_t_block = Inr (Some verdict)"
    "\<forall>m. m \<noteq> name \<longrightarrow> cache_search c m ns_t_block = cache_search (htab s) m ns_t_block"
    using insert_verdict_new [OF s3(1,4,2,3)] unfolding s3(7,8) by blast
  have "test_cb msg n s = insert_verdict verdict s3"
    using assms(1,6-9,13) n(1) at ask
    by (cases "atype = ns_t_a") (simp_all add: test_cb_def malloc_ok_def strcpy_def verdict_on_def Let_def)
  then show ?thesis
    unfolding s3_def [symmetric] using c s3(5,6)
    by (intro exI [of _ c]) (simp add: verdicts_ok_def eval_nat_numeral)
qed

section \<open>Events\<close>

text \<open>A watcher of a UDP socket, with the program's callback behind it.\<close>

definition waits :: "world \<Rightarrow> wptr \<Rightarrow> int \<Rightarrow> watcher_fn \<Rightarrow> user_fn \<Rightarrow> bool" where
  "waits s w fd fn cb \<longleftrightarrow> ios s w = Some \<lparr>ev_fd = fd, ev_event = EV_READ, ev_cb = fn\<rparr>
     \<and> (\<exists>x. objs s (fst w) = Some (Dnsmsg x) \<and> x_cb x = cb)"

text \<open>A query as it is pending: the client's id, and the id under which it was sent on.\<close>

definition pending_query :: "16 word \<Rightarrow> 16 word \<Rightarrow> int \<Rightarrow> sockaddr \<times> nat \<Rightarrow> int \<Rightarrow> label list \<Rightarrow> query_t" where
  "pending_query new x fd from type ls =
     \<lparr>q_id = new, q_qid = x, q_ttl = 10, q_sock = fd, q_protocol = ns_udp, q_addr = fst from, q_addrlen = snd from,
      q_type = type, q_name = text_name ls\<rparr>"

lemma pending_query_fields [simp]:
  "q_id (pending_query new x fd from type ls) = new" "q_qid (pending_query new x fd from type ls) = x"
  "q_sock (pending_query new x fd from type ls) = fd" "q_protocol (pending_query new x fd from type ls) = ns_udp"
  "q_addr (pending_query new x fd from type ls) = fst from" "q_type (pending_query new x fd from type ls) = type"
  "q_name (pending_query new x fd from type ls) = text_name ls"
  "pending_query new x fd from type ls\<lparr>q_id := y\<rparr> = pending_query y x fd from type ls"
  by (simp_all add: pending_query_def)

lemma search_added:
  assumes "mset (pending ql) = add_mset q M" "q_id q \<notin># image_mset q_id M"
  obtains i where "query_search ql (q_id q) = Some i" "i < length ql" "ql ! i = Some q"
proof -
  have "q_id q \<in> ids ql" using assms(1) by (simp add: ids_mset)
  then obtain i where i: "query_search ql (q_id q) = Some i" using query_search_None [of ql "q_id q"] by auto
  then obtain p where p: "i < length ql" "ql ! i = Some p" "q_id p = q_id q" "p \<in> set (pending ql)"
    by (rule slot_query)
  then have "p \<in># add_mset q M" by (simp flip: assms(1))
  moreover have "p \<notin># M" using assms(2) p(3) by (metis image_eqI set_image_mset)
  ultimately have "p = q" by simp
  then show ?thesis using that i p by simp
qed

lemma query_msg_bytes: "\<exists>rnd. query_msg x ls type = query_bytes rnd ls type"
proof -
  define rnd :: "16 word" where "rnd = push_bit 8 (ucast (ucast x :: byte)) OR ucast (ucast (drop_bit 8 x) :: byte)"
  have "NS_PUT16 (uint x) = [ucast rnd, ucast (drop_bit 8 rnd)]"
    by (auto simp: NS_PUT16_def Let_def rnd_def intro!: bit_word_eqI simp: bit_simps)
  then show ?thesis by (auto simp: query_msg_def query_bytes_def)
qed

lemma parse_query_msg:
  assumes "plain_name ls" "0 \<le> type" "type < 2 ^ 16"
  shows "ns_parse_query (query_msg x ls type @ pad) (length (query_msg x ls type)) = Inr (text_name ls, type)"
    "ns_getid (query_msg x ls type @ pad) = Inr x" "query_msg x ls type \<noteq> []" "length (query_msg x ls type) < NS_PACKETSZ"
proof -
  obtain rnd where q: "query_msg x ls type = query_bytes rnd ls type" using query_msg_bytes by blast
  have "stands_at (query_msg x ls type @ pad) 0 (query_bytes rnd ls type)"
    unfolding q using stands_at_self [of "[]" 0 "query_bytes rnd ls type" pad] by simp
  then show "ns_parse_query (query_msg x ls type @ pad) (length (query_msg x ls type)) = Inr (text_name ls, type)"
    using assms q by (intro parse_query_bytes) (auto simp: plain_name_def)
  show "ns_getid (query_msg x ls type @ pad) = Inr x"
    unfolding query_msg_def by (rule getid_reply)
  show "query_msg x ls type \<noteq> []" by (simp add: query_msg_def)
  show "length (query_msg x ls type) < NS_PACKETSZ" using assms(1) unfolding q by (simp add: plain_name_def)
qed

text \<open>A query arrives: it joins the pending ones under the client's id, and \<open>query_cb\<close> is called with that id.\<close>

lemma receive_query:
  assumes "waits s w fd Query_udp_recv_cb Query_cb" "plain_name ls" "0 \<le> type" "type < 2 ^ 16"
    "os_mem (sys s) (calls s)" "os_recv (sys s) (calls s + 1) = Some (query_msg x ls type)"
    "from = os_from (sys s) (calls s + 1)" "length (pending (queries s)) < length (queries s)"
  obtains ql where "add_loop (queries s) (pending_query x x fd from type ls) = Some ql"
    "dispatch w s = query_cb x (s\<lparr>calls := calls s + 2, queries := ql\<rparr>)" "length ql = length (queries s)"
    "mset (pending ql) = add_mset (pending_query x x fd from type ls) (mset (pending (queries s)))"
proof -
  let ?q = "\<lparr>q_id = x, q_qid = 0, q_ttl = 0, q_sock = fd, q_protocol = ns_udp, q_addr = fst from, q_addrlen = snd from,
    q_type = type, q_name = text_name ls\<rparr>"
  obtain ql where ql: "add_loop (queries s) (pending_query x x fd from type ls) = Some ql"
    using assms(8) add_loop_None [of "queries s"] by auto
  then have add: "query_add (queries s) ?q = Some ql" by (simp add: query_add_def pending_query_def)
  note msg = parse_query_msg [OF assms(2-4), of x]
  have "dispatch w s = query_cb x (s\<lparr>calls := calls s + 2, queries := ql\<rparr>)"
    using assms(1,5,6,7) msg add
    by (auto simp: waits_def dispatch_def io_of_def query_udp_recv_cb_def dnsmsg_of_def malloc_ok_def sys_recv_def
        on_query_def Let_def)
  then show ?thesis using that ql add_loop_Some [OF ql] by blast
qed

lemma query_cb_added:
  assumes "mset (pending (queries s)) = add_mset q P" "q_id q = x" "x \<notin># image_mset q_id P"
    "rnds s = new # rest" "new \<notin> {0, x}" "new \<notin># image_mset q_id P" "cache_search (htab s) (q_name q) ns_t_block = Inr verdict"
  obtains ql where "query_cb x s = ask verdict (q\<lparr>q_id := new\<rparr>) (s\<lparr>queries := ql, rnds := rest\<rparr>)"
    "length ql = length (queries s)" "mset (pending ql) = add_mset (q\<lparr>q_id := new\<rparr>) P"
proof -
  obtain i where i: "query_search (queries s) x = Some i" "i < length (queries s)" "queries s ! i = Some q"
    using search_added [OF assms(1)] assms(2,3) by auto
  have "new \<notin> ids (queries s)" using assms(1,2,5,6) by (auto simp: ids_mset)
  then have "ns_newid (queries s) (rnds s) = Inr (new, rest)"
    using assms(4,5) query_search_None [of "queries s" new] by (simp add: ns_newid_def)
  then have "query_cb x s = ask verdict (q\<lparr>q_id := new\<rparr>) (s\<lparr>queries := query_set_id (queries s) i new, rnds := rest\<rparr>)"
    using i by (intro query_cb_ask assms(7)) (simp_all add: query_at_def)
  then show ?thesis
    using that [of "query_set_id (queries s) i new"] query_set_id_pending [OF i(2,3), of new] assms(1) by simp
qed

lemma dispatch_ask:
  assumes "waits s w fd Query_udp_recv_cb Query_cb" "plain_name ls" "0 \<le> type" "type < 2 ^ 16"
    "os_mem (sys s) (calls s)" "os_recv (sys s) (calls s + 1) = Some (query_msg x ls type)"
    "from = os_from (sys s) (calls s + 1)"
    "x \<notin> ids (queries s)" "length (pending (queries s)) < length (queries s)"
    "rnds s = new # rest" "new \<noteq> 0" "new \<notin> ids (queries s)" "new \<noteq> x"
    "cache_search (htab s) (text_name ls) ns_t_block = Inr verdict"
  obtains ql where "dispatch w s = ask verdict (pending_query new x fd from type ls) (s\<lparr>calls := calls s + 2, queries := ql, rnds := rest\<rparr>)"
    "length ql = length (queries s)"
    "mset (pending ql) = add_mset (pending_query new x fd from type ls) (mset (pending (queries s)))"
proof -
  obtain ql where go: "dispatch w s = query_cb x (s\<lparr>calls := calls s + 2, queries := ql\<rparr>)" and m: "length ql = length (queries s)"
    "mset (pending ql) = add_mset (pending_query x x fd from type ls) (mset (pending (queries s)))"
    using receive_query [OF assms(1-7,9)] by blast
  then show ?thesis
    using that query_cb_added [where s = "s\<lparr>calls := calls s + 2, queries := ql\<rparr>" and q = "pending_query x x fd from type ls"
        and x = x and new = new and rest = rest and P = "mset (pending (queries s))" and verdict = verdict] assms(8,10-14)
    by (auto simp: ids_mset)
qed

lemma dispatch_query:
  assumes "waits s w fd Query_udp_recv_cb Query_cb" "plain_name ls" "0 \<le> type" "type < 2 ^ 16"
    "os_mem (sys s) (calls s)" "os_recv (sys s) (calls s + 1) = Some (query_msg x ls type)"
    "from = os_from (sys s) (calls s + 1)"
    "x \<notin> ids (queries s)" "length (pending (queries s)) < length (queries s)"
    "rnds s = new # r # rest" "new \<noteq> 0" "new \<notin> ids (queries s)" "new \<noteq> x"
    "cache_search (htab s) (text_name ls) ns_t_block = Inr verdict" "by_udp (cfg s) verdict"
    "route (cfg s) verdict type = (sock, peer, rtype)"
  shows "\<exists>ql. dispatch w s
      = Inr (sent sock (query_msg new ls rtype) peer (s\<lparr>calls := calls s + 2, queries := ql, rnds := rest\<rparr>))
    \<and> length ql = length (queries s)
    \<and> mset (pending ql) = add_mset (pending_query new x fd from type ls) (mset (pending (queries s)))"
proof -
  obtain ql where ql: "dispatch w s
      = ask verdict (pending_query new x fd from type ls) (s\<lparr>calls := calls s + 2, queries := ql, rnds := r # rest\<rparr>)"
    "length ql = length (queries s)"
    "mset (pending ql) = add_mset (pending_query new x fd from type ls) (mset (pending (queries s)))"
    using dispatch_ask [OF assms(1-14)] by blast
  then show ?thesis
    using ask_sends [where verdict = verdict and q = "pending_query new x fd from type ls" and ls = ls
        and s = "s\<lparr>calls := calls s + 2, queries := ql, rnds := r # rest\<rparr>"] assms(2,15,16)
    by (intro exI [of _ ql]) simp
qed

text \<open>A query behind the first one with an id does not hide it.\<close>

lemma add_loop_search:
  "add_loop ql p = Some ql' \<Longrightarrow> query_search ql x = Some i \<Longrightarrow> \<forall>j < i. ql ! j \<noteq> None
   \<Longrightarrow> query_search ql' x = Some i \<and> ql' ! i = ql ! i"
proof (induction ql p arbitrary: ql' i rule: add_loop.induct)
  case (3 q ql p)
  show ?case
  proof (cases i)
    case 0
    then show ?thesis using "3.prems" by (auto split: if_splits)
  next
    case (Suc k)
    then have "query_search ql x = Some k" "\<forall>j < k. ql ! j \<noteq> None" "q_id q \<noteq> x"
      using "3.prems"(2,3) by (auto split: if_splits)
    then show ?thesis using "3.IH" [of _ k] "3.prems"(1) Suc by auto
  qed
qed auto

text \<open>A datagram for a reply watcher: the program's callback gets it in a buffer with junk behind it.\<close>

lemma dispatch_datagram:
  assumes "waits s w fd Reply_udp_recv_cb cb" "os_recv (sys s) (calls s) = Some (NS_PUT16 (uint (x :: 16 word)) @ body)"
    "2 + length body \<le> NS_PACKETSZ"
  obtains pad where "length ((NS_PUT16 (uint x) @ body) @ pad) = NS_PACKETSZ"
    "dispatch w s = on_reply cb ((NS_PUT16 (uint x) @ body) @ pad) (2 + length body) (s\<lparr>calls := calls s + 1\<rparr>)"
proof -
  let ?data = "NS_PUT16 (uint x) @ body" and ?pad = "drop (2 + length body) (junk NS_PACKETSZ s)"
  have ne: "?data \<noteq> []" by (metis append_is_Nil_conv length_NS_PUT16 length_0_conv zero_neq_numeral)
  have "take NS_PACKETSZ ?data = ?data" using assms(3) by simp
  then have "dispatch w s = on_reply cb (?data @ ?pad) (2 + length body) (s\<lparr>calls := calls s + 1\<rparr>)"
    using assms(1,2) ne by (auto simp: waits_def dispatch_def io_of_def reply_udp_recv_cb_def dnsmsg_of_def sys_recv_def Let_def
        simp del: take_append)
  moreover have "length (?data @ ?pad) = NS_PACKETSZ" using assms(3) by (simp add: junk_def)
  ultimately show ?thesis using that by blast
qed

lemma dispatch_reply:
  assumes "waits s w fd Reply_udp_recv_cb Reply_cb" "os_recv (sys s) (calls s) = Some (NS_PUT16 (uint new) @ body)"
    "2 + length body \<le> NS_PACKETSZ" "\<not> verbose (cfg s)"
    "mset (pending (queries s)) = add_mset q M" "q_id q = new" "new \<notin># image_mset q_id M" "q_sock q > 0" "q_protocol q = ns_udp"
  shows "\<exists>ql. dispatch w s = Inr (sent (q_sock q) (NS_PUT16 (uint (q_qid q)) @ body) (q_addr q) (s\<lparr>calls := calls s + 1, queries := ql\<rparr>))
    \<and> length ql = length (queries s) \<and> mset (pending ql) = M"
proof -
  obtain pad where pad: "length ((NS_PUT16 (uint new) @ body) @ pad) = NS_PACKETSZ"
    "dispatch w s = on_reply Reply_cb ((NS_PUT16 (uint new) @ body) @ pad) (2 + length body) (s\<lparr>calls := calls s + 1\<rparr>)"
    using dispatch_datagram [OF assms(1-3)] by blast
  obtain i where i: "query_search (queries s) new = Some i" "i < length (queries s)" "queries s ! i = Some q"
    using search_added [OF assms(5)] assms(6,7) by auto
  have "dispatch w s = Inr (sent (q_sock q) (NS_PUT16 (uint (q_qid q)) @ body) (q_addr q)
      (s\<lparr>calls := calls s + 1\<rparr>\<lparr>queries := (queries s)[i := None]\<rparr>))"
    unfolding pad(2)
    using reply_cb_udp [where s = "s\<lparr>calls := calls s + 1\<rparr>" and x = new and i = i and q = q and body = body and pad = pad
        and msg = "(NS_PUT16 (uint new) @ body) @ pad" and n = "2 + length body"] i assms(4,8,9) pad(1)
    by (simp add: on_reply_def query_at_def)
  moreover have "mset (pending ((queries s)[i := None])) = M"
    using pending_update_None [OF i(2,3)] assms(5) by simp
  ultimately show ?thesis by (intro exI [of _ "(queries s)[i := None]"]) simp
qed

lemma dispatch_test:
  assumes "waits s w fd Reply_udp_recv_cb Test_cb" "os_recv (sys s) (calls s) = Some (NS_PUT16 (uint x) @ body)"
    "2 + length body < NS_PACKETSZ"
    "\<And>pad. ns_parse_reply ((NS_PUT16 (uint x) @ body) @ pad) (2 + length body) = Inr (name, atype)"
    "mset (pending (queries s)) = add_mset (pending_query x cid cfd from type ls) M" "x \<notin># image_mset q_id M" "plain_name ls"
    "rnds s = new # r # rest" "new \<noteq> 0" "new \<notin> ids (queries s)"
    "os_mem (sys s) (calls s + 1)" "os_mem (sys s) (calls s + 3)" "verdicts_ok s" "cache_search (htab s) name ns_t_block = Inr None"
    "verdict = verdict_on name (atype = ns_t_a)" "by_udp (cfg s) (Some verdict)"
    "route (cfg s) (Some verdict) type = (sock, peer, rtype)"
  shows "\<exists>ql c. dispatch w s = Inr (sent sock (query_msg new ls rtype) peer
        (s\<lparr>calls := calls s + 2, queries := ql, rnds := rest\<rparr>)\<lparr>calls := calls s + 4, brk := brk s + 1, htab := c\<rparr>)
    \<and> length ql = length (queries s) \<and> mset (pending ql) = add_mset (pending_query new cid cfd from type ls) M
    \<and> wf_cache c \<and> cache_search c name ns_t_block = Inr (Some verdict)"
proof -
  obtain pad where pad: "length ((NS_PUT16 (uint x) @ body) @ pad) = NS_PACKETSZ"
    "dispatch w s = on_reply Test_cb ((NS_PUT16 (uint x) @ body) @ pad) (2 + length body) (s\<lparr>calls := calls s + 1\<rparr>)"
    using dispatch_datagram [OF assms(1,2)] assms(3) by (metis less_imp_le_nat)
  let ?msg = "(NS_PUT16 (uint x) @ body) @ pad" and ?s = "s\<lparr>calls := calls s + 1\<rparr>" and ?q = "pending_query x cid cfd from type ls"
  obtain i where i: "query_search (queries s) x = Some i" "i < length (queries s)" "queries s ! i = Some ?q"
    using search_added [OF assms(5)] assms(6) by auto
  have new: "ns_newid (queries s) (new # r # rest) = Inr (new, r # rest)"
    using assms(9,10) query_search_None [of "queries s" new] by (simp add: ns_newid_def)
  have len: "length name < NS_NAMESZ"
    using parse_reply_outcome [of "2 + length body" ?msg] assms(3) assms(4) [of pad] pad(1) by (cases pad) auto
  have ok: "query_search (queries ?s) x = Some i" "query_at i ?s = Inr ?q" "q_name ?q = text_name ls"
    "ns_newid (queries ?s) (rnds ?s) = Inr (new, r # rest)" "os_mem (sys ?s) (calls ?s)" "os_mem (sys ?s) (calls ?s + 2)"
    "verdicts_ok ?s" "cache_search (htab ?s) name ns_t_block = Inr None" "by_udp (cfg ?s) (Some verdict)"
    "route (cfg ?s) (Some verdict) (q_type ?q) = (sock, peer, rtype)"
    using i new assms(8,11-14,16,17) by (simp_all add: query_at_def verdicts_ok_def eval_nat_numeral)
  obtain c where c: "test_cb ?msg (2 + length body) ?s = Inr (sent sock (query_msg new ls rtype) peer
      (?s\<lparr>queries := query_set_id (queries ?s) i new, calls := calls ?s + 1, rnds := rest\<rparr>)\<lparr>calls := calls ?s + 3, brk := brk ?s + 1, htab := c\<rparr>)"
    "wf_cache c" "cache_search c name ns_t_block = Inr (Some verdict)"
    using test_cb_udp [OF ok(1-3) assms(7) ok(4) getid_reply assms(4) len ok(5-8) assms(15) ok(9,10)] by blast
  have "mset (pending (query_set_id (queries s) i new)) = add_mset (pending_query new cid cfd from type ls) M"
    using query_set_id_pending [OF i(2,3), of new] assms(5) by simp
  then show ?thesis
    unfolding pad(2) using c
    by (intro exI [of _ "query_set_id (queries s) i new"] exI [of _ c]) (simp add: on_reply_def sent_def emit_def)
qed

lemma waits_simps [simp]:
  "waits (sent fd data peer s) = waits s" "waits (s\<lparr>calls := c\<rparr>) = waits s" "waits (s\<lparr>queries := ql\<rparr>) = waits s"
  "waits (s\<lparr>rnds := rs\<rparr>) = waits s" "waits (s\<lparr>htab := h\<rparr>) = waits s" "waits (s\<lparr>brk := b\<rparr>) = waits s"
  by (simp_all add: waits_def fun_eq_iff)

section \<open>A sample network\<close>

text \<open>A client at 10.0.0.9 asks at socket 5; the servers for tests, for names in China and for the rest are at 10.0.0.1 to 3.\<close>

definition sample_peer :: "byte \<Rightarrow> sockaddr" where
  "sample_peer n = \<lparr>sa_family = AF_INET, sa_port = [0, 53], sa_addr = [10, 0, 0, n]\<rparr>"

definition sample_settings :: settings where
  "sample_settings = \<lparr>verbose = False, nspresolver = True, socks5 = False, sock_udp = 5, sock_tcp = 6, sock_server = 7,
     sock_cn = 8, sock_test = 9, test_server = sample_peer 1, cn_server = sample_peer 2, server = sample_peer 3,
     socks5_server = no_addr\<rparr>"

definition sample_watcher :: "nat \<Rightarrow> user_fn \<Rightarrow> obj" where
  "sample_watcher a cb = Dnsmsg \<lparr>x_cb = cb, x_msg = None, x_msglen = 0, x_offset = 0\<rparr>"

definition sample_net :: "(nat \<Rightarrow> byte list option) \<Rightarrow> 16 word list \<Rightarrow> world" where
  "sample_net recv rs = (world_zero (quiet\<lparr>os_recv := recv, os_from := (\<lambda>i. (sample_peer 9, 16))\<rparr>) rs)
     \<lparr>cfg := sample_settings, brk := 3,
      objs := [0 \<mapsto> sample_watcher 0 Query_cb, 1 \<mapsto> sample_watcher 1 Test_cb, 2 \<mapsto> sample_watcher 2 Reply_cb],
      ios := [(0, F_w) \<mapsto> \<lparr>ev_fd = 5, ev_event = EV_READ, ev_cb = Query_udp_recv_cb\<rparr>,
              (1, F_w) \<mapsto> \<lparr>ev_fd = 9, ev_event = EV_READ, ev_cb = Reply_udp_recv_cb\<rparr>,
              (2, F_w) \<mapsto> \<lparr>ev_fd = 7, ev_event = EV_READ, ev_cb = Reply_udp_recv_cb\<rparr>]\<rparr>"

lemma sample_net_facts:
  "waits (sample_net recv rs) (0, F_w) 5 Query_udp_recv_cb Query_cb"
  "waits (sample_net recv rs) (1, F_w) 9 Reply_udp_recv_cb Test_cb"
  "waits (sample_net recv rs) (2, F_w) 7 Reply_udp_recv_cb Reply_cb"
  "cfg (sample_net recv rs) = sample_settings" "rnds (sample_net recv rs) = rs" "calls (sample_net recv rs) = 0"
  "queries (sample_net recv rs) = qlist_init" "htab (sample_net recv rs) = cache_init" "trace (sample_net recv rs) = []"
  "os_mem (sys (sample_net recv rs)) i" "os_recv (sys (sample_net recv rs)) = recv"
  "os_from (sys (sample_net recv rs)) i = (sample_peer 9, 16)"
  by (simp_all add: sample_net_def sample_watcher_def world_zero_def quiet_def waits_def)

lemma sample_ids: "ids qlist_init = {}" "pending qlist_init = []" "length qlist_init = 128"
  by (simp_all add: ids_def) (simp add: qlist_init_def)

lemma sample_plain: "plain_name [Plain [0x61, 0x72]]" "text_name [Plain [0x61, 0x72]] = [0x61, 0x72]"
  by (simp_all add: plain_name_def is_plain_def text_name_def text_char_def special_def printable_def)

text \<open>A reply without answers: the query itself.\<close>

lemma parse_reply_msg:
  assumes "plain_name ls" "0 \<le> type" "type < 2 ^ 16"
  shows "ns_parse_reply (query_msg x ls type @ pad) (length (query_msg x ls type)) = Inr (text_name ls, ns_t_invalid)"
proof -
  let ?m = "query_msg x ls type @ pad" and ?n = "length (query_msg x ls type)"
  obtain rnd where "query_msg x ls type = query_bytes rnd ls type" using query_msg_bytes by blast
  then have st: "stands_at ?m 0 (query_bytes rnd ls type)"
    using stands_at_self [of "[]" 0 "query_bytes rnd ls type" pad] by simp
  obtain h h' rr where h: "ns_initparse ?m ?n = Inr h" "m_counts h ! 0 \<noteq> 0"
    "ns_parserr ?m h 0 0 = Inr (h', Some rr)" "strcpy NS_NAMESZ (ns_rr_name rr) = Inr (text_name ls)"
    using parse_query_msg(1) [OF assms, of x pad] by (auto simp: ns_parse_query_def bindE_Inr_iff split: if_splits)
  have "m_counts h' = m_counts h" using question_sound(2) [OF h(1,2) _ h(3)] by simp
  moreover have "\<forall>i < 4. NS_GET16 ?m (4 + 2 * i) = Inr (m_counts h ! i)"
    using h(1) by (rule ns_initparse_InrE)
  then have "m_counts h ! 1 = 0" using query_bytes_counts(2) [OF st] by (drule_tac spec [of _ 1]) simp
  ultimately show ?thesis using h parse_query_msg(3) [OF assms] by (simp add: ns_parse_reply_def)
qed

lemma udp_exchange_steps:
  assumes "waits s w fd Query_udp_recv_cb Query_cb" "waits s w' fd' Reply_udp_recv_cb Reply_cb" "fd > 0" "\<not> verbose (cfg s)"
    "plain_name ls" "0 \<le> type" "type < 2 ^ 16" "x \<notin> ids (queries s)" "length (pending (queries s)) < length (queries s)"
    "rnds s = new # r # rest" "new \<noteq> 0" "new \<notin> ids (queries s)" "new \<noteq> x"
    "cache_search (htab s) (text_name ls) ns_t_block = Inr (Some item)" "by_udp (cfg s) (Some item)"
    "route (cfg s) (Some item) type = (sock, peer, type)"
    "os_mem (sys s) (calls s)" "os_recv (sys s) (calls s + 1) = Some (query_msg x ls type)"
    "os_recv (sys s) (calls s + 3) = Some (NS_PUT16 (uint new) @ answer)" "2 + length answer \<le> NS_PACKETSZ"
  shows "\<exists>s'. bindE (dispatch w s) (dispatch w') = Inr s'
    \<and> trace s' = trace s @ [Sendto sock (query_msg new ls type) peer,
         Sendto fd (NS_PUT16 (uint x) @ answer) (fst (os_from (sys s) (calls s + 1)))]
    \<and> mset (pending (queries s')) = mset (pending (queries s))"
proof -
  let ?q = "pending_query new x fd (os_from (sys s) (calls s + 1)) type ls"
  obtain ql where ql: "dispatch w s
      = Inr (sent sock (query_msg new ls type) peer (s\<lparr>calls := calls s + 2, queries := ql, rnds := rest\<rparr>))"
    "mset (pending ql) = add_mset ?q (mset (pending (queries s)))"
    using dispatch_query [OF assms(1,5-7,17,18) refl assms(8-16)] by blast
  let ?s1 = "sent sock (query_msg new ls type) peer (s\<lparr>calls := calls s + 2, queries := ql, rnds := rest\<rparr>)"
  have s1: "waits ?s1 w' fd' Reply_udp_recv_cb Reply_cb" "os_recv (sys ?s1) (calls ?s1) = Some (NS_PUT16 (uint new) @ answer)"
    "\<not> verbose (cfg ?s1)" "mset (pending (queries ?s1)) = add_mset ?q (mset (pending (queries s)))"
    using assms(2,4,19) ql(2) by (simp_all add: eval_nat_numeral)
  have "new \<notin># image_mset q_id (mset (pending (queries s)))" using assms(12) by (simp add: ids_mset)
  from dispatch_reply [OF s1(1,2) assms(20) s1(3,4) _ this] assms(3)
  obtain ql' where "dispatch w' ?s1 = Inr (sent fd (NS_PUT16 (uint x) @ answer) (fst (os_from (sys s) (calls s + 1)))
      (?s1\<lparr>calls := calls ?s1 + 1, queries := ql'\<rparr>))" "mset (pending ql') = mset (pending (queries s))"
    by auto
  then show ?thesis using ql(1) by simp
qed

section \<open>Properties\<close>

text \<open>
  C6. What a client sees when the verdict on the name is known: its datagram is answered through the
  server the verdict asks for. The server gets a query for the same name and type under a new id, and
  the client gets the server's answer, byte for byte but for the id, which is the client's own again;
  the table of queries is as it was before.
\<close>

theorem udp_exchange:
  assumes "waits s w fd Query_udp_recv_cb Query_cb" "waits s w' fd' Reply_udp_recv_cb Reply_cb" "fd > 0" "\<not> verbose (cfg s)"
    "plain_name ls" "0 \<le> type" "type < 2 ^ 16" "x \<notin> ids (queries s)" "length (pending (queries s)) < length (queries s)"
    "rnds s = new # r # rest" "new \<noteq> 0" "new \<notin> ids (queries s)" "new \<noteq> x"
    "cache_search (htab s) (text_name ls) ns_t_block = Inr (Some item)" "by_udp (cfg s) (Some item)"
    "route (cfg s) (Some item) type = (sock, peer, type)"
    "os_mem (sys s) (calls s)" "os_recv (sys s) (calls s + 1) = Some (query_msg x ls type)"
    "os_recv (sys s) (calls s + 3) = Some (NS_PUT16 (uint new) @ answer)" "2 + length answer \<le> NS_PACKETSZ"
  shows "\<exists>s'. bindE (dispatch w s) (dispatch w') = Inr s'
    \<and> trace s' = trace s @ [Sendto sock (query_msg new ls type) peer,
         Sendto fd (NS_PUT16 (uint x) @ answer) (fst (os_from (sys s) (calls s + 1)))]
    \<and> mset (pending (queries s')) = mset (pending (queries s))"
  using assms by (rule udp_exchange_steps)

lemma udp_exchange_witness:
  "\<exists>s'. bindE (dispatch (0, F_w) ((sample_net (\<lambda>i. if i = 1 then Some (query_msg 7 [Plain [0x61, 0x72]] 1) else Some (NS_PUT16 11 @ [1, 2])) [11, 12])\<lparr>htab := sample_cache\<rparr>))
      (dispatch (2, F_w)) = Inr s'
    \<and> trace s' = [Sendto 7 (query_msg 11 [Plain [0x61, 0x72]] 1) (sample_peer 3), Sendto 5 (NS_PUT16 7 @ [1, 2]) (sample_peer 9)]"
proof -
  let ?s = "(sample_net (\<lambda>i. if i = 1 then Some (query_msg 7 [Plain [0x61, 0x72]] 1) else Some (NS_PUT16 11 @ [1, 2])) [11, 12])\<lparr>htab := sample_cache\<rparr>"
  have c: "cache_search (htab ?s) (text_name [Plain [0x61, 0x72]]) ns_t_block = Inr (Some item_ar)"
    by (simp add: sample_plain sample_cache_search)
  have r: "by_udp (cfg ?s) (Some item_ar)" "route (cfg ?s) (Some item_ar) 1 = (7, sample_peer 3, 1)"
    by (simp_all add: sample_net_facts by_udp_def route_def sample_settings_def item_ar_def)
  show ?thesis
    using udp_exchange [of ?s "(0, F_w)" 5 "(2, F_w)" 7 "[Plain [0x61, 0x72]]" 1 7 11 12 "[]" item_ar 7 "sample_peer 3" "[1, 2]", OF _ _ _ _ sample_plain(1) _ _ _ _ _ _ _ _ c r]
    by (simp add: sample_net_facts sample_ids) (auto simp: sample_settings_def)
qed

text \<open>
  C1. The whole life of a query for a name that nothing is known about: the test server is asked for
  the SOA record, and its reply decides where the query goes. A reply whose first answer is an A record
  shows that the name is blocked; the verdict is stored, the query is sent to the server the verdict
  asks for, under another new id, and the answer goes back to the client under the client's id.
\<close>

theorem udp_exchange_tested:
  assumes "waits s w fd Query_udp_recv_cb Query_cb" "waits s w' fd' Reply_udp_recv_cb Test_cb"
    "waits s w'' fd'' Reply_udp_recv_cb Reply_cb" "fd > 0" "\<not> verbose (cfg s)" "verdicts_ok s"
    "plain_name ls" "0 \<le> type" "type < 2 ^ 16" "x \<notin> ids (queries s)" "length (pending (queries s)) < length (queries s)"
    "rnds s = n1 # r1 # n2 # r2 # rest" "n1 \<notin> {0, x} \<union> ids (queries s)" "n2 \<notin> {0, n1} \<union> ids (queries s)"
    "cache_search (htab s) (text_name ls) ns_t_block = Inr None"
    "\<forall>i. os_mem (sys s) i" "os_recv (sys s) (calls s + 1) = Some (query_msg x ls type)"
    "os_recv (sys s) (calls s + 3) = Some (NS_PUT16 (uint n1) @ probe)" "2 + length probe < NS_PACKETSZ"
    "\<forall>pad. ns_parse_reply ((NS_PUT16 (uint n1) @ probe) @ pad) (2 + length probe) = Inr (text_name ls, atype)"
    "verdict = verdict_on (text_name ls) (atype = ns_t_a)" "by_udp (cfg s) (Some verdict)"
    "route (cfg s) (Some verdict) type = (sock, peer, type)"
    "os_recv (sys s) (calls s + 7) = Some (NS_PUT16 (uint n2) @ answer)" "2 + length answer \<le> NS_PACKETSZ"
  shows "\<exists>s'. bindE (dispatch w s) (\<lambda>s1. bindE (dispatch w' s1) (dispatch w'')) = Inr s'
    \<and> trace s' = trace s @ [Sendto (sock_test (cfg s)) (query_msg n1 ls ns_t_soa) (test_server (cfg s)),
         Sendto sock (query_msg n2 ls type) peer,
         Sendto fd (NS_PUT16 (uint x) @ answer) (fst (os_from (sys s) (calls s + 1)))]
    \<and> mset (pending (queries s')) = mset (pending (queries s))
    \<and> cache_search (htab s') (text_name ls) ns_t_block = Inr (Some verdict)"
proof -
  let ?from = "os_from (sys s) (calls s + 1)" and ?M = "mset (pending (queries s))"
  have n1: "n1 \<noteq> 0" "n1 \<notin> ids (queries s)" "n1 \<noteq> x" using assms(13) by auto
  have test: "by_udp (cfg s) None" "route (cfg s) None type = (sock_test (cfg s), test_server (cfg s), ns_t_soa)"
    by (simp_all add: by_udp_def route_def)
  have mem: "os_mem (sys s) (calls s)" using assms(16) by simp
  obtain ql where ql: "dispatch w s = Inr (sent (sock_test (cfg s)) (query_msg n1 ls ns_t_soa) (test_server (cfg s))
      (s\<lparr>calls := calls s + 2, queries := ql, rnds := n2 # r2 # rest\<rparr>))"
    "mset (pending ql) = add_mset (pending_query n1 x fd ?from type ls) ?M"
    using dispatch_query [OF assms(1,7-9) mem assms(17) refl assms(10-12) n1 assms(15) test] by blast
  define s1 where "s1 = sent (sock_test (cfg s)) (query_msg n1 ls ns_t_soa) (test_server (cfg s))
      (s\<lparr>calls := calls s + 2, queries := ql, rnds := n2 # r2 # rest\<rparr>)"
  have s1: "waits s1 w' fd' Reply_udp_recv_cb Test_cb" "os_recv (sys s1) (calls s1) = Some (NS_PUT16 (uint n1) @ probe)"
    "mset (pending (queries s1)) = add_mset (pending_query n1 x fd ?from type ls) ?M" "n1 \<notin># image_mset q_id ?M"
    "rnds s1 = n2 # r2 # rest" "n2 \<noteq> 0" "n2 \<notin> ids (queries s1)" "os_mem (sys s1) (calls s1 + 1)" "os_mem (sys s1) (calls s1 + 3)"
    "verdicts_ok s1" "cache_search (htab s1) (text_name ls) ns_t_block = Inr None" "by_udp (cfg s1) (Some verdict)"
    "route (cfg s1) (Some verdict) type = (sock, peer, type)"
    using assms(2,6,14-16,18,22,23) ql(2) n1(2) by (auto simp: s1_def ids_mset verdicts_ok_def eval_nat_numeral)
  obtain ql' c where t: "dispatch w' s1 = Inr (sent sock (query_msg n2 ls type) peer
        (s1\<lparr>calls := calls s1 + 2, queries := ql', rnds := rest\<rparr>)\<lparr>calls := calls s1 + 4, brk := brk s1 + 1, htab := c\<rparr>)"
    "mset (pending ql') = add_mset (pending_query n2 x fd ?from type ls) ?M"
    "cache_search c (text_name ls) ns_t_block = Inr (Some verdict)"
    using dispatch_test [OF s1(1,2) assms(19) assms(20) [rule_format] s1(3,4) assms(7) s1(5-11) assms(21) s1(12,13)] by blast
  define s2 where "s2 = sent sock (query_msg n2 ls type) peer
        (s1\<lparr>calls := calls s1 + 2, queries := ql', rnds := rest\<rparr>)\<lparr>calls := calls s1 + 4, brk := brk s1 + 1, htab := c\<rparr>"
  have s2: "waits s2 w'' fd'' Reply_udp_recv_cb Reply_cb" "os_recv (sys s2) (calls s2) = Some (NS_PUT16 (uint n2) @ answer)"
    "\<not> verbose (cfg s2)" "mset (pending (queries s2)) = add_mset (pending_query n2 x fd ?from type ls) ?M"
    "n2 \<notin># image_mset q_id ?M"
    using assms(3,5,14,24) t(2) by (auto simp: s2_def s1_def ids_mset eval_nat_numeral)
  obtain ql'' where r: "dispatch w'' s2 = Inr (sent fd (NS_PUT16 (uint x) @ answer) (fst ?from) (s2\<lparr>calls := calls s2 + 1, queries := ql''\<rparr>))"
    "mset (pending ql'') = ?M"
    using dispatch_reply [OF s2(1,2) assms(25) s2(3,4) _ s2(5)] assms(4) by auto
  show ?thesis
    using ql(1) t(1,3) r by (simp flip: s1_def s2_def) (simp add: s2_def s1_def)
qed

lemma udp_exchange_tested_witness:
  "\<exists>s'. bindE (dispatch (0, F_w) (sample_net (\<lambda>i. if i = 1 then Some (query_msg 7 [Plain [0x61, 0x72]] 1)
        else if i = 3 then Some (query_msg 11 [Plain [0x61, 0x72]] 6) else Some (NS_PUT16 13 @ [1, 2])) [11, 12, 13, 14]))
      (\<lambda>s1. bindE (dispatch (1, F_w) s1) (dispatch (2, F_w))) = Inr s'
    \<and> trace s' = [Sendto 9 (query_msg 11 [Plain [0x61, 0x72]] 6) (sample_peer 1),
         Sendto 8 (query_msg 13 [Plain [0x61, 0x72]] 1) (sample_peer 2), Sendto 5 (NS_PUT16 7 @ [1, 2]) (sample_peer 9)]"
proof -
  let ?ls = "[Plain [0x61, 0x72]]"
  let ?probe = "[1, 0, 0, 1, 0, 0, 0, 0, 0, 0] @ enc_name ?ls @ NS_PUT16 6 @ NS_PUT16 ns_c_in"
  let ?s = "sample_net (\<lambda>i. if i = 1 then Some (query_msg 7 ?ls 1)
        else if i = 3 then Some (query_msg 11 ?ls 6) else Some (NS_PUT16 13 @ [1, 2])) [11, 12, 13, 14]"
  let ?v = "verdict_on (text_name ?ls) (ns_t_invalid = ns_t_a)"
  have probe: "query_msg 11 ?ls 6 = NS_PUT16 (uint (11 :: 16 word)) @ ?probe" by (simp add: query_msg_def)
  have p: "\<forall>pad. ns_parse_reply ((NS_PUT16 (uint (11 :: 16 word)) @ ?probe) @ pad) (2 + length ?probe) = Inr (text_name ?ls, ns_t_invalid)"
    using parse_reply_msg [OF sample_plain(1), of 6 11] unfolding probe by simp
  have c: "cache_search (htab ?s) (text_name ?ls) ns_t_block = Inr None" "verdicts_ok ?s"
    by (simp_all add: sample_net_facts search_empty key_ok_def verdicts_ok_def wf_cache_init)
  have r: "by_udp (cfg ?s) (Some ?v)" "route (cfg ?s) (Some ?v) 1 = (8, sample_peer 2, 1)"
    by (simp_all add: sample_net_facts by_udp_def route_def sample_settings_def verdict_on_def)
  have o: "os_recv (sys ?s) (calls ?s + 3) = Some (NS_PUT16 (uint (11 :: 16 word)) @ ?probe)"
    "2 + length ?probe < NS_PACKETSZ"
    by (simp_all add: sample_net_facts probe)
  show ?thesis
    using udp_exchange_tested [of ?s "(0, F_w)" 5 "(1, F_w)" 9 "(2, F_w)" 7 ?ls 1 7 11 12 13 14 "[]" ?probe ns_t_invalid ?v 8 "sample_peer 2" "[1, 2]",
      OF _ sample_net_facts(2) _ _ _ c(2) sample_plain(1) _ _ _ _ _ _ _ c(1) _ _ o p refl r]
    by (simp add: sample_net_facts sample_ids) (auto simp: sample_settings_def)
qed

text \<open>
  C15. Ids that clash: a client's query whose id another query is under way with, in a slot before the
  first free one, is not sent. \<open>query_search\<close> finds the other query instead, which is sent a second time
  under yet another id (so the reply to the first will find no query), while the client's query stays
  behind under its own id until it expires.
\<close>

theorem query_id_collision:
  assumes "waits s w fd Query_udp_recv_cb Query_cb" "plain_name ls" "0 \<le> type" "type < 2 ^ 16"
    "os_mem (sys s) (calls s)" "os_recv (sys s) (calls s + 1) = Some (query_msg x ls type)"
    "length (pending (queries s)) < length (queries s)"
    "query_search (queries s) x = Some i" "queries s ! i = Some q" "\<forall>j < i. queries s ! j \<noteq> None"
    "q_name q = text_name ks" "plain_name ks" "rnds s = new # r # rest" "new \<noteq> 0" "new \<notin> ids (queries s)"
    "cache_search (htab s) (q_name q) ns_t_block = Inr verdict" "by_udp (cfg s) verdict"
    "route (cfg s) verdict (q_type q) = (sock, peer, rtype)"
  shows "\<exists>s'. dispatch w s = Inr s' \<and> trace s' = trace s @ [Sendto sock (query_msg new ks rtype) peer]
    \<and> add_mset q (mset (pending (queries s')))
      = add_mset (pending_query x x fd (os_from (sys s) (calls s + 1)) type ls) (add_mset (q\<lparr>q_id := new\<rparr>) (mset (pending (queries s))))"
proof -
  let ?p = "pending_query x x fd (os_from (sys s) (calls s + 1)) type ls"
  obtain ql where add: "add_loop (queries s) ?p = Some ql"
    and go: "dispatch w s = query_cb x (s\<lparr>calls := calls s + 2, queries := ql\<rparr>)"
    and m: "length ql = length (queries s)" "mset (pending ql) = add_mset ?p (mset (pending (queries s)))"
    using receive_query [OF assms(1-6) refl assms(7)] by blast
  let ?s = "s\<lparr>calls := calls s + 2, queries := ql\<rparr>"
  have x: "x \<in> ids (queries s)" using assms(8) query_search_None [of "queries s" x] by simp
  have i: "query_search ql x = Some i" "ql ! i = Some q" "i < length ql"
    using add_loop_search [OF add assms(8,10)] assms(8,9) m(1) by (auto simp: query_search_Some)
  have "new \<notin> ids ql" using assms(15) x m(2) by (auto simp: ids_mset)
  then have "ns_newid ql (new # r # rest) = Inr (new, r # rest)"
    using assms(14) query_search_None [of ql new] by (simp add: ns_newid_def)
  then have "query_cb x ?s = Inr (sent sock (query_msg new ks rtype) peer (?s\<lparr>queries := query_set_id ql i new, rnds := rest\<rparr>))"
    using query_cb_udp [where s = ?s and ident = x and i = i and q = q and ls = ks
        and new = new and r = r and rest = rest and verdict = verdict] i assms(11-13,16-18)
    by (simp add: query_at_def)
  then show ?thesis using go query_set_id_pending [OF i(3,2), of new] m(2) by simp
qed

lemma query_id_collision_witness:
  "\<exists>s'. dispatch (0, F_w) ((sample_net (\<lambda>i. Some (query_msg 7 [Plain [0x62]] 28)) [11, 12])
      \<lparr>queries := Some (pending_query 7 5 5 (sample_peer 4, 16) 1 [Plain [0x61, 0x72]]) # replicate 127 None\<rparr>) = Inr s'
    \<and> trace s' = [Sendto 9 (query_msg 11 [Plain [0x61, 0x72]] 6) (sample_peer 1)]"
proof -
  let ?q = "pending_query 7 5 5 (sample_peer 4, 16) 1 [Plain [0x61, 0x72]]"
  let ?s = "(sample_net (\<lambda>i. Some (query_msg 7 [Plain [0x62]] 28)) [11, 12])\<lparr>queries := Some ?q # replicate 127 None\<rparr>"
  have pl: "plain_name [Plain [0x62]]" by (simp add: plain_name_def is_plain_def)
  have none: "pending (replicate n None) = []" for n by (induction n) auto
  have q: "queries ?s = Some ?q # replicate 127 None" "pending (queries ?s) = [?q]" "length (queries ?s) = 128"
    by (simp_all del: replicate.simps replicate_Suc add: none)
  have search: "query_search (queries ?s) 7 = Some 0" "queries ?s ! 0 = Some ?q" unfolding q(1) by simp_all
  have c: "cache_search (htab ?s) (q_name ?q) ns_t_block = Inr None"
    by (simp add: sample_net_facts search_empty key_ok_def)
  have r: "by_udp (cfg ?s) None" "route (cfg ?s) None (q_type ?q) = (9, sample_peer 1, 6)"
    by (simp_all add: sample_net_facts by_udp_def route_def sample_settings_def)
  have new: "11 \<notin> ids (queries ?s)" "length (pending (queries ?s)) < length (queries ?s)" unfolding ids_def q(2,3) by simp_all
  show ?thesis
    using query_id_collision [OF _ pl _ _ _ _ new(2) search _ _ sample_plain(1) _ _ new(1) c r, of "(0, F_w)" 5 28 12 "[]"]
    by (auto simp: sample_net_facts waits_simps simp del: replicate.simps replicate_Suc)
qed

text \<open>
  C14. A connection that takes too long ends the program: ten ticks after the query it was made for was
  added, that query is gone, and \<open>connect_cb\<close> fails its assertion whether the connection succeeded or
  not.
\<close>

theorem late_connection_aborts:
  assumes "\<forall>q \<in> set (pending (queries s)). 0 < q_ttl q \<and> q_ttl q \<le> 10" "ttl_ok 10 (htab s)"
  shows "\<exists>s'. iter 10 tick_cb s = Inr s' \<and> connect_cb sock x s' = Inl Abort"
proof -
  have ticks: "ttl_ok k (htab s) \<Longrightarrow> \<exists>s'. iter k tick_cb s = Inr s' \<and> queries s' = (query_tick ^^ k) (queries s)" for k s
  proof (induction k arbitrary: s)
    case (Suc k)
    obtain c where c: "cache_tick (htab s) = Inr c" "ttl_ok k c" using ttl_ok_tick [OF Suc.prems] ttl_ok_lasts [OF Suc.prems] by auto
    then show ?case
      using Suc.IH [of "s\<lparr>queries := query_tick (queries s), htab := c\<rparr>"] by (simp add: tick_cb_def funpow_swap1)
  qed simp
  obtain s' where s': "iter 10 tick_cb s = Inr s'" "queries s' = (query_tick ^^ 10) (queries s)"
    using ticks [OF assms(2)] by blast
  have "pending (queries s') = []"
    unfolding s'(2) using assms(1) query_ticks_pending [of "queries s" 10] by (force simp: filter_empty_conv)
  then have "query_search (queries s') x = None" by (simp add: query_search_None ids_def)
  then show ?thesis using s'(1) by (simp add: connect_cb_def)
qed

lemma late_connection_aborts_witness:
  "\<exists>s'. iter 10 tick_cb ((sample_net (\<lambda>i. None) [])\<lparr>queries := [Some (pending_query 7 5 5 (sample_peer 4, 16) 1 [])]\<rparr>) = Inr s'
    \<and> connect_cb 12 7 s' = Inl Abort"
  by (rule late_connection_aborts)
    (simp_all add: pending_query_def sample_net_facts ttl_ok_def wf_cache_init search_empty)

end
