(* ===== verification/Connect.thy ===== *)
theory Connect
  imports Forward
begin

text \<open>
  What travels over TCP. A query for a blocked name, when no UDP server is to be asked for it: a
  connection to the server is made, the query and the answer go over it, and the client gets its
  datagram. And a client that connects itself: its query is read from the connection, and the answer
  goes back over it. Both are sequences of events, each with its equation on the state.
\<close>

section \<open>Contexts and the list of watchers\<close>

text \<open>The contexts other than the one at \<open>a\<close> are left alone.\<close>

definition apart :: "nat \<Rightarrow> world \<Rightarrow> world \<Rightarrow> bool" where
  "apart a s s' \<longleftrightarrow> (\<forall>b. b \<noteq> a \<longrightarrow> objs s' b = objs s b \<and> (\<forall>f. ios s' (b, f) = ios s (b, f)))"

text \<open>The list of watchers, as a bag and by its length.\<close>

definition watches :: "world \<Rightarrow> wptr multiset \<Rightarrow> bool" where
  "watches s M \<longleftrightarrow> mset (watching (wlist s)) = M \<and> length (wlist s) = WLIST_SIZE"

lemma watches_start:
  assumes "watches s M" "size M < WLIST_SIZE"
  obtains wl where "start_loop (wlist s) w = Some wl" "mset (watching wl) = add_mset w M" "length wl = WLIST_SIZE"
proof -
  have "length (watching (wlist s)) \<noteq> length (wlist s)"
    using assms by (auto simp: watches_def simp flip: size_mset)
  then obtain wl where wl: "start_loop (wlist s) w = Some wl" using start_loop_None [of "wlist s" w] by auto
  show ?thesis using that [OF wl] start_loop_Some [OF wl] assms(1) by (simp add: watches_def)
qed

lemma watches_stop:
  assumes "watches s (add_mset w M)"
  obtains wl where "stop_loop (wlist s) w = Some wl" "mset (watching wl) = M" "length wl = WLIST_SIZE"
proof -
  have m: "mset (watching (wlist s)) = add_mset w M" using assms by (simp add: watches_def)
  then have "w \<in># mset (watching (wlist s))" by simp
  then have "w \<in> set (watching (wlist s))" by simp
  then obtain wl where wl: "stop_loop (wlist s) w = Some wl" using stop_loop_None [of "wlist s" w] by auto
  show ?thesis using that [OF wl] stop_loop_Some [OF wl] assms m by (simp add: watches_def)
qed

text \<open>A context with its watcher, and a connection that is being made.\<close>

definition held :: "world \<Rightarrow> nat \<Rightarrow> int \<Rightarrow> watcher_fn \<Rightarrow> dnsmsg_ctx \<Rightarrow> bool" where
  "held s a fd fn x \<longleftrightarrow> objs s a = Some (Dnsmsg x) \<and> (\<exists>ev. ios s (a, F_w) = Some \<lparr>ev_fd = fd, ev_event = ev, ev_cb = fn\<rparr>)"

definition connecting :: "world \<Rightarrow> nat \<Rightarrow> int \<Rightarrow> async_ctx \<Rightarrow> bool" where
  "connecting s a fd y \<longleftrightarrow> objs s a = Some (Async y) \<and> ios s (a, F_write) = Some \<lparr>ev_fd = fd, ev_event = EV_WRITE, ev_cb = Connect_cb\<rparr>"

definition conn_ctx :: "bool \<Rightarrow> sockaddr \<Rightarrow> 16 word \<Rightarrow> async_ctx" where
  "conn_ctx via peer ident = \<lparr>y_state = None, y_socks5 = via, y_addr = peer, y_cb = Connected_cb, y_data = ident\<rparr>"

lemma conn_ctx_fields [simp]:
  "y_state (conn_ctx via peer ident) = None" "y_socks5 (conn_ctx via peer ident) = via" "y_addr (conn_ctx via peer ident) = peer"
  "y_cb (conn_ctx via peer ident) = Connected_cb" "y_data (conn_ctx via peer ident) = ident"
  by (simp_all add: conn_ctx_def)

definition out_ctx :: "byte list \<Rightarrow> dnsmsg_ctx" where
  "out_ctx m = \<lparr>x_cb = Query_cb, x_msg = Some m, x_msglen = int (length m), x_offset = - 2\<rparr>"

definition in_ctx :: "user_fn \<Rightarrow> byte list \<Rightarrow> dnsmsg_ctx" where
  "in_ctx cb buf = \<lparr>x_cb = cb, x_msg = Some buf, x_msglen = 0, x_offset = 0\<rparr>"

lemma held_apart: "apart a s s' \<Longrightarrow> b \<noteq> a \<Longrightarrow> held s' b fd fn x = held s b fd fn x"
  by (simp add: apart_def held_def)

lemma waits_apart: "apart a s s' \<Longrightarrow> fst w \<noteq> a \<Longrightarrow> waits s' w fd fn cb = waits s w fd fn cb"
  by (cases w) (simp add: apart_def waits_def)

section \<open>The steps\<close>

text \<open>A message is queued on a stream socket.\<close>

lemma send_start_tcp:
  assumes "watches s M" "size M < WLIST_SIZE" "sock > 0" "\<forall>i. os_mem (sys s) i" "k \<le> length msg"
  shows "\<exists>s'. send_start fn sock ns_tcp msg (int k) peer s = Inr s' \<and> held s' (brk s) sock fn (out_ctx (take k msg))
    \<and> watches s' (add_mset (brk s, F_w) M) \<and> kept s s' \<and> apart (brk s) s s' \<and> brk s' = brk s + 1 \<and> calls s' = calls s + 2"
proof -
  obtain wl where "start_loop (wlist s) (brk s, F_w) = Some wl" "mset (watching wl) = add_mset (brk s, F_w) M" "length wl = WLIST_SIZE"
    by (rule watches_start [OF assms(1,2)])
  then show ?thesis
    using assms(3-5)
    by (simp add: send_start_def malloc_obj_def malloc_at_def malloc_ok_def malloc_buf_def rd_n_ok ev_io_init_def ev_io_start_def
        set_obj_def held_def out_ctx_def watches_def kept_def apart_def min_def)
qed

text \<open>A receiver is set up on a stream socket.\<close>

lemma recv_start_tcp:
  assumes "watches s M" "size M < WLIST_SIZE" "sock > 0" "\<forall>i. os_mem (sys s) i"
  shows "\<exists>s' buf. recv_start udp_fn tcp_fn sock ns_tcp cb s = Inr s' \<and> held s' (brk s) sock tcp_fn (in_ctx cb buf)
    \<and> length buf = NS_PACKETSZ \<and> watches s' (add_mset (brk s, F_w) M) \<and> kept s s' \<and> apart (brk s) s s'
    \<and> brk s' = brk s + 1 \<and> calls s' = calls s + 2"
proof -
  obtain wl where "start_loop (wlist s) (brk s, F_w) = Some wl" "mset (watching wl) = add_mset (brk s, F_w) M" "length wl = WLIST_SIZE"
    by (rule watches_start [OF assms(1,2)])
  then show ?thesis
    using assms(3,4)
    by (simp add: recv_start_def malloc_obj_def malloc_at_def malloc_ok_def malloc_buf_def ev_io_init_def ev_io_start_def
        set_obj_def held_def in_ctx_def watches_def kept_def apart_def junk_def)
qed

text \<open>The options take five calls when all of them succeed.\<close>

lemma stream_options_ok:
  assumes "\<forall>i < 5. os_ret (sys s) (calls s + i) = 0"
  shows "stream_options s = s\<lparr>calls := calls s + 5\<rparr>"
  using assms by (simp add: stream_options_def setnonblock_def settimeout_def setkeepalive_def sys_ret_def eval_nat_numeral All_less_Suc)

text \<open>\<open>async_connect\<close>: the calls are \<open>malloc\<close>, \<open>socket\<close>, five for the options, \<open>connect\<close>.\<close>

lemma connect_start:
  assumes "watches s M" "size M < WLIST_SIZE" "\<forall>i. os_mem (sys s) i" "os_ret (sys s) (calls s + 1) = sock" "sock > 0"
    "\<forall>i < 5. os_ret (sys s) (calls s + 2 + i) = 0"
    "os_ret (sys s) (calls s + 7) = 0 \<or> os_errno (sys s) (calls s + 7) = EINPROGRESS"
  shows "\<exists>s'. async_connect on_conn peer Connected_cb via ident s = Inr s' \<and> connecting s' (brk s) sock (conn_ctx via peer ident)
    \<and> watches s' (add_mset (brk s, F_write) M) \<and> apart (brk s) s s' \<and> brk s' = brk s + 1 \<and> calls s' = calls s + 8
    \<and> kept (s\<lparr>trace := trace s @ [Connect sock (if via then socks5_server (cfg s) else peer)]\<rparr>) s'"
proof -
  define p where "p = (if via then socks5_server (cfg s) else peer)"
  define s1 where "s1 = s\<lparr>calls := calls s + 1, brk := brk s + 1, objs := (objs s)(brk s \<mapsto> Async (conn_ctx via peer ident))\<rparr>"
  define s2 where "s2 = s1\<lparr>calls := calls s + 7\<rparr>"
  have alloc: "malloc_obj (Async (conn_ctx via peer ident)) s = (Some (brk s), s1)" "sys_ret s1 = (sock, s1\<lparr>calls := calls s + 2\<rparr>)"
    using assms(3,4) by (simp_all add: malloc_obj_def malloc_at_def malloc_ok_def sys_ret_def s1_def)
  have opts: "stream_options (s1\<lparr>calls := calls s + 2\<rparr>) = s2"
    using stream_options_ok [of "s1\<lparr>calls := calls s + 2\<rparr>"] assms(6) by (simp add: s2_def s1_def)
  define s3 where "s3 = (emit (Connect sock p) s2)\<lparr>calls := calls s2 + 1\<rparr>"
  have "(if via then socks5_server (cfg s1) else peer) = p" by (simp add: p_def s1_def)
  then have "async_connect on_conn peer Connected_cb via ident s
      = bindE (ev_io_init s3 (brk s, F_write) Connect_cb sock EV_WRITE) (\<lambda>s4. ev_io_start s4 (brk s, F_write))"
    using alloc opts assms(5,7) unfolding async_connect_def conn_ctx_def [symmetric]
    by (auto simp: Let_def sys_ret_def s3_def s2_def s1_def emit_def)
  moreover obtain wl where "start_loop (wlist s) (brk s, F_write) = Some wl" "mset (watching wl) = add_mset (brk s, F_write) M"
    "length wl = WLIST_SIZE"
    by (rule watches_start [OF assms(1,2)])
  ultimately show ?thesis
    using assms(5) unfolding p_def [symmetric]
    by (simp add: ev_io_init_def ev_io_start_def connecting_def watches_def kept_def apart_def s3_def s2_def s1_def emit_def)
qed

text \<open>
  The connection is handed to its owner: the query's message waits to be sent, the receiver waits for
  the answer, and the context of the connection is freed.
\<close>

lemma connect_cb_step:
  assumes "objs s a = Some (Async y)" "watches s M" "size M + 2 \<le> WLIST_SIZE" "a < brk s" "sock > 0" "\<forall>i. os_mem (sys s) i"
    "mset (pending (queries s)) = add_mset q P" "q_id q = ident" "ident \<notin># image_mset q_id P"
    "q_name q = text_name ls" "plain_name ls" "rnds s = r # rest"
  shows "\<exists>s' buf. bindE (connect_cb sock ident s) (free_obj a) = Inr s' \<and> length buf = NS_PACKETSZ
    \<and> held s' (brk s) sock Query_tcp_send_cb (out_ctx (query_msg ident ls (q_type q)))
    \<and> held s' (brk s + 1) sock Reply_tcp_recv_cb (in_ctx Reply_cb buf)
    \<and> watches s' (add_mset (brk s, F_w) (add_mset (brk s + 1, F_w) M)) \<and> kept (s\<lparr>rnds := rest\<rparr>) s' \<and> calls s' = calls s + 4"
proof -
  obtain i where i: "query_search (queries s) ident = Some i" "queries s ! i = Some q"
    using search_added [OF assms(7)] assms(8,9) by auto
  let ?k = "16 + length (enc_name ls)"
  define s2 where "s2 = s\<lparr>rnds := rest\<rparr>"
  obtain msg where msg: "make_query (text_name ls) (q_type q) ident s = Inr ((msg, int ?k), s2)" "length msg = NS_PACKETSZ"
    "take ?k msg = query_msg ident ls (q_type q)"
    using make_query_sends [OF assms(11,12), of "q_type q" ident] by (auto simp: s2_def)
  have "?k \<le> length msg" using assms(11) msg(2) by (simp add: plain_name_def)
  moreover have s2: "watches s2 M" "size M < WLIST_SIZE" "\<forall>i. os_mem (sys s2) i" "brk s2 = brk s" "calls s2 = calls s"
    using assms(2,3,6) by (simp_all add: watches_def s2_def)
  ultimately obtain s3 where s3: "query_send sock ns_tcp msg (int ?k) no_addr s2 = Inr s3"
    "held s3 (brk s) sock Query_tcp_send_cb (out_ctx (query_msg ident ls (q_type q)))"
    "watches s3 (add_mset (brk s, F_w) M)" "kept s2 s3" "apart (brk s) s2 s3" "brk s3 = brk s + 1" "calls s3 = calls s + 2"
    using send_start_tcp [OF s2(1,2) assms(5) s2(3), of ?k msg Query_tcp_send_cb no_addr] msg(3) by (auto simp: query_send_def)
  have m3: "size (add_mset (brk s, F_w) M) < WLIST_SIZE" "\<forall>i. os_mem (sys s3) i"
    using assms(3) s2(3) s3(4) by (auto simp: kept_def)
  obtain s4 buf where s4: "reply_recv sock ns_tcp Reply_cb s3 = Inr s4" "held s4 (brk s + 1) sock Reply_tcp_recv_cb (in_ctx Reply_cb buf)"
    "length buf = NS_PACKETSZ" "watches s4 (add_mset (brk s + 1, F_w) (add_mset (brk s, F_w) M))" "kept s3 s4"
    "apart (brk s + 1) s3 s4" "calls s4 = calls s + 4"
    using recv_start_tcp [OF s3(3) m3(1) assms(5) m3(2), of Reply_udp_recv_cb Reply_tcp_recv_cb Reply_cb] s3(6,7)
    by (auto simp: reply_recv_def)
  have "objs s4 a = objs s a" using s3(5) s4(6) assms(4) by (simp add: apart_def s2_def)
  then have free: "free_obj a s4 = Inr (s4\<lparr>objs := (objs s4)(a := None), ios := (\<lambda>p. if fst p = a then None else ios s4 p)\<rparr>)"
    using assms(1) by (simp add: free_obj_def)
  have "held s4 (brk s) sock Query_tcp_send_cb (out_ctx (query_msg ident ls (q_type q)))"
    using s3(2) held_apart [OF s4(6), of "brk s"] by simp
  moreover have "connect_cb sock ident s = Inr s4"
    using i assms(5,8,10) msg(1) s3(1) s4(1) by (simp add: connect_cb_def query_at_def)
  ultimately show ?thesis
    using free s4(2-5,7) s3(4) assms(4)
    by (intro exI [of _ "s4\<lparr>objs := (objs s4)(a := None), ios := (\<lambda>p. if fst p = a then None else ios s4 p)\<rparr>"] exI [of _ buf])
      (simp add: held_def watches_def kept_def s2_def add_mset_commute)
qed

text \<open>The direct connection is there.\<close>

lemma connected_step:
  assumes "connecting s a sock (conn_ctx False peer ident)" "watches s (add_mset (a, F_write) M)" "size M + 2 \<le> WLIST_SIZE"
    "a < brk s" "sock > 0" "\<forall>i. os_mem (sys s) i" "os_ret (sys s) (calls s) = 0" "os_errno (sys s) (calls s) = 0"
    "mset (pending (queries s)) = add_mset q P" "q_id q = ident" "ident \<notin># image_mset q_id P"
    "q_name q = text_name ls" "plain_name ls" "rnds s = r # rest"
  shows "\<exists>s' buf. dispatch (a, F_write) s = Inr s' \<and> length buf = NS_PACKETSZ
    \<and> held s' (brk s) sock Query_tcp_send_cb (out_ctx (query_msg ident ls (q_type q)))
    \<and> held s' (brk s + 1) sock Reply_tcp_recv_cb (in_ctx Reply_cb buf)
    \<and> watches s' (add_mset (brk s, F_w) (add_mset (brk s + 1, F_w) M)) \<and> kept (s\<lparr>rnds := rest\<rparr>) s' \<and> calls s' = calls s + 5"
proof -
  obtain wl where wl: "stop_loop (wlist s) (a, F_write) = Some wl" "mset (watching wl) = M" "length wl = WLIST_SIZE"
    by (rule watches_stop [OF assms(2)])
  define s1 where "s1 = s\<lparr>wlist := wl, changed := True, calls := calls s + 1\<rparr>"
  have "dispatch (a, F_write) s = bindE (connect_cb sock ident s1) (free_obj a)"
    using assms(1,7,8) wl(1)
    by (auto simp: dispatch_def io_of_def connecting_def async_connect_cb_def async_of_def ev_io_stop_def getsockerror_def
        sys_ret_def on_connect_def s1_def Let_def)
  moreover have s1: "objs s1 a = Some (Async (conn_ctx False peer ident))" "watches s1 M" "brk s1 = brk s" "calls s1 = calls s + 1"
    using assms(1) wl(2,3) by (simp_all add: s1_def connecting_def watches_def)
  moreover have "kept s s1" by (simp add: s1_def kept_def)
  ultimately show ?thesis
    using connect_cb_step [OF s1(1,2) assms(3), unfolded s1(3,4), OF assms(4,5), of q P ident ls r rest] assms(6,9-14)
    by (auto simp: kept_def)
qed

text \<open>A sequence of events: the watchers that are called one after the other.\<close>

fun events :: "wptr list \<Rightarrow> world \<Rightarrow> world cres" where
  "events [] s = Inr s"
| "events (w # ws) s = bindE (dispatch w s) (events ws)"

lemma events_append: "events (ws @ ws') = (\<lambda>s. bindE (events ws s) (events ws'))"
proof (induction ws)
  case (Cons w ws)
  show ?case by (simp add: fun_eq_iff Cons.IH bindE_assoc)
qed (simp add: fun_eq_iff)

lemma bindE_events_Nil [simp]: "bindE m (events []) = m"
  by (cases m) auto

lemma send_steps:
  assumes "held s a fd (if closing then Reply_tcp_send_cb else Query_tcp_send_cb) (out_ctx m)" "watches s (add_mset (a, F_w) M)"
    "m \<noteq> []" "os_ret (sys s) (calls s) = 2" "os_ret (sys s) (calls s + 1) = int (length m)"
  shows "\<exists>s'. events [(a, F_w), (a, F_w)] s = Inr s' \<and> watches s' M \<and> apart a s s' \<and> calls s' = calls s + 2
    \<and> kept (s\<lparr>trace := trace s @ [Send fd (NS_PUT16 (int (length m))) 2, Send fd m (int (length m))]
         @ (if closing then [Close fd] else [])\<rparr>) s'"
proof -
  obtain wl where wl: "stop_loop (wlist s) (a, F_w) = Some wl" "mset (watching wl) = M" "length wl = WLIST_SIZE"
    by (rule watches_stop [OF assms(2)])
  define s1 where "s1 = set_obj (a, F_w) (Dnsmsg ((out_ctx m)\<lparr>x_offset := 0\<rparr>))
    (emit (Send fd (NS_PUT16 (int (length m))) 2) (s\<lparr>calls := calls s + 1\<rparr>))"
  have step: "dispatch (a, F_w) s' = tcp_send_cb closing (a, F_w) s'" if "ios s' = ios s" for s'
    using that assms(1) by (auto simp: held_def dispatch_def io_of_def query_tcp_send_cb_def reply_tcp_send_cb_def)
  have "tcp_send_cb closing (a, F_w) s = Inr s1"
    using assms(1,4) by (auto simp: held_def tcp_send_cb_def io_of_def dnsmsg_of_def out_ctx_def sys_send_def sys_ret_def s1_def Let_def)
  moreover have "\<exists>s'. tcp_send_cb closing (a, F_w) s1 = Inr s' \<and> watches s' M \<and> apart a s s' \<and> calls s' = calls s + 2
      \<and> kept (s\<lparr>trace := trace s @ [Send fd (NS_PUT16 (int (length m))) 2, Send fd m (int (length m))]
           @ (if closing then [Close fd] else [])\<rparr>) s'"
    using assms(1,3,5) wl
    by (auto simp: held_def tcp_send_cb_def io_of_def dnsmsg_of_def out_ctx_def rd_n_def sys_send_def sys_ret_def s1_def Let_def
        set_obj_def emit_def drop_ctx_def ev_io_stop_def free_obj_def watches_def kept_def apart_def)
  moreover have "ios s1 = ios s" by (simp add: s1_def set_obj_def emit_def)
  ultimately show ?thesis using step by auto
qed

lemma put16_value:
  assumes "n < 2 ^ 16"
  obtains hi lo where "NS_PUT16 (int n) = [hi, lo]" "256 * uint hi + uint lo = int n"
proof -
  define w :: "16 word" where "w = word_of_int (int n)"
  have "uint w = int n" using assms unfolding w_def by (simp only: uint_word_of_int) simp
  then have "uint (ucast (drop_bit 8 w) :: byte) = int n div 256" "uint (ucast w :: byte) = int n mod 256"
    using assms by (simp_all add: unsigned_ucast_eq drop_bit_eq_div take_bit_eq_mod uint_div_distrib)
  then have "256 * uint (ucast (drop_bit 8 w) :: byte) + uint (ucast w :: byte) = int n" by simp
  then show ?thesis using that by (simp add: NS_PUT16_def Let_def w_def)
qed

text \<open>The receiver of either kind reads the length first.\<close>

lemma length_step:
  assumes "held s a fd fn (in_ctx cb buf)" "fn \<in> {Query_tcp_recv_cb, Reply_tcp_recv_cb}"
    "os_recv (sys s) (calls s) = Some (NS_PUT16 (int n))" "n \<le> NS_PACKETSZ"
  shows "dispatch (a, F_w) s = Inr (set_obj (a, F_w) (Dnsmsg ((in_ctx cb buf)\<lparr>x_msglen := int n\<rparr>)) (s\<lparr>calls := calls s + 1\<rparr>))"
proof -
  obtain hi lo where hl: "NS_PUT16 (int n) = [hi, lo]" "256 * uint hi + uint lo = int n"
    using put16_value [of n] assms(4) by auto
  then show ?thesis
    using assms by (auto simp: held_def dispatch_def query_tcp_recv_cb_def reply_tcp_recv_cb_def io_of_def dnsmsg_of_def in_ctx_def
        recv_msglen_def sys_recv_def)
qed

text \<open>The answer: its length, and then the message in one piece. The client gets it under its own id.\<close>

lemma answer_steps:
  assumes "held s a fd Reply_tcp_recv_cb (in_ctx Reply_cb buf)" "length buf = NS_PACKETSZ" "watches s (add_mset (a, F_w) M)"
    "os_recv (sys s) (calls s) = Some (NS_PUT16 (int (2 + length body)))"
    "os_recv (sys s) (calls s + 1) = Some (NS_PUT16 (uint new) @ body)" "2 + length body \<le> NS_PACKETSZ" "\<not> verbose (cfg s)"
    "mset (pending (queries s)) = add_mset q P" "q_id q = new" "new \<notin># image_mset q_id P" "q_sock q > 0" "q_protocol q = ns_udp"
  shows "\<exists>s'. events [(a, F_w), (a, F_w)] s = Inr s' \<and> watches s' M \<and> mset (pending (queries s')) = P
    \<and> trace s' = trace s @ [Close fd, Sendto (q_sock q) (NS_PUT16 (uint (q_qid q)) @ body) (q_addr q)]"
proof -
  let ?n = "2 + length body" and ?w = "(a, F_w)" and ?data = "NS_PUT16 (uint new) @ body"
  obtain wl where wl: "stop_loop (wlist s) ?w = Some wl" "mset (watching wl) = M" "length wl = WLIST_SIZE"
    by (rule watches_stop [OF assms(3)])
  define s1 where "s1 = set_obj ?w (Dnsmsg ((in_ctx Reply_cb buf)\<lparr>x_msglen := int ?n\<rparr>)) (s\<lparr>calls := calls s + 1\<rparr>)"
  have "dispatch ?w s = Inr s1"
    unfolding s1_def by (rule length_step [OF assms(1) _ assms(4,6)]) simp
  moreover define pad where "pad = drop ?n buf"
  define m where "m = ?data @ pad"
  have m: "length m = NS_PACKETSZ" "put_at buf 0 ?data = Inr m"
    using assms(2,6) by (simp_all add: m_def pad_def put_at_def mem_put_def)
  define s2 where "s2 = emit (Close fd) (set_obj ?w (Dnsmsg ((in_ctx Reply_cb buf)\<lparr>x_msg := Some m, x_msglen := int ?n\<rparr>))
    (s\<lparr>calls := calls s + 2\<rparr>)\<lparr>wlist := wl, changed := True\<rparr>)"
  have "take NS_PACKETSZ ?data = ?data" "?data \<noteq> []" using assms(6) by (simp_all add: NS_PUT16_def Let_def)
  then have "dispatch ?w s1 = bindE (reply_cb m ?n s2) (free_obj a)"
    using assms(1,5) m(2) wl(1)
    by (auto simp: held_def dispatch_def reply_tcp_recv_cb_def io_of_def dnsmsg_of_def in_ctx_def sys_recv_def s1_def s2_def
        set_obj_def ev_io_stop_def emit_def on_reply_def Let_def nat_add_distrib simp del: take_append)
  moreover obtain i where i: "query_search (queries s) new = Some i" "i < length (queries s)" "queries s ! i = Some q"
    using search_added [OF assms(8)] assms(9,10) by auto
  moreover have "reply_cb m ?n s2 = Inr (sent (q_sock q) (NS_PUT16 (uint (q_qid q)) @ body) (q_addr q)
      (s2\<lparr>queries := (queries s2)[i := None]\<rparr>))"
    using reply_cb_udp [where s = s2 and x = new and i = i and q = q and body = body and pad = pad and msg = m and n = ?n]
      i assms(7,11,12) m(1)
    by (simp add: s2_def query_at_def set_obj_def emit_def m_def)
  moreover have "mset (pending ((queries s)[i := None])) = P"
    using pending_update_None [OF i(2,3)] assms(8) by simp
  ultimately show ?thesis
    using wl by (simp add: free_obj_def s2_def set_obj_def emit_def watches_def)
qed

text \<open>A query over TCP: its length, and then the message; it joins the pending ones, and \<open>query_cb\<close> is called.\<close>

definition tcp_query :: "16 word \<Rightarrow> 16 word \<Rightarrow> int \<Rightarrow> sockaddr \<times> nat \<Rightarrow> int \<Rightarrow> label list \<Rightarrow> query_t" where
  "tcp_query new x fd from type ls = (pending_query new x fd from type ls)\<lparr>q_protocol := ns_tcp\<rparr>"

lemma tcp_query_fields [simp]:
  "q_id (tcp_query new x fd from type ls) = new" "q_qid (tcp_query new x fd from type ls) = x"
  "q_sock (tcp_query new x fd from type ls) = fd" "q_protocol (tcp_query new x fd from type ls) = ns_tcp"
  "q_type (tcp_query new x fd from type ls) = type" "q_name (tcp_query new x fd from type ls) = text_name ls"
  "tcp_query new x fd from type ls\<lparr>q_id := y\<rparr> = tcp_query y x fd from type ls"
  by (simp_all add: tcp_query_def pending_query_def)

lemma query_steps:
  assumes "held s a fd Query_tcp_recv_cb (in_ctx Query_cb buf)" "length buf = NS_PACKETSZ" "watches s (add_mset (a, F_w) M)"
    "plain_name ls" "0 \<le> type" "type < 2 ^ 16" "length (pending (queries s)) < length (queries s)" "\<forall>i. os_mem (sys s) i"
    "os_recv (sys s) (calls s) = Some (NS_PUT16 (int (length (query_msg x ls type))))"
    "os_recv (sys s) (calls s + 1) = Some (query_msg x ls type)" "from = os_from (sys s) (calls s + 2)"
  shows "\<exists>s1 ql. events [(a, F_w), (a, F_w)] s = bindE (query_cb x s1) (free_obj a) \<and> kept (s\<lparr>queries := ql\<rparr>) s1
    \<and> mset (pending ql) = add_mset (tcp_query x x fd from type ls) (mset (pending (queries s))) \<and> watches s1 M \<and> apart a s s1
    \<and> objs s1 a \<noteq> None \<and> calls s1 = calls s + 3 \<and> brk s1 = brk s"
proof -
  let ?m = "query_msg x ls type" and ?w = "(a, F_w)"
  obtain wl where wl: "stop_loop (wlist s) ?w = Some wl" "mset (watching wl) = M" "length wl = WLIST_SIZE"
    by (rule watches_stop [OF assms(3)])
  define s1 where "s1 = set_obj ?w (Dnsmsg ((in_ctx Query_cb buf)\<lparr>x_msglen := int (length ?m)\<rparr>)) (s\<lparr>calls := calls s + 1\<rparr>)"
  note msg = parse_query_msg [OF assms(4-6), of x]
  have first: "dispatch ?w s = Inr s1"
    unfolding s1_def by (rule length_step [OF assms(1) _ assms(9)]) (use msg(4) in simp_all)
  define m where "m = ?m @ drop (length ?m) buf"
  have m: "put_at buf 0 ?m = Inr m" "take NS_PACKETSZ ?m = ?m"
    using assms(2) msg(4) by (simp_all add: m_def put_at_def mem_put_def)
  obtain ql where ql: "add_loop (queries s) (tcp_query x x fd from type ls) = Some ql"
    using assms(7) add_loop_None [of "queries s"] by auto
  let ?q = "\<lparr>q_id = x, q_qid = 0, q_ttl = 0, q_sock = fd, q_protocol = ns_tcp, q_addr = fst from, q_addrlen = snd from,
    q_type = type, q_name = text_name ls\<rparr>"
  have add: "query_add (queries s) ?q = Some ql" using ql by (simp add: query_add_def tcp_query_def pending_query_def)
  define s2 where "s2 = (set_obj ?w (Dnsmsg ((in_ctx Query_cb buf)\<lparr>x_msg := Some m, x_msglen := int (length ?m)\<rparr>))
    s)\<lparr>wlist := wl, changed := True, calls := calls s + 1 + 1 + 1, queries := ql\<rparr>"
  have "dispatch ?w s1 = bindE (query_cb x s2) (free_obj a)"
    using assms(1,8,10,11) m msg(1-3) wl(1) add
    by (auto simp: held_def dispatch_def query_tcp_recv_cb_def io_of_def dnsmsg_of_def in_ctx_def sys_recv_def s1_def s2_def m_def
        set_obj_def ev_io_stop_def malloc_ok_def on_query_def Let_def)
  then show ?thesis
    using first add_loop_Some [OF ql] wl(2,3)
    by (intro exI [of _ s2] exI [of _ ql]) (simp add: s2_def set_obj_def kept_def watches_def apart_def)
qed

text \<open>A connection is accepted.\<close>

lemma accept_step:
  assumes "ios s w = Some io" "ev_cb io = Accept_cb" "watches s M" "size M < WLIST_SIZE" "\<forall>i. os_mem (sys s) i"
    "os_ret (sys s) (calls s) = sock" "sock > 0" "\<forall>i < 5. os_ret (sys s) (calls s + 1 + i) = 0"
  shows "\<exists>s' buf. dispatch w s = Inr s' \<and> held s' (brk s) sock Query_tcp_recv_cb (in_ctx Query_cb buf) \<and> length buf = NS_PACKETSZ
    \<and> watches s' (add_mset (brk s, F_w) M) \<and> kept s s' \<and> apart (brk s) s s' \<and> brk s' = brk s + 1 \<and> calls s' = calls s + 8"
proof -
  have opts: "stream_options (s\<lparr>calls := calls s + 1\<rparr>) = s\<lparr>calls := calls s + 6\<rparr>"
    using stream_options_ok [of "s\<lparr>calls := calls s + 1\<rparr>"] assms(8) by simp
  let ?s1 = "s\<lparr>calls := calls s + 6\<rparr>"
  have "dispatch w s = query_recv sock ns_tcp Query_cb ?s1"
    using assms(1,2,6,7) opts by (simp add: dispatch_def accept_cb_def io_of_def sys_ret_def)
  moreover have "watches ?s1 M" "\<forall>i. os_mem (sys ?s1) i" using assms(3,5) by (simp_all add: watches_def)
  ultimately show ?thesis
    using recv_start_tcp [OF _ assms(4,7), of ?s1 Query_udp_recv_cb Query_tcp_recv_cb Query_cb]
    by (simp add: query_recv_def kept_def apart_def add.commute)
qed

text \<open>A query has come in over a connection from a client: it is sent on as a datagram, and the context is freed.\<close>

lemma client_query_steps:
  assumes "held s a fd Query_tcp_recv_cb (in_ctx Query_cb buf)" "length buf = NS_PACKETSZ" "watches s (add_mset (a, F_w) M)"
    "plain_name ls" "0 \<le> type" "type < 2 ^ 16" "length (pending (queries s)) < length (queries s)" "\<forall>i. os_mem (sys s) i"
    "os_recv (sys s) (calls s) = Some (NS_PUT16 (int (length (query_msg x ls type))))"
    "os_recv (sys s) (calls s + 1) = Some (query_msg x ls type)" "from = os_from (sys s) (calls s + 2)"
    "x \<notin> ids (queries s)" "rnds s = new # r # rest" "new \<notin> {0, x} \<union> ids (queries s)"
    "cache_search (htab s) (text_name ls) ns_t_block = Inr verdict" "by_udp (cfg s) verdict"
    "route (cfg s) verdict type = (sock, peer, rtype)" "P = mset (pending (queries s))"
  shows "\<exists>s'. events [(a, F_w), (a, F_w)] s = Inr s' \<and> mset (pending (queries s')) = add_mset (tcp_query new x fd from type ls) P
    \<and> watches s' M \<and> apart a s s' \<and> calls s' = calls s + 4 \<and> brk s' = brk s \<and> sys s' = sys s \<and> cfg s' = cfg s
    \<and> trace s' = trace s @ [Sendto sock (query_msg new ls rtype) peer]"
proof -
  obtain s2 ql where s2: "events [(a, F_w), (a, F_w)] s = bindE (query_cb x s2) (free_obj a)"
    "kept (s\<lparr>queries := ql\<rparr>) s2" "mset (pending ql) = add_mset (tcp_query x x fd from type ls) P" "watches s2 M"
    "apart a s s2" "objs s2 a \<noteq> None" "calls s2 = calls s + 3" "brk s2 = brk s"
    using query_steps [OF assms(1-11)] assms(18) by blast
  have k2: "cfg s2 = cfg s" "queries s2 = ql" "htab s2 = htab s" "rnds s2 = new # r # rest" "trace s2 = trace s" "sys s2 = sys s"
    using s2(2) assms(13) by (simp_all add: kept_def)
  have q2: "mset (pending (queries s2)) = add_mset (tcp_query x x fd from type ls) P" "x \<notin># image_mset q_id P"
    "new \<notin> {0, x}" "new \<notin># image_mset q_id P" "cache_search (htab s2) (q_name (tcp_query x x fd from type ls)) ns_t_block = Inr verdict"
    using k2 s2(3) assms(12,14,15,18) by (auto simp: ids_mset)
  obtain ql' where ql': "query_cb x s2 = ask verdict (tcp_query new x fd from type ls) (s2\<lparr>queries := ql', rnds := r # rest\<rparr>)"
    "mset (pending ql') = add_mset (tcp_query new x fd from type ls) P"
    using query_cb_added [OF q2(1) _ q2(2) k2(4) q2(3-5)] by auto
  define s3 where "s3 = sent sock (query_msg new ls rtype) peer (s2\<lparr>queries := ql', rnds := rest\<rparr>)"
  have q3: "query_cb x s2 = Inr s3"
    using ask_sends [where verdict = verdict and q = "tcp_query new x fd from type ls" and ls = ls
        and s = "s2\<lparr>queries := ql', rnds := r # rest\<rparr>"] ql'(1) assms(4,16,17) k2(1)
    by (simp add: s3_def)
  define s4 where "s4 = s3\<lparr>objs := (objs s3)(a := None), ios := (\<lambda>p. if fst p = a then None else ios s3 p)\<rparr>"
  have "objs s3 a \<noteq> None" using s2(6) by (simp add: s3_def)
  then have "events [(a, F_w), (a, F_w)] s = Inr s4"
    using s2(1) q3 by (simp add: free_obj_def s4_def)
  moreover have "apart a s s4" using s2(5) by (simp add: s4_def s3_def apart_def)
  ultimately show ?thesis
    using s2(4,7,8) k2 ql'(2) by (intro exI [of _ s4]) (simp add: s4_def s3_def watches_def)
qed

text \<open>
  A reply arrives for a client over TCP: it is sent to the client with its length in front, and the
  client's connection is closed.
\<close>

lemma client_answer_steps:
  assumes "waits s w fd' Reply_udp_recv_cb Reply_cb" "os_recv (sys s) (calls s) = Some (NS_PUT16 (uint new) @ answer)"
    "2 + length answer \<le> NS_PACKETSZ" "watches s M" "size M < WLIST_SIZE" "\<forall>i. os_mem (sys s) i" "\<not> verbose (cfg s)" "fd > 0"
    "mset (pending (queries s)) = add_mset (tcp_query new x fd from type ls) P" "new \<notin># image_mset q_id P"
    "os_ret (sys s) (calls s + 3) = 2" "os_ret (sys s) (calls s + 4) = int (2 + length answer)"
  shows "\<exists>s'. events [w, (brk s, F_w), (brk s, F_w)] s = Inr s' \<and> watches s' M \<and> mset (pending (queries s')) = P
    \<and> trace s' = trace s @ [Send fd (NS_PUT16 (int (2 + length answer))) 2,
         Send fd (NS_PUT16 (uint x) @ answer) (int (2 + length answer)), Close fd]"
proof -
  let ?q = "tcp_query new x fd from type ls"
  obtain pad where pad: "length ((NS_PUT16 (uint new) @ answer) @ pad) = NS_PACKETSZ"
    "dispatch w s = on_reply Reply_cb ((NS_PUT16 (uint new) @ answer) @ pad) (2 + length answer) (s\<lparr>calls := calls s + 1\<rparr>)"
    by (rule dispatch_datagram [OF assms(1-3)])
  define s1 where "s1 = s\<lparr>calls := calls s + 1\<rparr>"
  obtain i where i: "query_search (queries s) new = Some i" "i < length (queries s)" "queries s ! i = Some ?q"
    using search_added [OF assms(9)] assms(10) by auto
  have at: "query_search (queries s1) new = Some i" "query_at i s1 = Inr ?q" "0 < q_sock ?q" "verbose (cfg s1) \<longrightarrow> Q" for Q
    using i assms(7,8) by (simp_all add: s1_def query_at_def)
  obtain msg where msg: "length msg = NS_PACKETSZ" "take (2 + length answer) msg = NS_PUT16 (uint x) @ answer"
    "dispatch w s = bindE (reply_send fd ns_tcp msg (int (2 + length answer)) (q_addr ?q) s1) (\<lambda>s. Inr (delete_query new s))"
    using reply_cb_eq [OF at(1-3) refl pad(1) refl at(4)] pad(2) unfolding s1_def [symmetric] by (auto simp: on_reply_def)
  have m1: "watches s1 M" "\<forall>i. os_mem (sys s1) i" "2 + length answer \<le> length msg"
    using assms(3,4,6) msg(1) by (simp_all add: s1_def watches_def)
  obtain s2 where s2: "reply_send fd ns_tcp msg (int (2 + length answer)) (q_addr ?q) s1 = Inr s2"
    "held s2 (brk s1) fd Reply_tcp_send_cb (out_ctx (take (2 + length answer) msg))" "watches s2 (add_mset (brk s1, F_w) M)"
    "kept s1 s2" "calls s2 = calls s1 + 2"
    using send_start_tcp [OF m1(1) assms(5,8) m1(2,3), of Reply_tcp_send_cb] unfolding reply_send_def by blast
  define s3 where "s3 = s2\<lparr>queries := (queries s2)[i := None]\<rparr>"
  have "query_search (queries s2) new = Some i" using s2(4) i(1) by (simp add: kept_def s1_def)
  then have e3: "dispatch w s = Inr s3" using msg(3) s2(1) delete_query_search by (simp add: s3_def)
  have c1: "calls s1 = calls s + 1" "brk s1 = brk s" by (simp_all add: s1_def)
  have k3: "held s3 (brk s) fd Reply_tcp_send_cb (out_ctx (NS_PUT16 (uint x) @ answer))" "watches s3 (add_mset (brk s, F_w) M)"
    "os_ret (sys s3) (calls s3) = 2" "os_ret (sys s3) (calls s3 + 1) = int (2 + length answer)" "trace s3 = trace s"
    "mset (pending (queries s3)) = P"
    using s2(2-5) [unfolded c1 msg(2)] assms(9,11,12) pending_update_None [OF i(2,3)]
    by (simp_all add: s3_def s1_def kept_def held_def watches_def eval_nat_numeral)
  obtain s4 where s4: "events [(brk s, F_w), (brk s, F_w)] s3 = Inr s4" "watches s4 M"
    "kept (s3\<lparr>trace := trace s3 @ [Send fd (NS_PUT16 (int (2 + length answer))) 2,
       Send fd (NS_PUT16 (uint x) @ answer) (int (2 + length answer)), Close fd]\<rparr>) s4"
    using send_steps [where closing = True, simplified, OF k3(1,2) _ k3(3)] k3(4) by (auto simp: NS_PUT16_def Let_def)
  then show ?thesis using e3 k3(5,6) by (simp add: kept_def)
qed

text \<open>From the call number \<open>c\<close> on the system gives a socket, lets the options be set, and makes the connection.\<close>

definition connects :: "os \<Rightarrow> nat \<Rightarrow> int \<Rightarrow> bool" where
  "connects e c sock \<longleftrightarrow> os_ret e c = sock \<and> sock > 0 \<and> (\<forall>i < 5. os_ret e (c + 1 + i) = 0)
     \<and> (os_ret e (c + 6) = 0 \<or> os_errno e (c + 6) = EINPROGRESS) \<and> os_ret e (c + 7) = 0 \<and> os_errno e (c + 7) = 0"

text \<open>A query for a blocked name arrives as a datagram: the program begins to connect to the server or the proxy.\<close>

lemma blocked_query_step:
  assumes "waits s w fd Query_udp_recv_cb Query_cb" "\<not> nspresolver (cfg s)"
    "plain_name ls" "0 \<le> type" "type < 2 ^ 16" "x \<notin> ids (queries s)" "length (pending (queries s)) < length (queries s)"
    "rnds s = new # r # rest" "new \<notin> {0, x} \<union> ids (queries s)"
    "cache_search (htab s) (text_name ls) ns_t_block = Inr (Some item)" "c_block item \<noteq> 0"
    "watches s M" "size M + 2 \<le> WLIST_SIZE" "\<forall>i. os_mem (sys s) i" "os_recv (sys s) (calls s + 1) = Some (query_msg x ls type)"
    "connects (sys s) (calls s + 3) sock" "from = os_from (sys s) (calls s + 1)" "P = mset (pending (queries s))"
    "via = socks5 (cfg s)"
  shows "\<exists>s'. dispatch w s = Inr s' \<and> connecting s' (brk s) sock (conn_ctx via (server (cfg s)) new)
    \<and> watches s' (add_mset (brk s, F_write) M) \<and> brk s' = brk s + 1 \<and> calls s' = calls s + 10
    \<and> mset (pending (queries s')) = add_mset (pending_query new x fd from type ls) P \<and> new \<notin># image_mset q_id P
    \<and> rnds s' = r # rest \<and> sys s' = sys s \<and> cfg s' = cfg s
    \<and> trace s' = trace s @ [Connect sock (if via then socks5_server (cfg s) else server (cfg s))]"
proof -
  let ?q = "pending_query new x fd from type ls"
  have new: "new \<noteq> 0" "new \<notin> ids (queries s)" "new \<noteq> x" "new \<notin># image_mset q_id P" using assms(9,18) by (auto simp: ids_mset)
  have mem: "os_mem (sys s) (calls s)" using assms(14) by simp
  obtain ql where ql: "dispatch w s = ask (Some item) ?q (s\<lparr>calls := calls s + 2, queries := ql, rnds := r # rest\<rparr>)"
    "mset (pending ql) = add_mset ?q P"
    using dispatch_ask [OF assms(1,3-5) mem assms(15,17,6-8) new(1-3) assms(10)] assms(18) by blast
  define s0 where "s0 = s\<lparr>calls := calls s + 2, queries := ql, rnds := r # rest\<rparr>"
  have s0: "watches s0 M" "size M < WLIST_SIZE" "\<forall>i. os_mem (sys s0) i" "os_ret (sys s0) (calls s0 + 1) = sock" "sock > 0"
    "\<forall>i < 5. os_ret (sys s0) (calls s0 + 2 + i) = 0"
    "os_ret (sys s0) (calls s0 + 7) = 0 \<or> os_errno (sys s0) (calls s0 + 7) = EINPROGRESS"
    using assms(12-14,16) by (simp_all add: s0_def watches_def connects_def eval_nat_numeral)
  define p where "p = (if via then socks5_server (cfg s) else server (cfg s))"
  have p: "(if via then socks5_server (cfg s0) else server (cfg s)) = p" by (simp add: p_def s0_def)
  obtain s1 where s1: "async_connect on_connect (server (cfg s)) Connected_cb via new s0 = Inr s1"
    "connecting s1 (brk s) sock (conn_ctx via (server (cfg s)) new)" "watches s1 (add_mset (brk s, F_write) M)"
    "kept (s0\<lparr>trace := trace s0 @ [Connect sock p]\<rparr>) s1" "brk s1 = brk s + 1" "calls s1 = calls s + 10"
    using connect_start [OF s0, of on_connect "server (cfg s)" via new, unfolded p] by (auto simp: s0_def)
  have "dispatch w s = Inr s1"
    using ql(1) s1(1) assms(2,11,19) by (simp add: ask_def ask_server_def s0_def)
  then show ?thesis using s1 ql(2) new(4) unfolding p_def [symmetric] by (intro exI [of _ s1]) (simp add: kept_def s0_def)
qed

text \<open>When the direct connection stands, the program holds the query to be sent and waits for the answer.\<close>

lemma blocked_query_steps:
  assumes "waits s w fd Query_udp_recv_cb Query_cb" "\<not> nspresolver (cfg s)" "\<not> socks5 (cfg s)"
    "plain_name ls" "0 \<le> type" "type < 2 ^ 16" "x \<notin> ids (queries s)" "length (pending (queries s)) < length (queries s)"
    "rnds s = new # r # rest" "new \<notin> {0, x} \<union> ids (queries s)"
    "cache_search (htab s) (text_name ls) ns_t_block = Inr (Some item)" "c_block item \<noteq> 0"
    "watches s M" "size M + 2 \<le> WLIST_SIZE" "\<forall>i. os_mem (sys s) i" "os_recv (sys s) (calls s + 1) = Some (query_msg x ls type)"
    "connects (sys s) (calls s + 3) sock" "from = os_from (sys s) (calls s + 1)" "P = mset (pending (queries s))"
  shows "\<exists>s' buf. events [w, (brk s, F_write)] s = Inr s' \<and> length buf = NS_PACKETSZ
    \<and> held s' (brk s + 1) sock Query_tcp_send_cb (out_ctx (query_msg new ls type)) \<and> held s' (brk s + 2) sock Reply_tcp_recv_cb (in_ctx Reply_cb buf)
    \<and> watches s' (add_mset (brk s + 1, F_w) (add_mset (brk s + 2, F_w) M)) \<and> calls s' = calls s + 15 \<and> sys s' = sys s \<and> cfg s' = cfg s
    \<and> mset (pending (queries s')) = add_mset (pending_query new x fd from type ls) P \<and> new \<notin># image_mset q_id P
    \<and> trace s' = trace s @ [Connect sock (server (cfg s))]"
proof -
  let ?q = "pending_query new x fd from type ls"
  obtain s1 where s1: "dispatch w s = Inr s1" "connecting s1 (brk s) sock (conn_ctx False (server (cfg s)) new)"
    "watches s1 (add_mset (brk s, F_write) M)" "brk s1 = brk s + 1" "calls s1 = calls s + 10"
    "mset (pending (queries s1)) = add_mset ?q P" "new \<notin># image_mset q_id P" "rnds s1 = r # rest" "sys s1 = sys s" "cfg s1 = cfg s"
    "trace s1 = trace s @ [Connect sock (server (cfg s))]"
    using blocked_query_step [OF assms(1,2,4-19) refl] assms(3) by auto
  have c1: "brk s < brk s1" "sock > 0" "\<forall>i. os_mem (sys s1) i" "os_ret (sys s1) (calls s1) = 0" "os_errno (sys s1) (calls s1) = 0"
    using assms(15,17) s1(4,5,9) by (simp_all add: connects_def eval_nat_numeral)
  obtain s2 buf where s2: "dispatch (brk s, F_write) s1 = Inr s2" "length buf = NS_PACKETSZ"
    "held s2 (brk s + 1) sock Query_tcp_send_cb (out_ctx (query_msg new ls type))"
    "held s2 (brk s + 2) sock Reply_tcp_recv_cb (in_ctx Reply_cb buf)"
    "watches s2 (add_mset (brk s + 1, F_w) (add_mset (brk s + 2, F_w) M))" "kept (s1\<lparr>rnds := rest\<rparr>) s2" "calls s2 = calls s + 15"
    using connected_step [OF s1(2,3) assms(14) c1 s1(6) _ s1(7) _ assms(4) s1(8)] s1(4,5) by auto
  then show ?thesis using s1 by (intro exI [of _ s2] exI [of _ buf]) (simp add: kept_def)
qed

text \<open>
  Over the connection: the query goes out with its length in front, the answer comes in the same way,
  the connection is closed, and the client gets its datagram.
\<close>

lemma link_steps:
  assumes "held s a sock Query_tcp_send_cb (out_ctx m)" "held s b sock Reply_tcp_recv_cb (in_ctx Reply_cb buf)" "a \<noteq> b"
    "length buf = NS_PACKETSZ" "watches s (add_mset (a, F_w) (add_mset (b, F_w) M))" "m \<noteq> []" "\<not> verbose (cfg s)" "fd > 0"
    "mset (pending (queries s)) = add_mset (pending_query new x fd from type ls) P" "new \<notin># image_mset q_id P"
    "os_ret (sys s) (calls s) = 2" "os_ret (sys s) (calls s + 1) = int (length m)"
    "os_recv (sys s) (calls s + 2) = Some (NS_PUT16 (int (2 + length answer)))"
    "os_recv (sys s) (calls s + 3) = Some (NS_PUT16 (uint new) @ answer)" "2 + length answer \<le> NS_PACKETSZ"
  shows "\<exists>s'. events [(a, F_w), (a, F_w), (b, F_w), (b, F_w)] s = Inr s' \<and> watches s' M \<and> mset (pending (queries s')) = P
    \<and> trace s' = trace s @ [Send sock (NS_PUT16 (int (length m))) 2, Send sock m (int (length m)), Close sock,
         Sendto fd (NS_PUT16 (uint x) @ answer) (fst from)]"
proof -
  obtain s3 where s3: "events [(a, F_w), (a, F_w)] s = Inr s3" "watches s3 (add_mset (b, F_w) M)" "apart a s s3" "calls s3 = calls s + 2"
    "kept (s\<lparr>trace := trace s @ [Send sock (NS_PUT16 (int (length m))) 2, Send sock m (int (length m))]\<rparr>) s3"
    using send_steps [where closing = False, simplified, OF assms(1,5,6)] assms(11,12) by auto
  have k3: "sys s3 = sys s" "mset (pending (queries s3)) = add_mset (pending_query new x fd from type ls) P" "\<not> verbose (cfg s3)"
    "trace s3 = trace s @ [Send sock (NS_PUT16 (int (length m))) 2, Send sock m (int (length m))]"
    using s3(5) assms(7,9) by (simp_all add: kept_def)
  have h3: "held s3 b sock Reply_tcp_recv_cb (in_ctx Reply_cb buf)" using assms(2,3) held_apart [OF s3(3)] by simp
  have r3: "os_recv (sys s3) (calls s3) = Some (NS_PUT16 (int (2 + length answer)))"
    "os_recv (sys s3) (calls s3 + 1) = Some (NS_PUT16 (uint new) @ answer)"
    using assms(13,14) s3(4) k3(1) by (simp_all add: eval_nat_numeral)
  obtain s4 where s4: "events [(b, F_w), (b, F_w)] s3 = Inr s4" "watches s4 M" "mset (pending (queries s4)) = P"
    "trace s4 = trace s3 @ [Close sock, Sendto fd (NS_PUT16 (uint x) @ answer) (fst from)]"
    using answer_steps [OF h3 assms(4) s3(2) r3 assms(15) k3(3,2) _ assms(10)] assms(8) by auto
  have "events ([(a, F_w), (a, F_w)] @ [(b, F_w), (b, F_w)]) s = Inr s4"
    unfolding events_append using s3(1) s4(1) by simp
  then show ?thesis using s4(2-4) k3(4) by simp
qed

section \<open>Properties\<close>

text \<open>
  C7. A query for a blocked name when neither \<open>nspresolver\<close> nor a proxy is set: the program connects to
  the server, sends it the query with its length in front under a new id, reads the length of the answer
  and the answer, closes the connection, and sends the client the answer as a datagram under the
  client's id. After that the tables of queries and of watchers are as they were.
\<close>

theorem tcp_exchange:
  assumes "waits s w fd Query_udp_recv_cb Query_cb" "fd > 0" "\<not> verbose (cfg s)" "\<not> nspresolver (cfg s)" "\<not> socks5 (cfg s)"
    "plain_name ls" "0 \<le> type" "type < 2 ^ 16" "x \<notin> ids (queries s)" "length (pending (queries s)) < length (queries s)"
    "rnds s = new # r # rest" "new \<notin> {0, x} \<union> ids (queries s)"
    "cache_search (htab s) (text_name ls) ns_t_block = Inr (Some item)" "c_block item \<noteq> 0"
    "length (wlist s) = WLIST_SIZE" "length (watching (wlist s)) + 2 \<le> WLIST_SIZE"
    "\<forall>i. os_mem (sys s) i" "os_recv (sys s) (calls s + 1) = Some (query_msg x ls type)" "connects (sys s) (calls s + 3) sock"
    "os_ret (sys s) (calls s + 15) = 2" "os_ret (sys s) (calls s + 16) = int (length (query_msg new ls type))"
    "os_recv (sys s) (calls s + 17) = Some (NS_PUT16 (int (2 + length answer)))"
    "os_recv (sys s) (calls s + 18) = Some (NS_PUT16 (uint new) @ answer)" "2 + length answer \<le> NS_PACKETSZ"
  shows "\<exists>s'. events [w, (brk s, F_write), (brk s + 1, F_w), (brk s + 1, F_w), (brk s + 2, F_w), (brk s + 2, F_w)] s = Inr s'
    \<and> trace s' = trace s @ [Connect sock (server (cfg s)), Send sock (NS_PUT16 (int (length (query_msg new ls type)))) 2,
         Send sock (query_msg new ls type) (int (length (query_msg new ls type))), Close sock,
         Sendto fd (NS_PUT16 (uint x) @ answer) (fst (os_from (sys s) (calls s + 1)))]
    \<and> mset (pending (queries s')) = mset (pending (queries s)) \<and> mset (watching (wlist s')) = mset (watching (wlist s))"
proof -
  let ?M = "mset (watching (wlist s))" and ?P = "mset (pending (queries s))" and ?m = "query_msg new ls type"
    and ?from = "os_from (sys s) (calls s + 1)"
  have M: "watches s ?M" "size ?M + 2 \<le> WLIST_SIZE" using assms(15,16) by (simp_all add: watches_def)
  obtain s2 buf where s2: "events [w, (brk s, F_write)] s = Inr s2" "length buf = NS_PACKETSZ"
    "held s2 (brk s + 1) sock Query_tcp_send_cb (out_ctx ?m)" "held s2 (brk s + 2) sock Reply_tcp_recv_cb (in_ctx Reply_cb buf)"
    "watches s2 (add_mset (brk s + 1, F_w) (add_mset (brk s + 2, F_w) ?M))" "calls s2 = calls s + 15" "sys s2 = sys s" "cfg s2 = cfg s"
    "mset (pending (queries s2)) = add_mset (pending_query new x fd ?from type ls) ?P" "new \<notin># image_mset q_id ?P"
    "trace s2 = trace s @ [Connect sock (server (cfg s))]"
    using blocked_query_steps [OF assms(1,4-14) M assms(17-19) refl refl] by blast
  have r2: "?m \<noteq> []" "\<not> verbose (cfg s2)" "os_ret (sys s2) (calls s2) = 2" "os_ret (sys s2) (calls s2 + 1) = int (length ?m)"
    "os_recv (sys s2) (calls s2 + 2) = Some (NS_PUT16 (int (2 + length answer)))"
    "os_recv (sys s2) (calls s2 + 3) = Some (NS_PUT16 (uint new) @ answer)"
    using parse_query_msg(3) [OF assms(6-8)] assms(3,20-23) s2(6-8) by (simp_all add: eval_nat_numeral)
  obtain s4 where s4: "events [(brk s + 1, F_w), (brk s + 1, F_w), (brk s + 2, F_w), (brk s + 2, F_w)] s2 = Inr s4" "watches s4 ?M"
    "mset (pending (queries s4)) = ?P"
    "trace s4 = trace s2 @ [Send sock (NS_PUT16 (int (length ?m))) 2, Send sock ?m (int (length ?m)), Close sock,
       Sendto fd (NS_PUT16 (uint x) @ answer) (fst ?from)]"
    using link_steps [OF s2(3,4) _ s2(2,5) r2(1,2) assms(2) s2(9,10) r2(3-6) assms(24)] by auto
  have "events ([w, (brk s, F_write)] @ [(brk s + 1, F_w), (brk s + 1, F_w), (brk s + 2, F_w), (brk s + 2, F_w)]) s = Inr s4"
    unfolding events_append using s2(1) s4(1) by simp
  then show ?thesis using s4(2-4) s2(11) by (simp add: watches_def)
qed

text \<open>The sample network without \<open>nspresolver\<close>: the connection gets the descriptor 20.\<close>

definition sample_link :: world where
  "sample_link = (sample_net (\<lambda>i. if i = 1 then Some (query_msg 7 [Plain [0x61, 0x72]] 1)
        else if i = 17 then Some (NS_PUT16 4) else Some (NS_PUT16 11 @ [1, 2])) [11, 12])
     \<lparr>cfg := sample_settings\<lparr>nspresolver := False\<rparr>, htab := sample_cache,
      sys := quiet\<lparr>os_recv := (\<lambda>i. if i = 1 then Some (query_msg 7 [Plain [0x61, 0x72]] 1)
          else if i = 17 then Some (NS_PUT16 4) else Some (NS_PUT16 11 @ [1, 2])), os_from := (\<lambda>i. (sample_peer 9, 16)),
        os_ret := (\<lambda>i. if i = 3 then 20 else if i = 15 then 2 else if i = 16 then 20 else 0)\<rparr>\<rparr>"

lemma tcp_exchange_witness:
  "\<exists>s'. events [(0, F_w), (3, F_write), (4, F_w), (4, F_w), (5, F_w), (5, F_w)] sample_link = Inr s'
    \<and> trace s' = [Connect 20 (sample_peer 3), Send 20 [0, 20] 2, Send 20 (query_msg 11 [Plain [0x61, 0x72]] 1) 20, Close 20,
         Sendto 5 (NS_PUT16 7 @ [1, 2]) (sample_peer 9)]"
proof -
  let ?s = sample_link and ?ls = "[Plain [0x61, 0x72]]"
  have w: "waits ?s (0, F_w) 5 Query_udp_recv_cb Query_cb"
    by (simp add: sample_link_def sample_net_def waits_def sample_watcher_def)
  have c: "cache_search (htab ?s) (text_name ?ls) ns_t_block = Inr (Some item_ar)" "c_block item_ar \<noteq> 0"
    by (simp_all add: sample_link_def sample_plain sample_cache_search item_ar_def)
  have t: "queries ?s = qlist_init" "rnds ?s = [11, 12]" "wlist ?s = replicate 128 None" "calls ?s = 0" "trace ?s = []" "brk ?s = 3"
    "\<not> verbose (cfg ?s)" "\<not> nspresolver (cfg ?s)" "\<not> socks5 (cfg ?s)" "server (cfg ?s) = sample_peer 3"
    by (simp_all add: sample_link_def sample_net_def world_zero_def sample_settings_def)
  have wl: "length (wlist ?s) = WLIST_SIZE" "length (watching (wlist ?s)) + 2 \<le> WLIST_SIZE"
    using length_watching [of "wlist ?s"] unfolding t by simp_all
  have l: "length (query_msg 11 ?ls 1) = 20" "int (length (query_msg 11 ?ls 1)) = 20" by (simp_all add: query_msg_def)
  have o: "\<forall>i. os_mem (sys ?s) i" "os_recv (sys ?s) (calls ?s + 1) = Some (query_msg 7 ?ls 1)" "connects (sys ?s) (calls ?s + 3) 20"
    "os_ret (sys ?s) (calls ?s + 15) = 2" "os_ret (sys ?s) (calls ?s + 16) = int (length (query_msg 11 ?ls 1))"
    "os_recv (sys ?s) (calls ?s + 17) = Some (NS_PUT16 (int (2 + length ([1, 2] :: byte list))))"
    "os_recv (sys ?s) (calls ?s + 18) = Some (NS_PUT16 (uint (11 :: 16 word)) @ [1, 2])"
    "os_from (sys ?s) (calls ?s + 1) = (sample_peer 9, 16)"
    unfolding t(4) l(2) by (simp_all add: sample_link_def quiet_def connects_def)
  have p: "NS_PUT16 20 = [0, 20]" by (simp add: NS_PUT16_def)
  show ?thesis
    using tcp_exchange [OF w _ t(7-9) sample_plain(1) _ _ _ _ t(2) _ c wl o(1-7)]
    by (simp add: t sample_ids o(8) [unfolded t(4), simplified] l p) blast
qed

text \<open>
  C9. A client over TCP: its connection is accepted, its query is read with the length in front of it and
  sent on under a new id to the server the verdict on the name asks for; the server's answer goes back
  over the client's connection, with its length in front and under the client's id, and then the
  connection is closed. After that the tables of queries and of watchers are as they were.
\<close>

theorem tcp_client_exchange:
  assumes "ios s w = Some io" "ev_cb io = Accept_cb" "waits s w' fd' Reply_udp_recv_cb Reply_cb" "fst w' < brk s"
    "\<not> verbose (cfg s)" "plain_name ls" "0 \<le> type" "type < 2 ^ 16" "x \<notin> ids (queries s)"
    "length (pending (queries s)) < length (queries s)" "rnds s = new # r # rest" "new \<notin> {0, x} \<union> ids (queries s)"
    "cache_search (htab s) (text_name ls) ns_t_block = Inr verdict" "by_udp (cfg s) verdict"
    "route (cfg s) verdict type = (sock, peer, rtype)"
    "length (wlist s) = WLIST_SIZE" "length (watching (wlist s)) < WLIST_SIZE" "\<forall>i. os_mem (sys s) i"
    "os_ret (sys s) (calls s) = fd" "fd > 0" "\<forall>i < 5. os_ret (sys s) (calls s + 1 + i) = 0"
    "os_recv (sys s) (calls s + 8) = Some (NS_PUT16 (int (length (query_msg x ls type))))"
    "os_recv (sys s) (calls s + 9) = Some (query_msg x ls type)"
    "os_recv (sys s) (calls s + 12) = Some (NS_PUT16 (uint new) @ answer)" "2 + length answer \<le> NS_PACKETSZ"
    "os_ret (sys s) (calls s + 15) = 2" "os_ret (sys s) (calls s + 16) = int (2 + length answer)"
  shows "\<exists>s'. events [w, (brk s, F_w), (brk s, F_w), w', (brk s + 1, F_w), (brk s + 1, F_w)] s = Inr s'
    \<and> trace s' = trace s @ [Sendto sock (query_msg new ls rtype) peer, Send fd (NS_PUT16 (int (2 + length answer))) 2,
         Send fd (NS_PUT16 (uint x) @ answer) (int (2 + length answer)), Close fd]
    \<and> mset (pending (queries s')) = mset (pending (queries s)) \<and> mset (watching (wlist s')) = mset (watching (wlist s))"
proof -
  let ?M = "mset (watching (wlist s))" and ?P = "mset (pending (queries s))" and ?from = "os_from (sys s) (calls s + 10)"
  have M: "watches s ?M" "size ?M < WLIST_SIZE" using assms(16,17) by (simp_all add: watches_def)
  obtain s1 buf where s1: "dispatch w s = Inr s1" "held s1 (brk s) fd Query_tcp_recv_cb (in_ctx Query_cb buf)" "length buf = NS_PACKETSZ"
    "watches s1 (add_mset (brk s, F_w) ?M)" "kept s s1" "apart (brk s) s s1" "brk s1 = brk s + 1" "calls s1 = calls s + 8"
    using accept_step [OF assms(1,2) M assms(18-21)] by blast
  have k1: "cfg s1 = cfg s" "queries s1 = queries s" "htab s1 = htab s" "rnds s1 = rnds s" "trace s1 = trace s" "sys s1 = sys s"
    using s1(5) by (simp_all add: kept_def)
  have r1: "length (pending (queries s1)) < length (queries s1)" "\<forall>i. os_mem (sys s1) i"
    "os_recv (sys s1) (calls s1) = Some (NS_PUT16 (int (length (query_msg x ls type))))"
    "os_recv (sys s1) (calls s1 + 1) = Some (query_msg x ls type)" "?from = os_from (sys s1) (calls s1 + 2)"
    using assms(10,18,22,23) s1(8) k1 by (simp_all add: eval_nat_numeral)
  obtain s4 where s4: "events [(brk s, F_w), (brk s, F_w)] s1 = Inr s4"
    "mset (pending (queries s4)) = add_mset (tcp_query new x fd ?from type ls) ?P" "watches s4 ?M" "apart (brk s) s1 s4"
    "calls s4 = calls s + 12" "brk s4 = brk s + 1" "sys s4 = sys s" "cfg s4 = cfg s"
    "trace s4 = trace s @ [Sendto sock (query_msg new ls rtype) peer]"
    using client_query_steps [OF s1(2-4) assms(6-8) r1, unfolded k1, OF assms(9,11-15) refl] s1(7,8) by auto
  have "fst w' \<noteq> brk s" using assms(4) by simp
  then have w4: "waits s4 w' fd' Reply_udp_recv_cb Reply_cb"
    using waits_apart [OF s1(6)] waits_apart [OF s4(4)] assms(3) by simp
  have r4: "os_recv (sys s4) (calls s4) = Some (NS_PUT16 (uint new) @ answer)" "\<forall>i. os_mem (sys s4) i" "\<not> verbose (cfg s4)"
    "os_ret (sys s4) (calls s4 + 3) = 2" "os_ret (sys s4) (calls s4 + 4) = int (2 + length answer)"
    using assms(5,18,24,26,27) s4(5,7,8) by (simp_all add: eval_nat_numeral)
  have new: "new \<notin># image_mset q_id ?P" using assms(12) by (simp add: ids_mset)
  obtain s5 where s5: "events [w', (brk s + 1, F_w), (brk s + 1, F_w)] s4 = Inr s5" "watches s5 ?M" "mset (pending (queries s5)) = ?P"
    "trace s5 = trace s4 @ [Send fd (NS_PUT16 (int (2 + length answer))) 2,
       Send fd (NS_PUT16 (uint x) @ answer) (int (2 + length answer)), Close fd]"
    using client_answer_steps [OF w4 r4(1) assms(25) s4(3) M(2) r4(2,3) assms(20) s4(2) new r4(4,5)] s4(6) by auto
  have "events ([w] @ [(brk s, F_w), (brk s, F_w)] @ [w', (brk s + 1, F_w), (brk s + 1, F_w)]) s = Inr s5"
    unfolding events_append using s1(1) s4(1) s5(1) by simp
  then show ?thesis using s5(2-4) s4(9) by (simp add: watches_def)
qed

text \<open>The sample network with a watcher for clients that connect; the client gets the descriptor 20.\<close>

definition sample_accept :: world where
  "sample_accept = (sample_net (\<lambda>i. None) [11, 12])
     \<lparr>htab := sample_cache, brk := 4, ios := (ios (sample_net (\<lambda>i. None) []))((3, F_w) \<mapsto> \<lparr>ev_fd = 6, ev_event = EV_READ, ev_cb = Accept_cb\<rparr>),
      sys := quiet\<lparr>os_recv := (\<lambda>i. if i = 8 then Some (NS_PUT16 20) else if i = 9 then Some (query_msg 7 [Plain [0x61, 0x72]] 1)
          else Some (NS_PUT16 11 @ [1, 2])),
        os_ret := (\<lambda>i. if i = 0 then 20 else if i = 15 then 2 else if i = 16 then 4 else 0)\<rparr>\<rparr>"

lemma tcp_client_exchange_witness:
  "\<exists>s'. events [(3, F_w), (4, F_w), (4, F_w), (2, F_w), (5, F_w), (5, F_w)] sample_accept = Inr s'
    \<and> trace s' = [Sendto 7 (query_msg 11 [Plain [0x61, 0x72]] 1) (sample_peer 3), Send 20 [0, 4] 2,
         Send 20 (NS_PUT16 7 @ [1, 2]) 4, Close 20]"
proof -
  let ?s = sample_accept and ?ls = "[Plain [0x61, 0x72]]"
  have w: "ios ?s (3, F_w) = Some \<lparr>ev_fd = 6, ev_event = EV_READ, ev_cb = Accept_cb\<rparr>" "waits ?s (2, F_w) 7 Reply_udp_recv_cb Reply_cb"
    by (simp_all add: sample_accept_def sample_net_def waits_def sample_watcher_def)
  have c: "cache_search (htab ?s) (text_name ?ls) ns_t_block = Inr (Some item_ar)"
    by (simp add: sample_accept_def sample_plain sample_cache_search)
  have r: "by_udp (cfg ?s) (Some item_ar)" "route (cfg ?s) (Some item_ar) 1 = (7, sample_peer 3, 1)"
    by (simp_all add: sample_accept_def sample_net_facts by_udp_def route_def sample_settings_def item_ar_def)
  have t: "queries ?s = qlist_init" "rnds ?s = [11, 12]" "wlist ?s = replicate 128 None" "calls ?s = 0" "trace ?s = []" "brk ?s = 4"
    "\<not> verbose (cfg ?s)"
    by (simp_all add: sample_accept_def sample_net_def world_zero_def sample_settings_def)
  have wl: "length (wlist ?s) = WLIST_SIZE" "length (watching (wlist ?s)) < WLIST_SIZE"
    unfolding t by simp_all
  have l: "int (length (query_msg 7 ?ls 1)) = 20" by (simp add: query_msg_def)
  have o: "\<forall>i. os_mem (sys ?s) i" "os_ret (sys ?s) (calls ?s) = 20" "\<forall>i < 5. os_ret (sys ?s) (calls ?s + 1 + i) = 0"
    "os_recv (sys ?s) (calls ?s + 8) = Some (NS_PUT16 (int (length (query_msg 7 ?ls 1))))"
    "os_recv (sys ?s) (calls ?s + 9) = Some (query_msg 7 ?ls 1)"
    "os_recv (sys ?s) (calls ?s + 12) = Some (NS_PUT16 (uint (11 :: 16 word)) @ [1, 2])"
    "os_ret (sys ?s) (calls ?s + 15) = 2" "os_ret (sys ?s) (calls ?s + 16) = int (2 + length ([1, 2] :: byte list))"
    unfolding t(4) l by (simp_all add: sample_accept_def quiet_def)
  have p: "NS_PUT16 4 = [0, 4]" by (simp add: NS_PUT16_def)
  show ?thesis
    using tcp_client_exchange [OF w(1) _ w(2) _ t(7) sample_plain(1) _ _ _ _ t(2) _ c r wl o(1,2) _ o(3-6) _ o(7,8)]
    by (simp add: t sample_ids p) blast
qed

end
