(* ===== verification/Proxy.thy ===== *)
theory Proxy
  imports Connect
begin

text \<open>
  A query for a blocked name that travels through a SOCKS5 proxy, from the client's datagram to the one
  with the answer: the steps of Connect and of the handshake in Async, joined on the whole state.
\<close>

section \<open>The steps\<close>

text \<open>The connection to the proxy stands: both watchers are set up, and the one for sending is listed.\<close>

lemma proxy_step:
  assumes "connecting s a sock y" "y_socks5 y" "watches s (add_mset (a, F_write) M)" "sock > 0"
    "os_ret (sys s) (calls s) = 0" "os_errno (sys s) (calls s) = 0"
  shows "\<exists>s'. dispatch (a, F_write) s = Inr s' \<and> shaking s' a sock (y\<lparr>y_state := Some CLOSED\<rparr>)
    \<and> watches s' (add_mset (a, F_write) M) \<and> kept s s' \<and> calls s' = calls s + 1 \<and> brk s' = brk s"
proof -
  obtain wl wl' where wl: "stop_loop (wlist s) (a, F_write) = Some wl" "start_loop wl (a, F_write) = Some wl'"
    "mset (watching wl') = add_mset (a, F_write) M" "length wl' = WLIST_SIZE"
    using stop_then_start [of "wlist s" "(a, F_write)" M] assms(3) unfolding watches_def by metis
  then show ?thesis
    using assms(1,2,4-6)
    by (simp add: dispatch_def io_of_def connecting_def async_connect_cb_def async_of_def ev_io_stop_def ev_io_start_def ev_io_init_def
        getsockerror_def sys_ret_def set_obj_def shaking_def watches_def kept_def Let_def)
qed

text \<open>From the call number \<open>c\<close> on the proxy accepts the greeting and the request, and both are sent whole.\<close>

definition accepting :: "byte list option \<Rightarrow> bool" where
  "accepting r \<longleftrightarrow> (case r of None \<Rightarrow> False | Some data \<Rightarrow> data \<noteq> [] \<and> length data \<le> 263 \<and> reply_accepted data)"

definition proxies :: "os \<Rightarrow> nat \<Rightarrow> sockaddr \<Rightarrow> bool" where
  "proxies e c peer \<longleftrightarrow> os_ret e c = 3 \<and> accepting (os_recv e (c + 1))
     \<and> os_ret e (c + 2) = int (length (socks5_request peer)) \<and> accepting (os_recv e (c + 3))"

lemma dispatch_shaking:
  "shaking s a fd y \<Longrightarrow> dispatch (a, F_write) s = socks5_send_cb on_connect (a, F_write) s"
  "shaking s a fd y \<Longrightarrow> dispatch (a, F_read) s = socks5_recv_cb on_connect (a, F_read) s"
  by (simp_all add: shaking_def dispatch_def io_of_def)

lemma handshake_steps:
  assumes "shaking s a sock y" "y_state y = Some CLOSED" "y_cb y = Connected_cb" "watches s (add_mset (a, F_write) M)"
    "proxies (sys s) (calls s) (y_addr y)"
  shows "\<exists>s' y'. events [(a, F_write), (a, F_read), (a, F_write), (a, F_read)] s = bindE (connect_cb sock (y_data y) s') (free_obj a)
    \<and> objs s' a = Some (Async y') \<and> watches s' M \<and> calls s' = calls s + 4 \<and> brk s' = brk s
    \<and> kept (s\<lparr>trace := trace s @ [Send sock [5, 1, 0] 3,
         Send sock (socks5_request (y_addr y)) (int (length (socks5_request (y_addr y))))]\<rparr>) s'"
proof -
  let ?r = "socks5_request (y_addr y)"
  have ws: "mset (watching (wlist s)) = add_mset (a, F_write) M" "length (wlist s) = WLIST_SIZE" using assms(4) by (simp_all add: watches_def)
  obtain d1 d2 where d: "os_recv (sys s) (calls s + 1) = Some d1" "d1 \<noteq> []" "length d1 \<le> 263" "reply_accepted d1"
    "os_recv (sys s) (calls s + 3) = Some d2" "d2 \<noteq> []" "length d2 \<le> 263" "reply_accepted d2"
    using assms(5) by (auto simp: proxies_def accepting_def split: option.splits)
  have n: "os_ret (sys s) (calls s) = 3" "os_ret (sys s) (calls s + 2) = int (length ?r)"
    using assms(5) by (simp_all add: proxies_def)
  have "socks5_next y = Some ([5, 1, 0], HELLO_SENT)" using assms(2) by (simp add: socks5_next_def socks5_hello_def)
  from socks5_send_step [OF assms(1) ws(1) this, of on_connect] n(1)
  obtain s1 where s1: "dispatch (a, F_write) s = Inr s1" "shaking s1 a sock (y\<lparr>y_state := Some HELLO_SENT\<rparr>)"
    "mset (watching (wlist s1)) = add_mset (a, F_read) M" "length (wlist s1) = WLIST_SIZE"
    "kept (s\<lparr>trace := trace s @ [Send sock [5, 1, 0] 3]\<rparr>) s1" "calls s1 = calls s + 1" "brk s1 = brk s"
    using dispatch_shaking(1) [OF assms(1)] ws(2) by auto
  have "os_recv (sys s1) (calls s1) = Some d1" using d(1) s1(5,6) by (simp add: kept_def)
  from socks5_recv_step [OF s1(2,3) _ this d(2-4), of on_connect]
  obtain s2 where s2: "dispatch (a, F_read) s1 = Inr s2" "shaking s2 a sock (y\<lparr>y_state := Some HELLO_RCVD\<rparr>)"
    "mset (watching (wlist s2)) = add_mset (a, F_write) M" "length (wlist s2) = WLIST_SIZE" "kept s1 s2" "calls s2 = calls s + 2"
    "brk s2 = brk s"
    using dispatch_shaking(2) [OF s1(2)] s1(4,6,7) by auto
  have "socks5_next (y\<lparr>y_state := Some HELLO_RCVD\<rparr>) = Some (?r, REQ_SENT)" by (simp add: socks5_next_def)
  moreover have "os_ret (sys s2) (calls s2) = int (length ?r)" using n(2) s1(5) s2(5,6) by (simp add: kept_def)
  ultimately obtain s3 where s3: "dispatch (a, F_write) s2 = Inr s3" "shaking s3 a sock (y\<lparr>y_state := Some REQ_SENT\<rparr>)"
    "mset (watching (wlist s3)) = add_mset (a, F_read) M" "length (wlist s3) = WLIST_SIZE"
    "kept (s2\<lparr>trace := trace s2 @ [Send sock ?r (int (length ?r))]\<rparr>) s3" "calls s3 = calls s + 3" "brk s3 = brk s"
    using socks5_send_step [OF s2(2,3), of ?r REQ_SENT on_connect] dispatch_shaking(1) [OF s2(2)] s2(4,6,7) by auto
  have "os_recv (sys s3) (calls s3) = Some d2" using d(5) s1(5) s2(5) s3(5,6) by (simp add: kept_def)
  from socks5_done_step [OF s3(2,3) _ this d(6-8), of on_connect]
  obtain s4 where "dispatch (a, F_read) s3 = bindE (connect_cb sock (y_data y) s4) (free_obj a)"
    "objs s4 a = Some (Async (y\<lparr>y_state := Some REQ_SENT\<rparr>))" "watches s4 M" "kept s3 s4" "calls s4 = calls s + 4" "brk s4 = brk s"
    using dispatch_shaking(2) [OF s3(2)] s3(4,6,7) assms(3) by (auto simp: watches_def on_connect_def)
  then show ?thesis
    using s1(1,5) s2(1,5) s3(1,5)
    by (intro exI [of _ s4] exI [of _ "y\<lparr>y_state := Some REQ_SENT\<rparr>"]) (auto simp: kept_def)
qed

text \<open>
  The whole way from the client's datagram through the handshake: the query is held to be sent on the
  connection, and the answer is awaited there.
\<close>

lemma proxied_query_steps:
  assumes "waits s w fd Query_udp_recv_cb Query_cb" "\<not> nspresolver (cfg s)" "socks5 (cfg s)"
    "plain_name ls" "0 \<le> type" "type < 2 ^ 16" "x \<notin> ids (queries s)" "length (pending (queries s)) < length (queries s)"
    "rnds s = new # r # rest" "new \<notin> {0, x} \<union> ids (queries s)"
    "cache_search (htab s) (text_name ls) ns_t_block = Inr (Some item)" "c_block item \<noteq> 0"
    "watches s M" "size M + 2 \<le> WLIST_SIZE" "\<forall>i. os_mem (sys s) i" "os_recv (sys s) (calls s + 1) = Some (query_msg x ls type)"
    "connects (sys s) (calls s + 3) sock" "proxies (sys s) (calls s + 11) (server (cfg s))"
    "from = os_from (sys s) (calls s + 1)" "P = mset (pending (queries s))" "request = socks5_request (server (cfg s))"
  shows "\<exists>s' buf. events ([w, (brk s, F_write)] @ [(brk s, F_write), (brk s, F_read), (brk s, F_write), (brk s, F_read)]) s = Inr s'
    \<and> length buf = NS_PACKETSZ \<and> held s' (brk s + 1) sock Query_tcp_send_cb (out_ctx (query_msg new ls type))
    \<and> held s' (brk s + 2) sock Reply_tcp_recv_cb (in_ctx Reply_cb buf)
    \<and> watches s' (add_mset (brk s + 1, F_w) (add_mset (brk s + 2, F_w) M)) \<and> calls s' = calls s + 19 \<and> sys s' = sys s \<and> cfg s' = cfg s
    \<and> mset (pending (queries s')) = add_mset (pending_query new x fd from type ls) P \<and> new \<notin># image_mset q_id P
    \<and> trace s' = trace s @ [Connect sock (socks5_server (cfg s)), Send sock [5, 1, 0] 3, Send sock request (int (length request))]"
proof -
  let ?a = "brk s" and ?q = "pending_query new x fd from type ls" and ?m = "query_msg new ls type"
  obtain s1 where s1: "dispatch w s = Inr s1" "connecting s1 ?a sock (conn_ctx True (server (cfg s)) new)"
    "watches s1 (add_mset (?a, F_write) M)" "brk s1 = ?a + 1" "calls s1 = calls s + 10" "mset (pending (queries s1)) = add_mset ?q P"
    "new \<notin># image_mset q_id P" "rnds s1 = r # rest" "sys s1 = sys s" "cfg s1 = cfg s"
    "trace s1 = trace s @ [Connect sock (socks5_server (cfg s))]"
    using blocked_query_step [OF assms(1,2,4-17,19,20) refl] assms(3) by auto
  have c1: "sock > 0" "os_ret (sys s1) (calls s1) = 0" "os_errno (sys s1) (calls s1) = 0"
    using assms(17) s1(5,9) by (simp_all add: connects_def eval_nat_numeral)
  obtain s2 where s2: "dispatch (?a, F_write) s1 = Inr s2" "shaking s2 ?a sock ((conn_ctx True (server (cfg s)) new)\<lparr>y_state := Some CLOSED\<rparr>)"
    "watches s2 (add_mset (?a, F_write) M)" "kept s1 s2" "calls s2 = calls s + 11" "brk s2 = ?a + 1"
    using proxy_step [OF s1(2) _ s1(3) c1] s1(4,5) by auto
  have p2: "proxies (sys s2) (calls s2) (server (cfg s))" using assms(18) s1(9) s2(4,5) by (simp add: kept_def)
  obtain s3 y where s3: "events [(?a, F_write), (?a, F_read), (?a, F_write), (?a, F_read)] s2 = bindE (connect_cb sock new s3) (free_obj ?a)"
    "objs s3 ?a = Some (Async y)" "watches s3 M" "calls s3 = calls s + 15" "brk s3 = ?a + 1"
    "kept (s2\<lparr>trace := trace s2 @ [Send sock [5, 1, 0] 3, Send sock request (int (length request))]\<rparr>) s3"
    using handshake_steps [OF s2(2) _ _ s2(3)] p2 s2(5,6) assms(21) by auto
  have k3: "?a < brk s3" "\<forall>i. os_mem (sys s3) i" "mset (pending (queries s3)) = add_mset ?q P" "rnds s3 = r # rest"
    "sys s3 = sys s" "cfg s3 = cfg s" "trace s3 = trace s1 @ [Send sock [5, 1, 0] 3, Send sock request (int (length request))]"
    using assms(15) s1 s2(4) s3(5,6) by (simp_all add: kept_def)
  obtain s4 buf where s4: "bindE (connect_cb sock new s3) (free_obj ?a) = Inr s4" "length buf = NS_PACKETSZ"
    "held s4 (?a + 1) sock Query_tcp_send_cb (out_ctx ?m)" "held s4 (?a + 2) sock Reply_tcp_recv_cb (in_ctx Reply_cb buf)"
    "watches s4 (add_mset (?a + 1, F_w) (add_mset (?a + 2, F_w) M))" "kept (s3\<lparr>rnds := rest\<rparr>) s4" "calls s4 = calls s + 19"
    using connect_cb_step [OF s3(2,3) assms(14) k3(1) c1(1) k3(2,3) _ s1(7) _ assms(4) k3(4)] s3(4,5) by auto
  have "events [w, (?a, F_write)] s = Inr s2" using s1(1) s2(1) by simp
  then have "events ([w, (?a, F_write)] @ [(?a, F_write), (?a, F_read), (?a, F_write), (?a, F_read)]) s = Inr s4"
    unfolding events_append by (simp only: s3(1) s4(1) bindE_simps)
  then show ?thesis
    using s4(2-7) k3 s1(7,11) by (intro exI [of _ s4] exI [of _ buf]) (simp add: kept_def)
qed

section \<open>Properties\<close>

text \<open>
  C8. A query for a blocked name when a SOCKS5 proxy is set: the program connects to the proxy, greets it,
  requests a connection to the server, and when both are accepted sends the query with its length in
  front under a new id, reads the length of the answer and the answer, closes the connection, and sends
  the client the answer as a datagram under the client's id. After that the tables of queries and of
  watchers are as they were.
\<close>

theorem socks5_exchange:
  assumes "waits s w fd Query_udp_recv_cb Query_cb" "fd > 0" "\<not> verbose (cfg s)" "\<not> nspresolver (cfg s)" "socks5 (cfg s)"
    "plain_name ls" "0 \<le> type" "type < 2 ^ 16" "x \<notin> ids (queries s)" "length (pending (queries s)) < length (queries s)"
    "rnds s = new # r # rest" "new \<notin> {0, x} \<union> ids (queries s)"
    "cache_search (htab s) (text_name ls) ns_t_block = Inr (Some item)" "c_block item \<noteq> 0"
    "length (wlist s) = WLIST_SIZE" "length (watching (wlist s)) + 2 \<le> WLIST_SIZE"
    "\<forall>i. os_mem (sys s) i" "os_recv (sys s) (calls s + 1) = Some (query_msg x ls type)" "connects (sys s) (calls s + 3) sock"
    "proxies (sys s) (calls s + 11) (server (cfg s))"
    "os_ret (sys s) (calls s + 19) = 2" "os_ret (sys s) (calls s + 20) = int (length (query_msg new ls type))"
    "os_recv (sys s) (calls s + 21) = Some (NS_PUT16 (int (2 + length answer)))"
    "os_recv (sys s) (calls s + 22) = Some (NS_PUT16 (uint new) @ answer)" "2 + length answer \<le> NS_PACKETSZ"
  shows "\<exists>s'. events ([w, (brk s, F_write)] @ [(brk s, F_write), (brk s, F_read), (brk s, F_write), (brk s, F_read)]
      @ [(brk s + 1, F_w), (brk s + 1, F_w), (brk s + 2, F_w), (brk s + 2, F_w)]) s = Inr s'
    \<and> trace s' = trace s @ [Connect sock (socks5_server (cfg s)), Send sock [5, 1, 0] 3,
         Send sock (socks5_request (server (cfg s))) (int (length (socks5_request (server (cfg s))))),
         Send sock (NS_PUT16 (int (length (query_msg new ls type)))) 2,
         Send sock (query_msg new ls type) (int (length (query_msg new ls type))), Close sock,
         Sendto fd (NS_PUT16 (uint x) @ answer) (fst (os_from (sys s) (calls s + 1)))]
    \<and> mset (pending (queries s')) = mset (pending (queries s)) \<and> mset (watching (wlist s')) = mset (watching (wlist s))"
proof -
  let ?M = "mset (watching (wlist s))" and ?P = "mset (pending (queries s))" and ?m = "query_msg new ls type"
    and ?from = "os_from (sys s) (calls s + 1)" and ?r = "socks5_request (server (cfg s))" and ?a = "brk s"
  have M: "watches s ?M" "size ?M + 2 \<le> WLIST_SIZE" using assms(15,16) by (simp_all add: watches_def)
  obtain s4 buf where s4: "events ([w, (?a, F_write)] @ [(?a, F_write), (?a, F_read), (?a, F_write), (?a, F_read)]) s = Inr s4"
    "length buf = NS_PACKETSZ" "held s4 (?a + 1) sock Query_tcp_send_cb (out_ctx ?m)"
    "held s4 (?a + 2) sock Reply_tcp_recv_cb (in_ctx Reply_cb buf)" "watches s4 (add_mset (?a + 1, F_w) (add_mset (?a + 2, F_w) ?M))"
    "calls s4 = calls s + 19" "sys s4 = sys s" "cfg s4 = cfg s"
    "mset (pending (queries s4)) = add_mset (pending_query new x fd ?from type ls) ?P" "new \<notin># image_mset q_id ?P"
    "trace s4 = trace s @ [Connect sock (socks5_server (cfg s)), Send sock [5, 1, 0] 3, Send sock ?r (int (length ?r))]"
    using proxied_query_steps [OF assms(1,4-14) M assms(17-20) refl refl refl] by blast
  have r4: "?m \<noteq> []" "\<not> verbose (cfg s4)" "os_ret (sys s4) (calls s4) = 2" "os_ret (sys s4) (calls s4 + 1) = int (length ?m)"
    "os_recv (sys s4) (calls s4 + 2) = Some (NS_PUT16 (int (2 + length answer)))"
    "os_recv (sys s4) (calls s4 + 3) = Some (NS_PUT16 (uint new) @ answer)"
    using parse_query_msg(3) [OF assms(6-8)] assms(3,21-24) s4(6-8) by (simp_all add: eval_nat_numeral)
  obtain s5 where s5: "events [(?a + 1, F_w), (?a + 1, F_w), (?a + 2, F_w), (?a + 2, F_w)] s4 = Inr s5" "watches s5 ?M"
    "mset (pending (queries s5)) = ?P"
    "trace s5 = trace s4 @ [Send sock (NS_PUT16 (int (length ?m))) 2, Send sock ?m (int (length ?m)), Close sock,
       Sendto fd (NS_PUT16 (uint x) @ answer) (fst ?from)]"
    using link_steps [OF s4(3,4) _ s4(2,5) r4(1,2) assms(2) s4(9,10) r4(3-6) assms(25)] by auto
  have "events (([w, (?a, F_write)] @ [(?a, F_write), (?a, F_read), (?a, F_write), (?a, F_read)])
      @ [(?a + 1, F_w), (?a + 1, F_w), (?a + 2, F_w), (?a + 2, F_w)]) s = Inr s5"
    by (subst events_append) (simp only: s4(1) s5(1) bindE_simps)
  then show ?thesis using s5(2-4) s4(11) by (simp only: append_assoc watches_def) simp
qed

text \<open>The sample network with a proxy: the connection gets the descriptor 20, and the proxy's second reply is one byte.\<close>

definition sample_proxy :: world where
  "sample_proxy = (sample_net (\<lambda>i. None) [11, 12])
     \<lparr>cfg := sample_settings\<lparr>nspresolver := False, socks5 := True\<rparr>, htab := sample_cache,
      sys := quiet\<lparr>os_recv := (\<lambda>i. if i = 1 then Some (query_msg 7 [Plain [0x61, 0x72]] 1) else if i = 12 then Some [5, 0]
          else if i = 14 then Some [5] else if i = 21 then Some (NS_PUT16 4) else Some (NS_PUT16 11 @ [1, 2])),
        os_from := (\<lambda>i. (sample_peer 9, 16)),
        os_ret := (\<lambda>i. if i = 3 then 20 else if i = 11 then 3
          else if i = 13 then int (length (socks5_request (sample_peer 3))) else if i = 19 then 2 else if i = 20 then 20 else 0)\<rparr>\<rparr>"

lemma socks5_exchange_witness:
  "\<exists>s'. events [(0, F_w), (3, F_write), (3, F_write), (3, F_read), (3, F_write), (3, F_read), (4, F_w), (4, F_w), (5, F_w), (5, F_w)]
      sample_proxy = Inr s' \<and> last (trace s') = Sendto 5 (NS_PUT16 7 @ [1, 2]) (sample_peer 9) \<and> length (trace s') = 7"
proof -
  let ?s = sample_proxy and ?ls = "[Plain [0x61, 0x72]]"
  have w: "waits ?s (0, F_w) 5 Query_udp_recv_cb Query_cb"
    by (simp add: sample_proxy_def sample_net_def waits_def sample_watcher_def)
  have c: "cache_search (htab ?s) (text_name ?ls) ns_t_block = Inr (Some item_ar)" "c_block item_ar \<noteq> 0"
    by (simp_all add: sample_proxy_def sample_plain sample_cache_search item_ar_def)
  have t: "queries ?s = qlist_init" "rnds ?s = [11, 12]" "wlist ?s = replicate 128 None" "calls ?s = 0" "trace ?s = []" "brk ?s = 3"
    "\<not> verbose (cfg ?s)" "\<not> nspresolver (cfg ?s)" "socks5 (cfg ?s)" "server (cfg ?s) = sample_peer 3"
    by (simp_all add: sample_proxy_def sample_net_def world_zero_def sample_settings_def)
  have wl: "length (wlist ?s) = WLIST_SIZE" "length (watching (wlist ?s)) + 2 \<le> WLIST_SIZE"
    using length_watching [of "wlist ?s"] unfolding t by simp_all
  have l: "int (length (query_msg 11 ?ls 1)) = 20" by (simp add: query_msg_def)
  have o: "\<forall>i. os_mem (sys ?s) i" "os_recv (sys ?s) (calls ?s + 1) = Some (query_msg 7 ?ls 1)" "connects (sys ?s) (calls ?s + 3) 20"
    "proxies (sys ?s) (calls ?s + 11) (server (cfg ?s))"
    "os_ret (sys ?s) (calls ?s + 19) = 2" "os_ret (sys ?s) (calls ?s + 20) = int (length (query_msg 11 ?ls 1))"
    "os_recv (sys ?s) (calls ?s + 21) = Some (NS_PUT16 (int (2 + length ([1, 2] :: byte list))))"
    "os_recv (sys ?s) (calls ?s + 22) = Some (NS_PUT16 (uint (11 :: 16 word)) @ [1, 2])"
    "os_from (sys ?s) (calls ?s + 1) = (sample_peer 9, 16)"
    unfolding t(4,10) l by (simp_all add: sample_proxy_def quiet_def connects_def proxies_def accepting_def reply_accepted_def)
  show ?thesis
    using socks5_exchange [OF w _ t(7-9) sample_plain(1) _ _ _ _ t(2) _ c wl o(1-8)]
    by (simp add: t sample_ids o(9) [unfolded t(4), simplified]) force
qed

end
