(* ===== verification/Start.thy ===== *)
theory Start
  imports Connect
begin

text \<open>
  The program from its start: what \<open>sans_init\<close> sets up, and what holds in every state the program can
  reach, whatever the clients, the servers and the system do.
\<close>

section \<open>Initialisation\<close>

definition resolved :: "os \<Rightarrow> server_t \<Rightarrow> sockaddr \<Rightarrow> bool" where
  "resolved e srv a \<longleftrightarrow> (\<exists>i. os_resolve e i (str (addr srv)) (str (port srv)) = Some a)"

text \<open>What changing to another user looks like from outside: the group first, then the user.\<close>

definition dropped :: "os \<Rightarrow> cstr \<Rightarrow> effect list \<Rightarrow> bool" where
  "dropped e user xs \<longleftrightarrow> (case os_passwd e user of
      None \<Rightarrow> xs = []
    | Some (uid, gid) \<Rightarrow> (\<exists>r. r \<noteq> 0 \<and> xs = [Setegid gid r]) \<or> (\<exists>r. xs = [Setegid gid 0, Seteuid uid r]))"

lemma fresh_simps [simp]:
  "fresh (s\<lparr>run := b\<rparr>) = fresh s" "fresh (s\<lparr>calls := n\<rparr>) = fresh s" "fresh (s\<lparr>cfg := c\<rparr>) = fresh s"
  "fresh (s\<lparr>trace := t\<rparr>) = fresh s" "fresh (s\<lparr>tv := now\<rparr>) = fresh s"
  by (simp_all add: fresh_def)

text \<open>The steps of the initialisation that only ask the system.\<close>

definition asked :: "world \<Rightarrow> world \<Rightarrow> bool" where
  "asked s s' \<longleftrightarrow> fresh s' = fresh s \<and> sys s' = sys s \<and> run s' = run s \<and> tv s' = tv s \<and> cfg s' = cfg s \<and> trace s' = trace s"

lemma asked_steps:
  "getaddr srv s = Inr (a, s') \<Longrightarrow> asked s s' \<and> resolved (sys s) srv a"
  "open_socket s = Inr (fd, s') \<Longrightarrow> asked s s' \<and> 0 \<le> fd"
  by (auto simp: getaddr_def open_socket_def sys_ret_def asked_def resolved_def split: option.splits if_splits)

lemma asked_options: "asked s (snd (setnonblock s))" "asked s (snd (setreuseaddr s))"
  by (subst option_calls, simp add: asked_def)+

lemma asked_trans: "asked s s' \<Longrightarrow> asked s' s'' \<Longrightarrow> asked s s''"
  by (simp add: asked_def)

lemma must_do_step: "must_do x s = Inr s' \<Longrightarrow>
    fresh s' = fresh s \<and> sys s' = sys s \<and> run s' = run s \<and> tv s' = tv s \<and> cfg s' = cfg s \<and> trace s' = trace s @ [x]"
  by (auto simp: must_do_def sys_ret_def emit_def split: if_splits)

lemma init_socks5_step:
  assumes "init_socks5 srv s = Inr s'"
  shows "fresh s' = fresh s \<and> sys s' = sys s \<and> run s' = run s \<and> tv s' = tv s \<and> trace s' = trace s"
    "cfg s' = (cfg s)\<lparr>socks5 := False\<rparr> \<or> (\<exists>a. cfg s' = (cfg s)\<lparr>socks5_server := a, socks5 := True\<rparr>
       \<and> hd (addr srv) \<noteq> 0 \<and> resolved (sys s) srv a)"
  using assms
  by (auto simp: init_socks5_def socks5_init_def getaddr_def resolved_def split: if_splits option.splits)

lemma runas_step:
  "fresh (snd (runas user s)) = fresh s \<and> sys (snd (runas user s)) = sys s \<and> run (snd (runas user s)) = run s
    \<and> tv (snd (runas user s)) = tv s \<and> cfg (snd (runas user s)) = cfg s"
  "\<exists>xs. trace (snd (runas user s)) = trace s @ xs \<and> dropped (sys s) user xs"
  by (auto simp: runas_def sys_ret_def emit_def dropped_def Let_def split: option.split)

text \<open>Initialisation changes the settings, the counter of calls and the log only.\<close>

lemma sans_init_Inr:
  assumes "sans_init conf s = Inr s'"
  obtains a1 a2 c0 xs where "fresh s' = fresh s" "sys s' = sys s" "run s'" "tv s' = os_now (sys s)"
    "resolved (sys s) (cf_listen conf) a1" "resolved (sys s) (cf_listen conf) a2"
    "resolved (sys s) (cf_test_server conf) (test_server c0)" "resolved (sys s) (cf_cn_server conf) (cn_server c0)"
    "resolved (sys s) (cf_server conf) (server c0)" "verbose c0 = cf_verbose conf" "nspresolver c0 = cf_nspresolver conf"
    "\<forall>fd \<in> {sock_udp c0, sock_tcp c0, sock_test c0, sock_cn c0, sock_server c0}. 0 \<le> fd"
    "cfg s' = c0\<lparr>socks5 := False\<rparr> \<or> (\<exists>a. cfg s' = c0\<lparr>socks5_server := a, socks5 := True\<rparr>
       \<and> hd (addr (cf_socks5 conf)) \<noteq> 0 \<and> resolved (sys s) (cf_socks5 conf) a)"
    "trace s' = trace s @ [Bind (sock_udp c0) a1, Bind (sock_tcp c0) a2, Listen (sock_tcp c0)] @ xs"
    "if hd (cf_user conf) = 0 then xs = [] else dropped (sys s) (str (cf_user conf)) xs"
proof -
  from assms obtain a1 s1 udp s2 s3 a2 s4 tcp s5 s6 s7 ta s8 ca s9 sa s10 test s11 cn s12 srv s13 s14 where
    1: "getaddr (cf_listen conf) (ev_init (os_now (sys s)) s) = Inr (a1, s1)" and 2: "open_socket s1 = Inr (udp, s2)"
    and 3: "must_do (Bind udp a1) (snd (setnonblock s2)) = Inr s3" and 4: "getaddr (cf_listen conf) s3 = Inr (a2, s4)"
    and 5: "open_socket s4 = Inr (tcp, s5)" and 6: "must_do (Bind tcp a2) (snd (setreuseaddr s5)) = Inr s6"
    and 7: "must_do (Listen tcp) s6 = Inr s7" and 8: "getaddr (cf_test_server conf) (snd (setnonblock s7)) = Inr (ta, s8)"
    and 9: "getaddr (cf_cn_server conf) s8 = Inr (ca, s9)" and 10: "getaddr (cf_server conf) s9 = Inr (sa, s10)"
    and 11: "open_socket s10 = Inr (test, s11)" and 12: "open_socket (snd (setnonblock s11)) = Inr (cn, s12)"
    and 13: "open_socket (snd (setnonblock s12)) = Inr (srv, s13)"
    and 14: "init_socks5 (cf_socks5 conf) ((snd (setnonblock s13))\<lparr>cfg :=
         \<lparr>verbose = cf_verbose conf, nspresolver = cf_nspresolver conf, socks5 = False, sock_udp = udp, sock_tcp = tcp,
          sock_server = srv, sock_cn = cn, sock_test = test, test_server = ta, cn_server = ca, server = sa,
          socks5_server = socks5_server (cfg s13)\<rparr>\<rparr>) = Inr s14"
    and 15: "s' = (if hd (cf_user conf) \<noteq> 0 then snd (runas (str (cf_user conf)) s14) else s14)"
    by (clarsimp simp: sans_init_def bindE_Inr_iff)
  define c0 where "c0 = \<lparr>verbose = cf_verbose conf, nspresolver = cf_nspresolver conf, socks5 = False, sock_udp = udp, sock_tcp = tcp,
      sock_server = srv, sock_cn = cn, sock_test = test, test_server = ta, cn_server = ca, server = sa,
      socks5_server = socks5_server (cfg s13)\<rparr>"
  note a = asked_steps(1) [OF 1] asked_steps(2) [OF 2] asked_options(1) [of s2]
  note b = asked_steps(1) [OF 4] asked_steps(2) [OF 5] asked_options(2) [of s5]
  note c = asked_options(1) [of s7] asked_steps(1) [OF 8] asked_steps(1) [OF 9] asked_steps(1) [OF 10]
  note d = asked_steps(2) [OF 11] asked_options(1) [of s11] asked_steps(2) [OF 12] asked_options(1) [of s12]
    asked_steps(2) [OF 13] asked_options(1) [of s13]
  have "fresh s3 = fresh s" "sys s3 = sys s" "run s3" "tv s3 = os_now (sys s)" "trace s3 = trace s @ [Bind udp a1]"
    using a must_do_step [OF 3] by (simp_all add: asked_def ev_init_def)
  moreover then have t7: "fresh s7 = fresh s" "sys s7 = sys s" "run s7" "tv s7 = os_now (sys s)" "trace s7 = trace s @ [Bind udp a1, Bind tcp a2, Listen tcp]"
    using b must_do_step [OF 6] must_do_step [OF 7] by (simp_all add: asked_def)
  moreover then have "fresh s13 = fresh s" "sys s13 = sys s" "run s13" "tv s13 = os_now (sys s)" "trace s13 = trace s7"
    using c d(1-5) by (simp_all add: asked_def)
  moreover then have e: "fresh s14 = fresh s" "sys s14 = sys s" "run s14" "tv s14 = os_now (sys s)" "trace s14 = trace s7"
    using init_socks5_step(1) [OF 14] d(6) by (simp_all add: asked_def)
  ultimately have servers: "resolved (sys s) (cf_listen conf) a1" "resolved (sys s) (cf_listen conf) a2"
    "resolved (sys s) (cf_test_server conf) ta" "resolved (sys s) (cf_cn_server conf) ca" "resolved (sys s) (cf_server conf) sa"
    "0 \<le> udp" "0 \<le> tcp" "0 \<le> test" "0 \<le> cn" "0 \<le> srv" "sys (snd (setnonblock s13)) = sys s"
    using a b c d by (simp_all add: asked_def ev_init_def)
  have f: "fresh s' = fresh s" "sys s' = sys s" "run s'" "tv s' = os_now (sys s)" "cfg s' = cfg s14"
    using e runas_step(1) [of "str (cf_user conf)" s14] by (auto simp: 15)
  obtain xs where xs: "trace s' = trace s7 @ xs" "if hd (cf_user conf) = 0 then xs = [] else dropped (sys s) (str (cf_user conf)) xs"
  proof (cases "hd (cf_user conf) = 0")
    case True
    then show ?thesis using that [of "[]"] e by (simp add: 15)
  next
    case False
    then show ?thesis using that runas_step(2) [of "str (cf_user conf)" s14] e by (auto simp: 15)
  qed
  have socks: "cfg s' = c0\<lparr>socks5 := False\<rparr> \<or> (\<exists>a. cfg s' = c0\<lparr>socks5_server := a, socks5 := True\<rparr>
       \<and> hd (addr (cf_socks5 conf)) \<noteq> 0 \<and> resolved (sys s) (cf_socks5 conf) a)"
    using init_socks5_step(2) [OF 14 [folded c0_def]] servers(11) f(5) by simp
  show ?thesis
    by (rule that [OF f(1-4) servers(1,2) _ _ _ _ _ _ socks _ xs(2)]) (simp_all add: c0_def servers xs(1) t7(5))
qed

lemma fresh_init:
  assumes "sans_init conf s = Inr s'" "fresh s"
  shows "fresh s'" "run s'" "sys s' = sys s" "tv s' = os_now (sys s)"
  using assms(2) by (auto intro: sans_init_Inr [OF assms(1)])

lemma fresh_zero: "fresh (world_zero e rs)" "sys (world_zero e rs) = e"
  by (simp_all add: fresh_def world_zero_def)


text \<open>The process that goes on after \<open>daemonize\<close>, and the one that does not, are still in their first state.\<close>

lemma daemonize_fresh: "outcome {Fail} (\<lambda>(go, s'). fresh s' = fresh s \<and> sys s' = sys s) (daemonize pidfile logfile s)"
  by (simp add: daemonize_def sys_ret_def emit_def Let_def)

lemma daemon_parent:
  assumes "parse_args files args = Inr conf" "cf_daemon conf" "os_ret e 0 = pid" "0 < pid" "os_ret e 1 \<noteq> 0"
  shows "\<exists>s. main files args rounds (world_zero e rs) = Inr s \<and> trace s = [Pidfile (str (cf_pidfile conf)) pid]"
  using assms by (simp add: main_def daemonize_def sys_ret_def emit_def world_zero_def)

section \<open>The reachable states\<close>

text \<open>
  The states between two calls of callbacks: the program, or the daemon it has become, has been initialised
  and waits, a callback of a listed watcher has returned (which watcher, and what the system answered, is
  open), a second has passed, or a signal has come. The index counts the ticks that have passed.
\<close>

inductive reach :: "conf_t \<Rightarrow> os \<Rightarrow> 16 word list \<Rightarrow> nat \<Rightarrow> world \<Rightarrow> bool" for conf e rs where
  start: "s0 = world_zero e rs \<or> daemonize pidfile logfile (world_zero e rs) = Inr (True, s0) \<Longrightarrow>
    sans_init conf s0 = Inr s \<Longrightarrow> start_watching s = Inr s' \<Longrightarrow> reach conf e rs 0 s'"
| event: "reach conf e rs t s \<Longrightarrow> w \<in> set (watching (wlist s)) \<Longrightarrow> dispatch w s = Inr s' \<Longrightarrow> reach conf e rs t s'"
| tick: "reach conf e rs t s \<Longrightarrow> tick_cb s = Inr s' \<Longrightarrow> reach conf e rs (Suc t) s'"
| stop: "reach conf e rs t s \<Longrightarrow> reach conf e rs t (sans_stop s)"

text \<open>Every tick uses up one of those the table of verdicts is good for, until none is left.\<close>

lemma reach_winv: "reach conf e rs t s \<Longrightarrow> winv e (TTL - 1 - t) {#} s"
proof (induction rule: reach.induct)
  case (start s0 pidfile logfile s s')
  have s0: "fresh s0" "sys s0 = e"
    using start(1) fresh_zero [of e rs] daemonize_fresh [of "world_zero e rs" pidfile logfile] by auto
  have s: "fresh s" "sys s = e" using fresh_init [OF start(2) s0(1)] s0(2) by simp_all
  have "outcome stops (winv (sys s) (TTL - 1) {#}) (start_watching s)" by (rule start_watching_inv [OF s(1)]) simp
  then show ?case using start(3) s(2) by simp
next
  case (event t s w s')
  then show ?case using dispatch_inv [of e "TTL - 1 - t" "{#}" s w] by simp
next
  case (tick t s s')
  then show ?case using tick_cb_inv [of e "TTL - 1 - t" "{#}" s] by (auto split: if_splits)
next
  case (stop t s)
  then show ?case by (simp add: sans_stop_def ev_stop_def)
qed

lemma mset_set_distinct:
  assumes "mset xs = mset_set A" "finite A"
  shows "distinct xs" "set xs = A"
proof -
  show set: "set xs = A" using assms by (metis finite_set_mset_mset_set set_mset_mset)
  have "count (mset xs) x = (if x \<in> set xs then 1 else 0)" for x
    unfolding assms(1) set using assms(2) by simp
  then show "distinct xs" by (simp add: distinct_count_atmost_1)
qed

lemma winv_watchers:
  assumes "winv env k {#} s"
  shows "distinct (map fst (watching (wlist s)))" "fst ` set (watching (wlist s)) = dom (objs s)"
proof -
  have "mset (map fst (watching (wlist s))) = mset_set (dom (objs s))" using assms by (simp add: winv_def)
  from mset_set_distinct [OF this winvD(4) [OF assms]]
  show "distinct (map fst (watching (wlist s)))" "fst ` set (watching (wlist s)) = dom (objs s)" by simp_all
qed

section \<open>A sample run\<close>

text \<open>
  A system in which every name resolves to the same address, every socket call returns a new number,
  \<open>bind\<close> and \<open>listen\<close> succeed, and no datagram comes.
\<close>

definition sample_os :: os where
  "sample_os = quiet\<lparr>os_ret := (\<lambda>i. if i \<in> {4, 8, 9} then 0 else int i + 3),
     os_resolve := (\<lambda>i host port. Some \<lparr>sa_family = AF_INET, sa_port = [0, 53], sa_addr = [127, 0, 0, 1]\<rparr>)\<rparr>"

lemma sample_init:
  "\<exists>s. sans_init conf (world_zero sample_os rs) = Inr s \<and> 0 < sock_udp (cfg s) \<and> 0 < sock_tcp (cfg s) \<and> 0 < sock_test (cfg s)
     \<and> 0 < sock_cn (cfg s) \<and> 0 < sock_server (cfg s)"
  by (cases "hd (addr (cf_socks5 conf)) = 0")
    (simp_all add: sans_init_def getaddr_def open_socket_def must_do_def sys_ret_def init_socks5_def socks5_init_def ev_init_def
      setnonblock_def setreuseaddr_def runas_def emit_def world_zero_def sample_os_def quiet_def Let_def)

section \<open>The five watchers\<close>

lemma start_loop_fill: "start_loop (map Some ws @ replicate (Suc n) None) w = Some (map Some (ws @ [w]) @ replicate n None)"
  by (induction ws) auto

lemma watching_filled [simp]: "watching (map Some ws @ replicate n None) = ws"
  by (induction ws) (auto simp del: replicate.simps)

text \<open>A UDP socket gets its watcher: a new context, in the first free slot of the list.\<close>

lemma recv_start_udp:
  assumes "wlist s = map Some ws @ replicate (Suc n) None" "sock > 0" "os_mem (sys s) (calls s)"
  shows "\<exists>s'. recv_start udp_fn tcp_fn sock ns_udp cb s = Inr s' \<and> waits s' (brk s, F_w) sock udp_fn cb
    \<and> wlist s' = map Some (ws @ [(brk s, F_w)]) @ replicate n None \<and> brk s' = brk s + 1 \<and> kept s s'
    \<and> (\<forall>w. fst w < brk s \<longrightarrow> ios s' w = ios s w \<and> waits s' w = waits s w)"
  using assms(2,3) start_loop_fill [of ws n "(brk s, F_w)"]
  by (auto simp: recv_start_def malloc_obj_def malloc_at_def malloc_ok_def ev_io_init_def ev_io_start_def assms(1)
      waits_def kept_def fun_eq_iff simp del: replicate.simps replicate_Suc map_append)

lemma start_watching_ok:
  assumes "fresh s" "0 < sock_tcp (cfg s)" "0 < sock_udp (cfg s)" "0 < sock_test (cfg s)" "0 < sock_cn (cfg s)" "0 < sock_server (cfg s)"
    "\<forall>i. os_mem (sys s) i"
  shows "\<exists>s'. start_watching s = Inr s' \<and> kept s s' \<and> watching (wlist s') = map (\<lambda>i. (brk s + i, F_w)) [0, 1, 2, 3, 4]
    \<and> ios s' (brk s, F_w) = Some \<lparr>ev_fd = sock_tcp (cfg s), ev_event = EV_READ, ev_cb = Accept_cb\<rparr>
    \<and> waits s' (brk s + 1, F_w) (sock_udp (cfg s)) Query_udp_recv_cb Query_cb
    \<and> waits s' (brk s + 2, F_w) (sock_test (cfg s)) Reply_udp_recv_cb Test_cb
    \<and> waits s' (brk s + 3, F_w) (sock_cn (cfg s)) Reply_udp_recv_cb Reply_cb
    \<and> waits s' (brk s + 4, F_w) (sock_server (cfg s)) Reply_udp_recv_cb Reply_cb"
proof -
  let ?w = "\<lambda>i. (brk s + i, F_w)"
  define s1 where "s1 = s\<lparr>brk := brk s + 1, objs := (objs s)(brk s \<mapsto> W_tcp),
    ios := (ios s)(?w 0 \<mapsto> \<lparr>ev_fd = sock_tcp (cfg s), ev_event = EV_READ, ev_cb = Accept_cb\<rparr>),
    wlist := map Some [?w 0] @ replicate 127 None, changed := True\<rparr>"
  have wl: "wlist s = map Some [] @ replicate (Suc 127) None"
    using assms(1) by (simp add: fresh_def del: replicate.simps replicate_Suc)
  have "start_loop (wlist s) (?w 0) = Some (map Some [?w 0] @ replicate 127 None)"
    using start_loop_fill [of "[]" 127 "?w 0"] unfolding wl by (simp del: replicate.simps replicate_Suc)
  then have first: "start_watching s =
      bindE (query_recv (sock_udp (cfg s)) ns_udp Query_cb s1) (\<lambda>s3.
      bindE (reply_recv (sock_test (cfg s)) ns_udp Test_cb s3) (\<lambda>s4.
      bindE (reply_recv (sock_cn (cfg s)) ns_udp Reply_cb s4) (\<lambda>s5.
        reply_recv (sock_server (cfg s)) ns_udp Reply_cb s5)))"
    using assms(2) by (simp add: start_watching_def ev_io_init_def ev_io_start_def s1_def Let_def del: replicate.simps replicate_Suc)
  have s1: "wlist s1 = map Some [?w 0] @ replicate (Suc 126) None" "brk s1 = brk s + 1" "kept s s1"
    "ios s1 (?w 0) = Some \<lparr>ev_fd = sock_tcp (cfg s), ev_event = EV_READ, ev_cb = Accept_cb\<rparr>"
    by (simp_all add: s1_def kept_def del: replicate.simps)
  obtain s2 where s2: "query_recv (sock_udp (cfg s)) ns_udp Query_cb s1 = Inr s2" "kept s1 s2" "brk s2 = brk s + 2"
    "wlist s2 = map Some [?w 0, ?w 1] @ replicate (Suc 125) None" "waits s2 (?w 1) (sock_udp (cfg s)) Query_udp_recv_cb Query_cb"
    "ios s2 (?w 0) = ios s1 (?w 0)"
    using recv_start_udp [OF s1(1) assms(3), of Query_udp_recv_cb Query_tcp_recv_cb Query_cb] s1(2,3) assms(7)
    by (auto simp: query_recv_def kept_def simp del: replicate.simps replicate_Suc)
  obtain s3 where s3: "reply_recv (sock_test (cfg s)) ns_udp Test_cb s2 = Inr s3" "kept s2 s3" "brk s3 = brk s + 3"
    "wlist s3 = map Some [?w 0, ?w 1, ?w 2] @ replicate (Suc 124) None" "waits s3 (?w 2) (sock_test (cfg s)) Reply_udp_recv_cb Test_cb"
    "ios s3 (?w 0) = ios s2 (?w 0)" "waits s3 (?w 1) = waits s2 (?w 1)"
    using recv_start_udp [OF s2(4) assms(4), of Reply_udp_recv_cb Reply_tcp_recv_cb Test_cb] s1(3) s2(2,3) assms(7)
    by (auto simp: reply_recv_def kept_def simp del: replicate.simps replicate_Suc)
  obtain s4 where s4: "reply_recv (sock_cn (cfg s)) ns_udp Reply_cb s3 = Inr s4" "kept s3 s4" "brk s4 = brk s + 4"
    "wlist s4 = map Some [?w 0, ?w 1, ?w 2, ?w 3] @ replicate (Suc 123) None" "waits s4 (?w 3) (sock_cn (cfg s)) Reply_udp_recv_cb Reply_cb"
    "ios s4 (?w 0) = ios s3 (?w 0)" "waits s4 (?w 1) = waits s3 (?w 1)" "waits s4 (?w 2) = waits s3 (?w 2)"
    using recv_start_udp [OF s3(4) assms(5), of Reply_udp_recv_cb Reply_tcp_recv_cb Reply_cb] s1(3) s2(2) s3(2,3) assms(7)
    by (auto simp: reply_recv_def kept_def simp del: replicate.simps replicate_Suc)
  obtain s5 where s5: "reply_recv (sock_server (cfg s)) ns_udp Reply_cb s4 = Inr s5" "kept s4 s5"
    "wlist s5 = map Some [?w 0, ?w 1, ?w 2, ?w 3, ?w 4] @ replicate 123 None" "waits s5 (?w 4) (sock_server (cfg s)) Reply_udp_recv_cb Reply_cb"
    "ios s5 (?w 0) = ios s4 (?w 0)" "waits s5 (?w 1) = waits s4 (?w 1)" "waits s5 (?w 2) = waits s4 (?w 2)" "waits s5 (?w 3) = waits s4 (?w 3)"
    using recv_start_udp [OF s4(4) assms(6), of Reply_udp_recv_cb Reply_tcp_recv_cb Reply_cb] s1(3) s2(2) s3(2) s4(2,3) assms(7)
    by (auto simp: reply_recv_def kept_def simp del: replicate.simps replicate_Suc)
  have "start_watching s = Inr s5" using first s2(1) s3(1) s4(1) s5(1) by simp
  moreover have "kept s s5" using s1(3) s2(2) s3(2) s4(2) s5(2) by (simp add: kept_def)
  moreover have "watching (wlist s5) = [?w 0, ?w 1, ?w 2, ?w 3, ?w 4]" unfolding s5(3) by (rule watching_filled)
  moreover have "ios s5 (?w 0) = Some \<lparr>ev_fd = sock_tcp (cfg s), ev_event = EV_READ, ev_cb = Accept_cb\<rparr>"
    using s1(4) s2(6) s3(6) s4(6) s5(5) by simp
  ultimately show ?thesis
    using s2(5) s3(5,7) s4(5,7,8) s5(4,6-8) by (intro exI [of _ s5]) simp
qed

text \<open>The sample system's program waits at its five sockets.\<close>

lemma sample_start:
  "\<exists>s s'. sans_init conf (world_zero sample_os rs) = Inr s \<and> start_watching s = Inr s' \<and> watchers_ok s' \<and> watching (wlist s') \<noteq> [] \<and> tv s' = 0"
proof -
  obtain s where s: "sans_init conf (world_zero sample_os rs) = Inr s" "0 < sock_udp (cfg s)" "0 < sock_tcp (cfg s)"
    "0 < sock_test (cfg s)" "0 < sock_cn (cfg s)" "0 < sock_server (cfg s)" using sample_init by blast
  note f = fresh_init [OF s(1) fresh_zero(1)]
  have "\<forall>i. os_mem (sys s) i" using f(3) by (simp add: world_zero_def sample_os_def quiet_def)
  then obtain s' where s': "start_watching s = Inr s'" "watching (wlist s') \<noteq> []" using start_watching_ok [OF f(1)] s by auto
  then have "winv (sys s) 0 {#} s'" using start_watching_inv [OF f(1), of 0] by simp
  moreover have "tv s' = 0"
    using start_watching_tv [OF s'(1)] f(4) by (simp add: world_zero_def sample_os_def quiet_def)
  ultimately show ?thesis using s(1) s' winvD(2) by blast
qed

text \<open>One round of it, in which nothing is ready.\<close>

lemma sample_run:
  "\<exists>s s2. sans_init conf (world_zero sample_os rs) = Inr s \<and> sans_run [(\<lambda>r w. (0, {}, {}), 0, signal)] s = Inr s2"
proof -
  obtain s s' where s: "sans_init conf (world_zero sample_os rs) = Inr s" "start_watching s = Inr s'" "watchers_ok s'" "tv s' = 0"
    using sample_start by blast
  have "poll_sets (ios s') (wlist s') {} {} = Inr (fds_of (ios s') (wlist s') EV_READ, fds_of (ios s') (wlist s') EV_WRITE)"
    using s(3) poll_sets_eq [of "wlist s'" "ios s'" "{}" "{}"] by (simp add: watchers_ok_def)
  then have "\<exists>s2. sans_run [(\<lambda>r w. (0, {}, {}), 0, signal)] s = Inr s2"
    using s(2,4) by (simp add: sans_run_def ev_run_def ev_poll_def)
  then show ?thesis using s(1) by blast
qed

section \<open>Properties\<close>

text \<open>
  C11. After \<open>sans_init\<close> the settings are those of the configuration: the flags are copied, each server
  has an address its name resolves to, the SOCKS5 proxy is used only if one is configured and resolves,
  and the sockets are there. To the outside the program has bound the two sockets it listens at, in
  this order, and after that, if a user is configured, has changed its group and then its user to those
  of that user; if the system knows no such user it keeps the rights it had.
\<close>

theorem sans_init_ok:
  assumes "sans_init conf s = Inr s'"
  shows "run s' \<and> verbose (cfg s') = cf_verbose conf \<and> nspresolver (cfg s') = cf_nspresolver conf
    \<and> resolved (sys s) (cf_test_server conf) (test_server (cfg s')) \<and> resolved (sys s) (cf_cn_server conf) (cn_server (cfg s'))
    \<and> resolved (sys s) (cf_server conf) (server (cfg s'))
    \<and> (socks5 (cfg s') \<longrightarrow> hd (addr (cf_socks5 conf)) \<noteq> 0 \<and> resolved (sys s) (cf_socks5 conf) (socks5_server (cfg s')))
    \<and> 0 \<le> sock_test (cfg s') \<and> 0 \<le> sock_cn (cfg s') \<and> 0 \<le> sock_server (cfg s')
    \<and> (\<exists>a1 a2 xs. resolved (sys s) (cf_listen conf) a1 \<and> resolved (sys s) (cf_listen conf) a2 \<and> trace s' = trace s
         @ [Bind (sock_udp (cfg s')) a1, Bind (sock_tcp (cfg s')) a2, Listen (sock_tcp (cfg s'))] @ xs
         \<and> (if hd (cf_user conf) = 0 then xs = [] else dropped (sys s) (str (cf_user conf)) xs))"
  using assms by (rule sans_init_Inr) auto

lemma sans_init_ok_witness: "\<exists>s. sans_init conf_zero (world_zero sample_os []) = Inr s \<and> run s \<and> \<not> verbose (cfg s)
    \<and> length (trace s) = 3"
proof -
  obtain s where s: "sans_init conf_zero (world_zero sample_os []) = Inr s" using sample_init by blast
  have z: "hd (cf_user conf_zero) = 0" "\<not> cf_verbose conf_zero" "trace (world_zero sample_os []) = []"
    by (simp_all add: conf_zero_def Let_def world_zero_def)
  show ?thesis using sans_init_ok [OF s] s z by auto
qed

text \<open>
  C12. When the sockets are there and memory too, \<open>sans_run\<close> waits at five sockets before it enters the
  event loop: at the TCP socket for clients that connect, and at the UDP sockets for the queries of
  clients, for the replies of the test server, and for the replies of the other two servers.
\<close>

theorem sans_started:
  assumes "sans_init conf (world_zero e rs) = Inr s" "\<forall>i. os_mem e i"
    "0 < sock_tcp (cfg s)" "0 < sock_udp (cfg s)" "0 < sock_test (cfg s)" "0 < sock_cn (cfg s)" "0 < sock_server (cfg s)"
  shows "\<exists>s' w. start_watching s = Inr s' \<and> watching (wlist s') = map (\<lambda>i. (w + i, F_w)) [0, 1, 2, 3, 4]
    \<and> ios s' (w, F_w) = Some \<lparr>ev_fd = sock_tcp (cfg s), ev_event = EV_READ, ev_cb = Accept_cb\<rparr>
    \<and> waits s' (w + 1, F_w) (sock_udp (cfg s)) Query_udp_recv_cb Query_cb
    \<and> waits s' (w + 2, F_w) (sock_test (cfg s)) Reply_udp_recv_cb Test_cb
    \<and> waits s' (w + 3, F_w) (sock_cn (cfg s)) Reply_udp_recv_cb Reply_cb
    \<and> waits s' (w + 4, F_w) (sock_server (cfg s)) Reply_udp_recv_cb Reply_cb"
proof -
  note f = fresh_init [OF assms(1) fresh_zero(1)]
  have "\<forall>i. os_mem (sys s) i" using f(3) assms(2) by (simp add: world_zero_def)
  from start_watching_ok [OF f(1) assms(3-7) this] show ?thesis by blast
qed

lemma sans_started_witness:
  "\<exists>s s'. sans_init conf_zero (world_zero sample_os []) = Inr s \<and> start_watching s = Inr s' \<and> length (watching (wlist s')) = 5"
proof -
  obtain s where s: "sans_init conf_zero (world_zero sample_os []) = Inr s" "0 < sock_udp (cfg s)" "0 < sock_tcp (cfg s)"
    "0 < sock_test (cfg s)" "0 < sock_cn (cfg s)" "0 < sock_server (cfg s)" using sample_init by blast
  have "\<forall>i. os_mem sample_os i" by (simp add: sample_os_def quiet_def)
  from sans_started [OF s(1) this s(3,2,4-6)] s(1) show ?thesis by auto
qed

text \<open>
  C5. What holds in every state the program can reach between two callbacks, after any number of ticks and
  with any answers of the system. No dangling pointer and no leak: every listed watcher is allocated and
  waits on a descriptor, every context is the context of exactly one listed watcher, no two pending queries
  have the same id and none has the id 0. Whichever watcher is called next, its callback does not use freed
  memory, and it accesses memory outside an object only if a receive it makes fills the whole packet buffer
  (the parser then reads the byte behind it). The timeout callback never accesses memory outside an object;
  it uses freed memory exactly if a verdict has one tick left, which is not before tick 518400.
\<close>

theorem reachable_states:
  assumes "reach conf e rs t s"
  shows "distinct (map fst (watching (wlist s))) \<and> fst ` set (watching (wlist s)) = dom (objs s)
    \<and> (\<forall>w \<in> set (watching (wlist s)). \<exists>io. ios s w = Some io \<and> 0 < ev_fd io)
    \<and> distinct (map q_id (pending (queries s))) \<and> 0 \<notin> ids (queries s)
    \<and> (\<forall>w \<in> set (watching (wlist s)). dispatch w s \<noteq> Inl Uaf
         \<and> (dispatch w s = Inl Oob \<longrightarrow> fills e (calls s) \<or> fills e (calls s + 1)))
    \<and> tick_cb s \<noteq> Inl Oob \<and> (tick_cb s = Inl Uaf \<longleftrightarrow> verdict_ends (htab s)) \<and> (verdict_ends (htab s) \<longrightarrow> 518400 \<le> t + 1)"
proof -
  have inv: "winv e (TTL - 1 - t) {#} s" by (rule reach_winv [OF assms])
  have tables: "ids_ok (queries s)" "sys s = e" "ttl_ok (TTL - 1 - t) (htab s)" using winvD(1) [OF inv] by (simp_all add: tables_ok_def)
  have "\<exists>io. ios s w = Some io \<and> 0 < ev_fd io" if "w \<in> set (watching (wlist s))" for w
    using winvD(3) [OF inv that] by (auto simp: watch_ok_def split: option.splits)
  moreover have "dispatch w s \<noteq> Inl Uaf \<and> (dispatch w s = Inl Oob \<longrightarrow> fills e (calls s) \<or> fills e (calls s + 1))"
    if "w \<in> set (watching (wlist s))" for w
    using dispatch_inv [OF inv that] tables(2) by (cases "dispatch w s") auto
  moreover have "tick_cb s \<noteq> Inl Oob" "tick_cb s = Inl Uaf \<longleftrightarrow> verdict_ends (htab s)"
    using tick_cb_inv [OF inv] by (auto split: if_splits)
  moreover have "518400 \<le> t + 1" if "verdict_ends (htab s)"
  proof (rule ccontr)
    assume "\<not> 518400 \<le> t + 1"
    then have "TTL - 1 - t = Suc (TTL - 2 - t)" by simp
    then show False using ttl_ok_lasts [of "TTL - 2 - t" "htab s"] tables(3) that by simp
  qed
  ultimately show ?thesis using winv_watchers [OF inv] tables(1) by (simp add: ids_ok_def)
qed

lemma reachable_states_witness:
  "\<exists>s. reach conf_zero sample_os [] 0 s \<and> watching (wlist s) \<noteq> [] \<and> fst ` set (watching (wlist s)) = dom (objs s)
    \<and> (\<forall>w \<in> set (watching (wlist s)). dispatch w s \<noteq> Inl Oob) \<and> tick_cb s \<noteq> Inl Uaf"
proof -
  obtain s s' where s: "sans_init conf_zero (world_zero sample_os []) = Inr s" "start_watching s = Inr s'" "watching (wlist s') \<noteq> []"
    using sample_start by blast
  have "reach conf_zero sample_os [] 0 s'" by (rule reach.start [OF _ s(1,2)]) simp
  moreover have "\<not> fills sample_os n" for n by (simp add: fills_def sample_os_def quiet_def)
  ultimately show ?thesis using reachable_states [of conf_zero sample_os "[]" 0 s'] s(3) by auto
qed

text \<open>
  C16. Bounded resources: between any two callbacks, whatever the clients, the servers and the system do and
  however long the program runs, it has exactly one context for each listed watcher, and never more than 128
  contexts and 128 pending queries. (Inside a callback there may be contexts that are not listed yet.)
\<close>

theorem resources_bounded:
  assumes "reach conf e rs t s"
  shows "card (dom (objs s)) = length (watching (wlist s)) \<and> card (dom (objs s)) \<le> 128 \<and> length (pending (queries s)) \<le> 128"
proof -
  have inv: "winv e (TTL - 1 - t) {#} s" by (rule reach_winv [OF assms])
  have "card (dom (objs s)) = length (watching (wlist s))"
    using winv_watchers [OF inv] distinct_card [of "map fst (watching (wlist s))"] by simp
  moreover have "length (wlist s) = WLIST_SIZE" "length (queries s) = QLIST_SIZE"
    using inv winvD(1) [OF inv] by (simp_all add: winv_def tables_ok_def)
  ultimately show ?thesis using length_watching [of "wlist s"] length_pending [of "queries s"] by simp
qed

lemma resources_bounded_witness: "\<exists>s. reach conf_zero sample_os [] 0 s \<and> 0 < card (dom (objs s)) \<and> card (dom (objs s)) \<le> 128"
proof -
  obtain s s' where s: "sans_init conf_zero (world_zero sample_os []) = Inr s" "start_watching s = Inr s'" "watching (wlist s') \<noteq> []"
    using sample_start by blast
  have "reach conf_zero sample_os [] 0 s'" by (rule reach.start [OF _ s(1,2)]) simp
  with resources_bounded [OF this] s(3) show ?thesis by auto
qed



text \<open>
  C13. A signal ends the program: after the round in which it comes no callback is called any more, and
  when \<open>sans_run\<close> returns, \<open>run\<close> is cleared and the last thing it has done is to close its five sockets.
\<close>

theorem sans_run_stops:
  assumes "snd (snd r)"
  shows "sans_run (rounds @ r # later) s = sans_run (rounds @ [r]) s
    \<and> (case sans_run (rounds @ [r]) s of Inl e \<Rightarrow> True | Inr s' \<Rightarrow> \<not> run s' \<and> (\<exists>t. trace s' = t
         @ [Close (sock_tcp (cfg s)), Close (sock_udp (cfg s)), Close (sock_test (cfg s)), Close (sock_cn (cfg s)), Close (sock_server (cfg s))]))"
proof -
  have same: "sans_run (rounds @ r # later) s = sans_run (rounds @ [r]) s"
    by (simp only: sans_run_def ev_run_def run_loop_rest [where later = later, OF assms])
  show ?thesis
  proof (cases "sans_run (rounds @ [r]) s")
    case (Inr s')
    then obtain s1 s2 where s2: "ev_run dispatch tick_cb (rounds @ [r]) s1 = Inr s2" "s' = (if run s2 then s2 else close_all (cfg s) s2)"
      by (auto simp: sans_run_def bindE_Inr_iff)
    have "\<not> run s2" by (rule run_loop_signal [OF s2(1) [unfolded ev_run_def]]) (use assms in simp)
    then show ?thesis using same Inr s2(2) by (simp add: close_all_def emit_def)
  qed (simp add: same)
qed

lemma sans_run_stops_witness:
  "\<exists>s s'. sans_init conf_zero (world_zero sample_os []) = Inr s
    \<and> sans_run ([] @ (\<lambda>r w. (0, {}, {}), 0, True) # [(\<lambda>r w. (1, r, w), 5, False)]) s = Inr s' \<and> \<not> run s'"
proof -
  obtain s s2 where s: "sans_init conf_zero (world_zero sample_os []) = Inr s" "sans_run [(\<lambda>r w. (0, {}, {}), 0, True)] s = Inr s2"
    using sample_run by blast
  then show ?thesis
    using sans_run_stops [of "(\<lambda>r w. (0, {}, {}), 0, True)" "[]" "[(\<lambda>r w. (1, r, w), 5, False)]" s] by auto
qed

end
