(* ===== verification/Answers.thy ===== *)
theory Answers
  imports Start
begin

text \<open>
  The forwarder towards its clients, over a whole run: every datagram it sends from the socket it
  listens at answers a query that was received there. The account is kept by labels: a query that
  arrives owes its sender an answer, and an answer pays for a pending query.
\<close>

section \<open>The account\<close>

text \<open>
  A label says what is to be compared of a query and of an answer: \<open>of_query\<close> is applied to the client's
  id and address, \<open>of_data\<close> to the bytes of a datagram and the address it goes to.
\<close>

definition answer_label :: "(byte list \<Rightarrow> sockaddr \<Rightarrow> 'l option) \<Rightarrow> int \<Rightarrow> effect \<Rightarrow> 'l option" where
  "answer_label of_data u e = (case e of Sendto fd data peer \<Rightarrow> if fd = u then of_data data peer else None | _ \<Rightarrow> None)"

definition answers :: "(byte list \<Rightarrow> sockaddr \<Rightarrow> 'l option) \<Rightarrow> int \<Rightarrow> world \<Rightarrow> 'l multiset" where
  "answers of_data u s = mset (List.map_filter (answer_label of_data u) (trace s))"

text \<open>The pending queries that came in as datagrams at the socket \<open>u\<close>.\<close>

definition owed :: "(16 word \<Rightarrow> sockaddr \<Rightarrow> 'l) \<Rightarrow> int \<Rightarrow> qlist \<Rightarrow> 'l multiset" where
  "owed of_query u ql = image_mset (\<lambda>q. of_query (q_qid q) (q_addr q))
     (filter_mset (\<lambda>q. q_sock q = u \<and> q_protocol q = ns_udp) (mset (pending ql)))"

text \<open>
  The query that the call of a watcher receives at the socket \<open>u\<close>, as a multiset: its id and its sender,
  when there is a datagram and it is a query. (The number of the call of \<open>recvfrom\<close> is that after the
  one of \<open>malloc\<close>.)
\<close>

definition asks :: "int \<Rightarrow> wptr \<Rightarrow> world \<Rightarrow> (16 word \<times> sockaddr) multiset" where
  "asks u w s = (case (ios s w, map_option (take NS_PACKETSZ) (os_recv (sys s) (calls s + 1))) of
      (Some io, Some data) \<Rightarrow>
        if ev_cb io = Query_udp_recv_cb \<and> ev_fd io = u \<and> data \<noteq> [] then
          (case (ns_parse_query (data @ drop (length data) (junk NS_PACKETSZ s)) (length data), ns_getid data) of
             (Inr _, Inr x) \<Rightarrow> {#(x, fst (os_from (sys s) (calls s + 1)))#}
           | _ \<Rightarrow> {#})
        else {#}
    | _ \<Rightarrow> {#})"

text \<open>The socket \<open>u\<close> is none of those on which the program asks its servers.\<close>

definition listens :: "int \<Rightarrow> settings \<Rightarrow> bool" where
  "listens u c \<longleftrightarrow> u \<noteq> sock_test c \<and> u \<noteq> sock_cn c \<and> u \<noteq> sock_server c"

text \<open>The steps that leave the account alone: no datagram is sent, and the queries stay.\<close>

fun is_datagram :: "effect \<Rightarrow> bool" where
  "is_datagram (Sendto fd data peer) = True"
| "is_datagram e = False"

definition datagrams :: "world \<Rightarrow> effect list" where
  "datagrams s = filter is_datagram (trace s)"

definition silent :: "world \<Rightarrow> world \<Rightarrow> bool" where
  "silent s s' \<longleftrightarrow> queries s' = queries s \<and> cfg s' = cfg s \<and> datagrams s' = datagrams s"

lemma silent_refl [simp]: "silent s s"
  by (simp add: silent_def)

lemma silent_trans: "silent s s' \<Longrightarrow> silent s' s'' \<Longrightarrow> silent s s''"
  by (simp add: silent_def)

lemma silent_updates [simp]:
  "silent s (s'\<lparr>calls := n\<rparr>) = silent s s'" "silent s (s'\<lparr>rnds := r\<rparr>) = silent s s'" "silent s (s'\<lparr>brk := n\<rparr>) = silent s s'"
  "silent s (s'\<lparr>objs := ob\<rparr>) = silent s s'" "silent s (s'\<lparr>ios := io\<rparr>) = silent s s'" "silent s (s'\<lparr>wlist := wl\<rparr>) = silent s s'"
  "silent s (s'\<lparr>changed := b\<rparr>) = silent s s'" "silent s (s'\<lparr>run := b\<rparr>) = silent s s'" "silent s (s'\<lparr>tv := now\<rparr>) = silent s s'"
  "silent s (s'\<lparr>htab := c\<rparr>) = silent s s'" "silent s (set_obj w x s') = silent s s'"
  by (simp_all add: silent_def datagrams_def set_obj_def)

lemma silent_emit [simp]:
  "silent s (emit (Send fd data n) s') = silent s s'" "silent s (emit (Connect fd peer) s') = silent s s'"
  "silent s (emit (Close fd) s') = silent s s'"
  by (simp_all add: silent_def datagrams_def emit_def)

text \<open>The primitive operations are such steps.\<close>

lemma silent_primitives:
  "sys_ret s = (r, s') \<Longrightarrow> silent s s'" "sys_recv n s = (d, s') \<Longrightarrow> silent s s'" "sys_send fd data s = (r, s') \<Longrightarrow> silent s s'"
  "malloc_ok s = (ok, s') \<Longrightarrow> silent s s'" "malloc_at s = (a, s') \<Longrightarrow> silent s s'" "malloc_obj x s = (a, s') \<Longrightarrow> silent s s'"
  "malloc_buf n s = (b, s') \<Longrightarrow> silent s s'" "getsockerror s = (e, s') \<Longrightarrow> silent s s'"
  by (auto simp: sys_ret_def sys_recv_def sys_send_def malloc_ok_def malloc_at_def malloc_obj_def malloc_buf_def getsockerror_def
      Let_def split: if_splits prod.splits option.splits)

lemma silent_calls [simp]: "silent s (stream_options s') = silent s s'"
  by (subst option_calls) simp

lemma silent_loop [simp]:
  "outcome UNIV (silent s) (ev_io_init s' w fn fd event) \<longleftrightarrow> \<not> fd > 0 \<or> silent s s'"
  "outcome UNIV (silent s) (ev_io_start s' w) \<longleftrightarrow> start_loop (wlist s') w = None \<or> silent s s'"
  "outcome UNIV (silent s) (ev_io_stop s' w) \<longleftrightarrow> stop_loop (wlist s') w = None \<or> silent s s'"
  "outcome UNIV (silent s) (free_obj a s') \<longleftrightarrow> objs s' a = None \<or> silent s s'"
  by (auto simp: ev_io_init_def ev_io_start_def ev_io_stop_def free_obj_def split: option.splits)

lemmas silent_defs = malloc_obj_def malloc_at_def malloc_ok_def malloc_buf_def sys_ret_def sys_recv_def sys_send_def
  ev_io_init_def ev_io_start_def ev_io_stop_def free_obj_def

section \<open>The layers\<close>

lemma recv_start_silent: "silent s0 s \<Longrightarrow> outcome UNIV (silent s0) (recv_start udp_fn tcp_fn sock protocol cb s)"
  by (auto simp: recv_start_def silent_defs Let_def split: option.split)

lemma send_start_silent:
  "silent s0 s \<Longrightarrow> protocol \<noteq> ns_udp \<Longrightarrow> outcome UNIV (silent s0) (send_start tcp_fn sock protocol msg msglen peer s)"
  by (auto simp: send_start_def silent_defs Let_def rd_n_def split: option.split)

lemma drop_ctx_silent: "silent s0 s \<Longrightarrow> outcome UNIV (silent s0) (drop_ctx closing w fd s)"
  by (auto simp: drop_ctx_def ev_io_stop_def free_obj_def split: option.split)

lemma recv_msglen_silent: "silent s0 s \<Longrightarrow> outcome UNIV (silent s0) (recv_msglen w io ctx s)"
  by (auto simp: recv_msglen_def sys_recv_def drop_ctx_silent split: option.split list.split)

lemma tcp_send_silent: "silent s0 s \<Longrightarrow> outcome UNIV (silent s0) (tcp_send_cb closing w s)"
  by (auto simp: tcp_send_cb_def sys_send_def sys_ret_def io_of_def dnsmsg_of_def rd_n_def drop_ctx_silent Let_def
      split: option.split obj.split)

section \<open>How the account may change\<close>

text \<open>Two labellings in one: of queries, and of datagrams.\<close>

type_synonym 'l labels = "(16 word \<Rightarrow> sockaddr \<Rightarrow> 'l) \<times> (byte list \<Rightarrow> sockaddr \<Rightarrow> 'l option)"

definition balance :: "'l labels \<Rightarrow> int \<Rightarrow> world \<Rightarrow> 'l multiset" where
  "balance lab u s = answers (snd lab) u s + owed (fst lab) u (queries s)"

definition grows :: "'l labels \<Rightarrow> int \<Rightarrow> (16 word \<times> sockaddr) multiset \<Rightarrow> world \<Rightarrow> world \<Rightarrow> bool" where
  "grows lab u D s s' \<longleftrightarrow> cfg s' = cfg s \<and> (listens u (cfg s) \<longrightarrow>
     balance lab u s' \<subseteq># balance lab u s + image_mset (\<lambda>(x, a). fst lab x a) D)"

lemma answers_datagrams: "answers of_data u s = mset (List.map_filter (answer_label of_data u) (datagrams s))"
proof -
  have none: "\<not> is_datagram e \<Longrightarrow> answer_label of_data u e = None" for e
    by (cases e) (simp_all add: answer_label_def)
  have "List.map_filter (answer_label of_data u) es = List.map_filter (answer_label of_data u) (filter is_datagram es)" for es
    by (induction es) (auto simp: map_filter_simps none split: option.split)
  then show ?thesis by (simp add: answers_def datagrams_def)
qed

lemma balance_silent: "silent s s' \<Longrightarrow> balance lab u s' = balance lab u s"
  by (simp add: balance_def silent_def answers_datagrams)

lemma silent_grows: "silent s s' \<Longrightarrow> grows lab u {#} s s'"
  by (simp add: grows_def balance_silent) (simp add: silent_def)

lemma grows_refl [simp]: "grows lab u {#} s s"
  by (simp add: grows_def)

lemma grows_silent: "grows lab u D s0 s \<Longrightarrow> silent s s' \<Longrightarrow> grows lab u D s0 s'"
  by (simp add: grows_def balance_silent) (simp add: silent_def)

lemma grows_trans:
  assumes "grows lab u D s s'" "grows lab u E s' s''"
  shows "grows lab u (D + E) s s''"
proof -
  let ?f = "image_mset (\<lambda>(x, a). fst lab x a)"
  have c: "cfg s' = cfg s" "cfg s'' = cfg s" using assms by (simp_all add: grows_def)
  have "balance lab u s'' \<subseteq># balance lab u s + ?f (D + E)" if "listens u (cfg s)"
  proof -
    have "balance lab u s' + ?f E \<subseteq># (balance lab u s + ?f D) + ?f E" using assms(1) that by (simp add: grows_def)
    moreover have "balance lab u s'' \<subseteq># balance lab u s' + ?f E" using assms(2) that c(1) by (simp add: grows_def)
    ultimately show ?thesis by (simp only: image_mset_union add.assoc)
  qed
  then show ?thesis using c by (simp add: grows_def)
qed

lemma outcome_silent:
  "grows lab u D s0 s \<Longrightarrow> outcome UNIV (silent s) m \<Longrightarrow> outcome UNIV (grows lab u D s0) m"
  by (erule outcome_weaken) (auto intro: grows_silent)

text \<open>The queries of the table.\<close>

lemma owed_add:
  "query_add ql q = Some ql' \<Longrightarrow> owed f u ql' = owed f u ql
     + (if q_sock q = u \<and> q_protocol q = ns_udp then {#f (q_id q) (q_addr q)#} else {#})"
  using add_loop_Some [of ql "q\<lparr>q_ttl := 10, q_qid := q_id q\<rparr>" ql'] by (simp add: query_add_def owed_def)

lemma owed_remove:
  "i < length ql \<Longrightarrow> ql ! i = Some q \<Longrightarrow> owed f u ql = owed f u (ql[i := None])
     + (if q_sock q = u \<and> q_protocol q = ns_udp then {#f (q_qid q) (q_addr q)#} else {#})"
  using pending_update_None [of i ql q] by (simp add: owed_def)

lemma owed_set_id [simp]: "i < length ql \<Longrightarrow> owed f u (query_set_id ql i x) = owed f u ql"
proof (cases "ql ! i")
  case None
  then show ?thesis by (metis list_update_id option.map(1) query_set_id_def)
next
  case (Some q)
  assume i: "i < length ql"
  have "owed f u (query_set_id ql i x) = owed f u ((query_set_id ql i x)[i := None])
      + (if q_sock q = u \<and> q_protocol q = ns_udp then {#f (q_qid q) (q_addr q)#} else {#})"
    using i Some by (subst owed_remove [of i _ "q\<lparr>q_id := x\<rparr>"]) (simp_all add: query_set_id_def)
  then show ?thesis using owed_remove [OF i Some, of f u] by (simp add: query_set_id_def)
qed

lemma owed_delete: "owed f u (queries (delete_query x s)) \<subseteq># owed f u (queries s)"
proof (cases "query_search (queries s) x")
  case (Some i)
  then obtain q where "i < length (queries s)" "queries s ! i = Some q" by (auto simp: query_search_Some)
  then show ?thesis using Some owed_remove [of i "queries s" q f u] by (simp add: delete_query_search)
qed (simp add: delete_query_def query_delete_search)

lemma owed_tick: "owed f u (query_tick ql) \<subseteq># owed f u ql"
proof -
  have "owed f u (query_tick ql) = image_mset (\<lambda>q. f (q_qid q) (q_addr q))
      (filter_mset (\<lambda>q. q_sock q = u \<and> q_protocol q = ns_udp) (filter_mset (\<lambda>q. q_ttl q \<noteq> 1) (mset (pending ql))))"
    by (simp add: owed_def query_tick_pending filter_mset_image_mset image_mset.compositionality comp_def flip: mset_filter)
  also have "\<dots> \<subseteq># owed f u ql"
    unfolding owed_def by (intro image_mset_subseteq_mono multiset_filter_mono multiset_filter_subset)
  finally show ?thesis .
qed

lemma grows_queries:
  assumes "grows lab u D s0 s" "owed (fst lab) u ql \<subseteq># owed (fst lab) u (queries s) + image_mset (\<lambda>(x, a). fst lab x a) E"
  shows "grows lab u (D + E) s0 (s\<lparr>queries := ql\<rparr>)"
proof (rule grows_trans [OF assms(1)])
  show "grows lab u E s (s\<lparr>queries := ql\<rparr>)"
    using assms(2) by (simp add: grows_def balance_def answers_def)
qed

text \<open>Stores elsewhere, and calls that send no datagram.\<close>

lemma grows_cong: "silent s s' \<Longrightarrow> grows lab u D s0 s' = grows lab u D s0 s"
  by (simp add: grows_def balance_silent) (simp add: silent_def)

lemma grows_updates [simp]:
  "grows lab u D s0 (s\<lparr>calls := n\<rparr>) = grows lab u D s0 s" "grows lab u D s0 (s\<lparr>rnds := r\<rparr>) = grows lab u D s0 s"
  "grows lab u D s0 (s\<lparr>brk := n\<rparr>) = grows lab u D s0 s" "grows lab u D s0 (s\<lparr>objs := ob\<rparr>) = grows lab u D s0 s"
  "grows lab u D s0 (s\<lparr>ios := io\<rparr>) = grows lab u D s0 s" "grows lab u D s0 (s\<lparr>wlist := wl\<rparr>) = grows lab u D s0 s"
  "grows lab u D s0 (s\<lparr>changed := b\<rparr>) = grows lab u D s0 s" "grows lab u D s0 (s\<lparr>run := b\<rparr>) = grows lab u D s0 s"
  "grows lab u D s0 (s\<lparr>htab := c\<rparr>) = grows lab u D s0 s" "grows lab u D s0 (set_obj w x s) = grows lab u D s0 s"
  "grows lab u D s0 (emit (Send fd data k) s) = grows lab u D s0 s" "grows lab u D s0 (emit (Connect fd peer) s) = grows lab u D s0 s"
  "grows lab u D s0 (emit (Close fd) s) = grows lab u D s0 s" "grows lab u D s0 (stream_options s) = grows lab u D s0 s"
  by (rule grows_cong; simp)+

lemma grows_free: "grows lab u D s0 s \<Longrightarrow> outcome UNIV (grows lab u D s0) (free_obj a s)"
  by (simp add: free_obj_def)

section \<open>The owner of a connection\<close>

locale connect_account =
  fixes lab :: "'l labels" and u :: int
    and on_connect :: "user_fn \<Rightarrow> int \<Rightarrow> 16 word \<Rightarrow> world \<Rightarrow> world cres"
  assumes on_connect_grows: "grows lab u D s0 s \<Longrightarrow> outcome UNIV (grows lab u D s0) (on_connect fn sock data s)"
begin

lemma connect_done_grows:
  assumes "grows lab u D s0 s"
  shows "outcome UNIV (grows lab u D s0) (bindE (on_connect fn sock data s) (free_obj a))"
    "outcome UNIV (grows lab u D s0) (bindE (free_obj a s) (on_connect fn sock data))"
    "outcome UNIV (grows lab u D s0) (connect_failed on_connect a ctx fd s)"
proof -
  have called: "outcome UNIV (grows lab u D s0) (bindE (on_connect fn sock data s) (free_obj a))"
    if "grows lab u D s0 s" for s fn sock data
    by (rule outcome_bindE [OF on_connect_grows [OF that] grows_free])
  show "outcome UNIV (grows lab u D s0) (bindE (on_connect fn sock data s) (free_obj a))" by (rule called [OF assms])
  show "outcome UNIV (grows lab u D s0) (bindE (free_obj a s) (on_connect fn sock data))"
    by (rule outcome_bindE [OF grows_free [OF assms] on_connect_grows])
  show "outcome UNIV (grows lab u D s0) (connect_failed on_connect a ctx fd s)"
    unfolding connect_failed_def using assms by (intro called) simp
qed

lemma async_connect_grows:
  "grows lab u D s0 s \<Longrightarrow> outcome UNIV (grows lab u D s0) (async_connect on_connect peer cb via data s)"
  by (auto simp: async_connect_def malloc_obj_def malloc_at_def malloc_ok_def sys_ret_def ev_io_init_def ev_io_start_def Let_def
      on_connect_grows connect_done_grows split: option.split)

lemma async_cb_grows:
  assumes "grows lab u D s0 s"
  shows "outcome UNIV (grows lab u D s0) (async_connect_cb on_connect w s)"
    "outcome UNIV (grows lab u D s0) (socks5_send_cb on_connect w s)"
    "outcome UNIV (grows lab u D s0) (socks5_recv_cb on_connect w s)"
proof -
  show "outcome UNIV (grows lab u D s0) (async_connect_cb on_connect w s)"
    using assms
    by (auto simp: async_connect_cb_def io_of_def async_of_def ev_io_init_def ev_io_start_def ev_io_stop_def getsockerror_def sys_ret_def
        Let_def connect_done_grows split: option.split obj.split)
  show "outcome UNIV (grows lab u D s0) (socks5_send_cb on_connect w s)"
    using assms
    by (auto simp: socks5_send_cb_def io_of_def async_of_def ev_io_start_def ev_io_stop_def sys_send_def sys_ret_def
        Let_def connect_done_grows split: option.split obj.split)
  show "outcome UNIV (grows lab u D s0) (socks5_recv_cb on_connect w s)"
    using assms
    by (auto simp: socks5_recv_cb_def io_of_def async_of_def ev_io_start_def ev_io_stop_def sys_recv_def
        Let_def connect_done_grows split: option.split obj.split conn_state.split)
qed

end

section \<open>The callbacks of the program\<close>

lemma outcome_any: "(\<And>x. outcome UNIV P (f x)) \<Longrightarrow> outcome UNIV P (bindE m f)"
  by (cases m) simp_all

lemma grows_fewer:
  "grows lab u D s0 s \<Longrightarrow> owed (fst lab) u ql \<subseteq># owed (fst lab) u (queries s) \<Longrightarrow> grows lab u D s0 (s\<lparr>queries := ql\<rparr>)"
  using grows_queries [of lab u D s0 s ql "{#}"] by simp

lemma delete_query_grows: "grows lab u D s0 s \<Longrightarrow> grows lab u D s0 (delete_query x s)"
  using grows_fewer [of lab u D s0 s "queries (delete_query x s)"] owed_delete [of "fst lab" u x s]
  by (cases "query_delete (queries s) x") (simp_all add: delete_query_def)

lemma map_filter_snoc: "List.map_filter f (xs @ [x]) = List.map_filter f xs @ (case f x of None \<Rightarrow> [] | Some y \<Rightarrow> [y])"
  by (induction xs) (auto simp: map_filter_simps split: option.split)

lemma grows_sendto:
  assumes "grows lab u D s0 s" "listens u (cfg s) \<Longrightarrow> fd \<noteq> u"
  shows "grows lab u D s0 (emit (Sendto fd data peer) s)"
proof -
  have "grows lab u {#} s (emit (Sendto fd data peer) s)"
    using assms(2) by (auto simp: grows_def balance_def answers_def emit_def map_filter_snoc answer_label_def)
  from grows_trans [OF assms(1) this] show ?thesis by simp
qed

lemma renew_id_grows:
  assumes "grows lab u D s0 s" "query_search (queries s) x = Some i"
  shows "outcome UNIV (grows lab u D s0) (renew_id i s)"
proof -
  have "i < length (queries s)" using assms(2) by (simp add: query_search_Some)
  then have "grows lab u D s0 (s\<lparr>queries := query_set_id (queries s) i new\<rparr>)" for new
    by (intro grows_fewer [OF assms(1)]) simp
  then show ?thesis unfolding renew_id_def by (intro outcome_any) auto
qed

lemma make_query_silent: "outcome UNIV (\<lambda>(m, s'). silent s s') (make_query name type ident s)"
  by (auto simp: make_query_def rand_uint16_def Let_def split: list.split intro!: outcome_any)

lemma udp_query_grows:
  assumes "grows lab u D s0 s" "listens u (cfg s) \<Longrightarrow> sock \<noteq> u"
  shows "outcome UNIV (grows lab u D s0) (udp_query sock peer name type ident s)"
  unfolding udp_query_def
proof (rule outcome_bindE [OF make_query_silent], clarify)
  fix msg msglen s1
  assume "silent s s1"
  then have "grows lab u D s0 s1" "listens u (cfg s1) \<Longrightarrow> sock \<noteq> u"
    using assms by (auto intro: grows_silent simp: silent_def)
  then show "outcome UNIV (grows lab u D s0) (query_send sock ns_udp msg msglen peer s1)"
    by (auto simp: query_send_def send_start_def sys_ret_def rd_n_def intro: grows_sendto)
qed

lemma connect_cb_grows:
  assumes "grows lab u D s0 s"
  shows "outcome UNIV (grows lab u D s0) (connect_cb sock data s)"
proof -
  have "outcome UNIV (grows lab u D s0) (bindE (make_query name type ident s) (\<lambda>((msg, msglen), s1).
      bindE (query_send sock ns_tcp msg msglen no_addr s1) (\<lambda>s2. reply_recv sock ns_tcp Reply_cb s2)))" for name type ident
  proof (rule outcome_bindE [OF make_query_silent], clarify)
    fix msg msglen s1
    assume s1: "silent s s1"
    show "outcome UNIV (grows lab u D s0) (bindE (query_send sock ns_tcp msg msglen no_addr s1) (reply_recv sock ns_tcp Reply_cb))"
      unfolding query_send_def reply_recv_def
      by (rule outcome_silent [OF assms], rule outcome_bindE [OF send_start_silent [OF s1] recv_start_silent]) simp_all
  qed
  then show ?thesis
    using assms by (auto simp: connect_cb_def query_at_def delete_query_grows split: option.split)
qed

interpretation connecting: connect_account lab u on_connect
proof
  show "outcome UNIV (grows lab u D s0) (on_connect fn sock data s)" if "grows lab u D s0 s" for D s0 s fn sock data
    using connect_cb_grows [OF that] by (simp add: on_connect_def)
qed

lemma ask_grows:
  assumes "grows lab u D s0 s"
  shows "outcome UNIV (grows lab u D s0) (ask_server q s)" "outcome UNIV (grows lab u D s0) (ask_cn q s)"
  using connecting.async_connect_grows [OF assms] udp_query_grows [OF assms]
  by (auto simp: ask_server_def ask_cn_def listens_def)

lemma query_cb_grows:
  assumes "grows lab u D s0 s"
  shows "outcome UNIV (grows lab u D s0) (query_cb x s)"
proof (cases "query_search (queries s) x")
  case (Some i)
  have "outcome UNIV (grows lab u D s0) (bindE (query_at i s1) (\<lambda>q.
        bindE (cache_search (htab s1) (q_name q) ns_t_block) (\<lambda>verdict. case verdict of
            None \<Rightarrow> udp_query (sock_test (cfg s1)) (test_server (cfg s1)) (q_name q) ns_t_soa (q_id q) s1
          | Some item \<Rightarrow> if c_block item \<noteq> 0 then ask_server q s1 else ask_cn q s1)))"
    if "grows lab u D s0 s1" for s1
    using ask_grows [OF that] udp_query_grows [OF that] by (intro outcome_any) (auto simp: listens_def split: option.split)
  from outcome_bindE [OF renew_id_grows [OF assms Some] this] show ?thesis by (simp only: query_cb_def Some option.case)
qed (simp add: query_cb_def)

lemma insert_verdict_silent: "outcome UNIV (silent s) (insert_verdict item s)"
  by (auto simp: insert_verdict_def malloc_at_def malloc_ok_def Let_def intro!: outcome_any)

lemma outcome_attempt_any:
  "outcome UNIV P failed \<Longrightarrow> (\<And>x. outcome UNIV P (k x)) \<Longrightarrow> outcome UNIV P (attempt r failed k)"
  by (cases r) (simp_all add: attempt_def)

lemma ask_and_insert_grows:
  assumes "grows lab u D s0 s"
  shows "outcome UNIV (grows lab u D s0) (bindE (ask_server q s) (insert_verdict item))"
    "outcome UNIV (grows lab u D s0) (bindE (ask_cn q s) (insert_verdict item))"
proof -
  have v: "outcome UNIV (grows lab u D s0) (insert_verdict item s3)" if "grows lab u D s0 s3" for s3
    by (rule outcome_silent [OF that insert_verdict_silent])
  show "outcome UNIV (grows lab u D s0) (bindE (ask_server q s) (insert_verdict item))"
    "outcome UNIV (grows lab u D s0) (bindE (ask_cn q s) (insert_verdict item))"
    by (rule outcome_bindE [OF ask_grows(1) [OF assms] v], assumption, rule outcome_bindE [OF ask_grows(2) [OF assms] v])
qed

lemma test_cb_grows:
  assumes "grows lab u D s0 s"
  shows "outcome UNIV (grows lab u D s0) (test_cb msg n s)"
proof -
  have rest: "outcome UNIV (grows lab u D s0) (attempt (ns_parse_reply msg n) (Inr s1) (\<lambda>(name, type).
        let (ok, s2) = malloc_ok s1 in
        if \<not> ok then Inr s2
        else bindE (strcpy NS_NAMESZ name) (\<lambda>cname.
             bindE (query_at i s2) (\<lambda>q.
             let blocked = (type = ns_t_a) in
             bindE (if blocked then ask_server q s2 else ask_cn q s2) (\<lambda>s3.
               insert_verdict \<lparr>c_name = cname, c_ttl = 518400, c_type = ns_t_block, c_block = (if blocked then 1 else 0)\<rparr> s3)))))"
    if "grows lab u D s0 s1" for s1 i
  proof (rule outcome_attempt_any)
    fix r :: "cstr \<times> int"
    let ?s2 = "s1\<lparr>calls := calls s1 + 1\<rparr>"
    have "grows lab u D s0 ?s2" using that by simp
    note ask = ask_and_insert_grows [OF this]
    have "outcome UNIV (grows lab u D s0) (bindE (strcpy NS_NAMESZ name) (\<lambda>cname. bindE (query_at i ?s2) (\<lambda>q.
        bindE (ask_server q ?s2) (insert_verdict (item cname)))))"
      "outcome UNIV (grows lab u D s0) (bindE (strcpy NS_NAMESZ name) (\<lambda>cname. bindE (query_at i ?s2) (\<lambda>q.
        bindE (ask_cn q ?s2) (insert_verdict (item cname)))))" for name item
      by (rule outcome_any, rule outcome_any, rule ask)+
    then show "outcome UNIV (grows lab u D s0) (case r of (name, type) \<Rightarrow>
        let (ok, s2) = malloc_ok s1 in
        if \<not> ok then Inr s2
        else bindE (strcpy NS_NAMESZ name) (\<lambda>cname.
             bindE (query_at i s2) (\<lambda>q.
             let blocked = (type = ns_t_a) in
             bindE (if blocked then ask_server q s2 else ask_cn q s2) (\<lambda>s3.
               insert_verdict \<lparr>c_name = cname, c_ttl = 518400, c_type = ns_t_block, c_block = (if blocked then 1 else 0)\<rparr> s3))))"
      using that by (simp add: malloc_ok_def Let_def split_beta)
  qed (simp add: that)
  show ?thesis
    unfolding test_cb_def
  proof (intro outcome_any, split option.split, intro conjI allI impI)
    fix ident i
    assume i: "query_search (queries s) ident = Some i"
    note outcome_bindE [OF renew_id_grows [OF assms i] rest]
    then show "outcome UNIV (grows lab u D s0) (bindE (renew_id i s) (\<lambda>s1. attempt (ns_parse_reply msg n) (Inr s1) (\<lambda>(name, type).
        let (ok, s2) = malloc_ok s1 in
        if \<not> ok then Inr s2
        else bindE (strcpy NS_NAMESZ name) (\<lambda>cname.
             bindE (query_at i s2) (\<lambda>q.
             let blocked = (type = ns_t_a) in
             bindE (if blocked then ask_server q s2 else ask_cn q s2) (\<lambda>s3.
               insert_verdict \<lparr>c_name = cname, c_ttl = 518400, c_type = ns_t_block, c_block = (if blocked then 1 else 0)\<rparr> s3))))))" .
  qed (use assms in simp)
qed

lemma grows_more: "grows lab u {#} s0 s \<Longrightarrow> grows lab u D s0 s"
  using grows_queries [of lab u "{#}" s0 s "queries s" D] by simp

lemma parse_query_id:
  assumes "ns_parse_query (data @ pad) (length data) = Inr r"
  shows "ns_getid (data @ pad) = ns_getid data"
proof -
  obtain h where "ns_initparse (data @ pad) (length data) = Inr h"
    using assms by (auto simp: ns_parse_query_def bindE_Inr_iff split: if_splits)
  then have "12 \<le> length data" by (rule ns_initparse_InrE)
  then show ?thesis by (auto simp: ns_getid_def NS_GET16_def rd_def nth_append)
qed

section \<open>The owners of messages\<close>

text \<open>What the message layer needs from the functions its contexts point to.\<close>

locale message_account =
  fixes lab :: "'l labels" and u :: int
    and on_query :: "user_fn \<Rightarrow> 16 word \<Rightarrow> world \<Rightarrow> world cres"
    and on_reply :: "user_fn \<Rightarrow> byte list \<Rightarrow> nat \<Rightarrow> world \<Rightarrow> world cres"
  assumes on_query_grows: "grows lab u D s0 s \<Longrightarrow> outcome UNIV (grows lab u D s0) (on_query fn x s)"
    and on_reply_grows: "grows lab u D s0 s \<Longrightarrow> outcome UNIV (grows lab u D s0) (on_reply fn msg n s)"
begin

lemma reply_recv_grows:
  "outcome UNIV (grows lab u {#} s) (reply_udp_recv_cb on_reply w s)"
  "outcome UNIV (grows lab u {#} s) (reply_tcp_recv_cb on_reply w s)"
proof -
  show "outcome UNIV (grows lab u {#} s) (reply_udp_recv_cb on_reply w s)"
    by (auto simp: reply_udp_recv_cb_def io_of_def dnsmsg_of_def sys_recv_def Let_def on_reply_grows
        split: option.split obj.split)
  have call: "outcome UNIV (grows lab u {#} s) (bindE (on_reply fn m n s1) (free_obj a))" if "grows lab u {#} s s1" for fn m n s1 a
    by (rule outcome_bindE [OF on_reply_grows [OF that] grows_free])
  have drop: "outcome UNIV (grows lab u {#} s) (drop_ctx closing w fd s1)" "outcome UNIV (grows lab u {#} s) (recv_msglen w io ctx s1)"
    if "silent s s1" for closing fd io ctx s1
    by (rule outcome_weaken [OF drop_ctx_silent [OF that]] outcome_weaken [OF recv_msglen_silent [OF that]]; auto intro: silent_grows)+
  show "outcome UNIV (grows lab u {#} s) (reply_tcp_recv_cb on_reply w s)"
    by (auto simp: reply_tcp_recv_cb_def io_of_def dnsmsg_of_def sys_recv_def ev_io_stop_def put_at_def Let_def drop call
        split: option.split obj.split)
qed

text \<open>A query that is added to the table is accounted for.\<close>

lemma deliver_query_grows:
  assumes "grows lab u {#} s0 s" "\<And>name type. q_id (q name type) = x" "\<And>name type. q_sock (q name type) = fd"
    "\<And>name type. q_protocol (q name type) = protocol" "\<And>name type. q_addr (q name type) = a"
    "\<And>name type. ns_parse_query msg n = Inr (name, type) \<Longrightarrow> fd = u \<Longrightarrow> protocol = ns_udp \<Longrightarrow> {#(x, a)#} \<subseteq># D"
  shows "outcome UNIV (grows lab u D s0) (attempt (ns_parse_query msg n) (Inr s) (\<lambda>(name, type).
     case query_add (queries s) (q name type) of None \<Rightarrow> Inr s | Some ql \<Rightarrow> on_query fn x (s\<lparr>queries := ql\<rparr>)))"
proof -
  have more: "grows lab u D s0 s" by (rule grows_more [OF assms(1)])
  have "outcome UNIV (grows lab u D s0) (on_query fn x (s\<lparr>queries := ql\<rparr>))"
    if "ns_parse_query msg n = Inr (name, type)" "query_add (queries s) (q name type) = Some ql" for name type ql
  proof (rule on_query_grows)
    have "owed (fst lab) u ql \<subseteq># owed (fst lab) u (queries s) + image_mset (\<lambda>(x, a). fst lab x a) D"
      using assms(6) [OF that(1)] image_mset_subseteq_mono [of "{#(x, a)#}" D "\<lambda>(x, a). fst lab x a"]
      by (auto simp: owed_add [OF that(2)] assms(2-5))
    from grows_queries [OF assms(1) this] show "grows lab u D s0 (s\<lparr>queries := ql\<rparr>)" by simp
  qed
  then show ?thesis using more
    by (cases "ns_parse_query msg n") (auto simp: attempt_def split: option.split)
qed

lemma query_udp_recv_grows:
  assumes "ios s w = Some io" "ev_cb io = Query_udp_recv_cb"
  shows "outcome UNIV (grows lab u (asks u w s) s) (query_udp_recv_cb on_query w s)"
proof (cases "dnsmsg_of w s")
  case (Inr ctx)
  obtain ok s1 where ok: "malloc_ok s = (ok, s1)" by fastforce
  obtain r s2 where r: "sys_recv NS_PACKETSZ s1 = (r, s2)" by fastforce
  have s2: "silent s s1" "silent s s2"
    using silent_primitives(4) [OF ok] silent_trans [OF _ silent_primitives(2) [OF r]] by blast+
  have net: "calls s1 = calls s + 1" "sys s1 = sys s" "r = map_option (take NS_PACKETSZ) (os_recv (sys s) (calls s + 1))"
    using ok r by (auto simp: malloc_ok_def sys_recv_def)
  let ?from = "os_from (sys s1) (calls s1)" and ?pad = "\<lambda>d. drop (length d) (junk NS_PACKETSZ s)"
  have "outcome UNIV (grows lab u (asks u w s) s) (bindE (ns_getid (data @ ?pad data)) (\<lambda>ident.
      attempt (ns_parse_query (data @ ?pad data) (length data)) (Inr s2) (\<lambda>(name, type).
       case query_add (queries s2)
           \<lparr>q_id = ident, q_qid = 0, q_ttl = 0, q_sock = ev_fd io, q_protocol = ns_udp,
            q_addr = fst ?from, q_addrlen = snd ?from, q_type = type, q_name = name\<rparr> of
         None \<Rightarrow> Inr s2
       | Some ql \<Rightarrow> on_query (x_cb ctx) ident (s2\<lparr>queries := ql\<rparr>))))"
    if data: "r = Some data" "data \<noteq> []" for data
  proof (cases "ns_getid (data @ ?pad data)")
    case (Inr x)
    have "{#(x, fst ?from)#} \<subseteq># asks u w s"
      if q: "ns_parse_query (data @ ?pad data) (length data) = Inr (name, type)" "ev_fd io = u" for name type
    proof -
      have id: "ns_getid data = Inr x" using parse_query_id [OF q(1)] Inr by simp
      have "asks u w s = {#(x, fst ?from)#}"
        unfolding asks_def net(3) [symmetric] data(1) assms(1) using q id assms(2) data(2) net(1,2) by simp
      then show ?thesis by simp
    qed
    then show ?thesis
      unfolding Inr bindE_simps using silent_grows [OF s2(2)]
      by (intro deliver_query_grows [where fd = "ev_fd io" and protocol = ns_udp and a = "fst ?from"]) simp_all
  qed simp
  moreover have "grows lab u (asks u w s) s s1" "grows lab u (asks u w s) s s2"
    using s2 by (auto intro: grows_more silent_grows)
  ultimately show ?thesis
    using assms(1) Inr by (auto simp: query_udp_recv_cb_def io_of_def ok r Let_def split: option.split)
qed (use assms(1) in \<open>simp add: query_udp_recv_cb_def io_of_def\<close>)

lemma query_tcp_recv_grows:
  assumes "ios s w = Some io"
  shows "outcome UNIV (grows lab u {#} s) (query_tcp_recv_cb on_query w s)"
proof (cases "dnsmsg_of w s")
  case (Inr ctx)
  have drop: "outcome UNIV (grows lab u {#} s) (drop_ctx closing w fd s1)" "outcome UNIV (grows lab u {#} s) (recv_msglen w io ctx s1)"
    if "silent s s1" for closing fd io ctx s1
    by (rule outcome_weaken [OF drop_ctx_silent [OF that]] outcome_weaken [OF recv_msglen_silent [OF that]]; auto intro: silent_grows)+
  obtain r s1 where r: "sys_recv (NS_PACKETSZ - nat (x_offset ctx)) s = (r, s1)" by fastforce
  note s1 = silent_primitives(2) [OF r]
  have deliver: "outcome UNIV (grows lab u {#} s) (bindE (attempt (ns_parse_query m n) (Inr s4) (\<lambda>(name, type).
       case query_add (queries s4)
           \<lparr>q_id = ident, q_qid = 0, q_ttl = 0, q_sock = fd, q_protocol = ns_tcp,
            q_addr = fst from, q_addrlen = snd from, q_type = type, q_name = name\<rparr> of
         None \<Rightarrow> Inr s4
       | Some ql \<Rightarrow> on_query fn ident (s4\<lparr>queries := ql\<rparr>))) (free_obj a))"
    if "grows lab u {#} s s4" for m n s4 ident fd "from" fn a
    by (rule outcome_bindE [OF deliver_query_grows [OF that, where x = ident and fd = fd and protocol = ns_tcp and a = "fst from"] grows_free])
      simp_all
  have rest: "outcome UNIV (grows lab u {#} s) (bindE (ev_io_stop s2 w) (\<lambda>s3.
      let from = os_from (sys s3) (calls s3); (ok, s4) = malloc_ok s3 in
      if \<not> ok then free_obj (fst w) s4
      else bindE (ns_getid m) (\<lambda>ident.
        bindE (attempt (ns_parse_query m (nat (x_msglen ctx))) (Inr s4) (\<lambda>(name, type).
          case query_add (queries s4)
              \<lparr>q_id = ident, q_qid = 0, q_ttl = 0, q_sock = ev_fd io, q_protocol = ns_tcp,
               q_addr = fst from, q_addrlen = snd from, q_type = type, q_name = name\<rparr> of
            None \<Rightarrow> Inr s4
          | Some ql \<Rightarrow> on_query (x_cb ctx) ident (s4\<lparr>queries := ql\<rparr>))) (free_obj (fst w)))))"
    if "silent s s2" for s2 m
  proof (rule outcome_bindE [where Q = "silent s"])
    fix s3 assume s3: "silent s s3"
    obtain ok s4 where ok: "malloc_ok s3 = (ok, s4)" by fastforce
    have s4: "grows lab u {#} s s4" using silent_trans [OF s3 silent_primitives(4) [OF ok]] by (rule silent_grows)
    show "outcome UNIV (grows lab u {#} s) (let from = os_from (sys s3) (calls s3); (ok, s4) = malloc_ok s3 in
      if \<not> ok then free_obj (fst w) s4
      else bindE (ns_getid m) (\<lambda>ident.
        bindE (attempt (ns_parse_query m (nat (x_msglen ctx))) (Inr s4) (\<lambda>(name, type).
          case query_add (queries s4)
              \<lparr>q_id = ident, q_qid = 0, q_ttl = 0, q_sock = ev_fd io, q_protocol = ns_tcp,
               q_addr = fst from, q_addrlen = snd from, q_type = type, q_name = name\<rparr> of
            None \<Rightarrow> Inr s4
          | Some ql \<Rightarrow> on_query (x_cb ctx) ident (s4\<lparr>queries := ql\<rparr>))) (free_obj (fst w))))"
      unfolding Let_def ok prod.case
      by (cases ok; simp only: not_True_eq_False not_False_eq_True if_True if_False)
        (rule outcome_any, rule deliver [OF s4], rule grows_free [OF s4])
  qed (simp add: that)
  show ?thesis
    using assms Inr s1
    by (auto simp: query_tcp_recv_cb_def io_of_def r put_at_def drop rest [unfolded Let_def] silent_grows Let_def
        split: option.split)
qed (use assms in \<open>simp add: query_tcp_recv_cb_def io_of_def\<close>)

end

section \<open>Labels that survive the way through the program\<close>

text \<open>
  A reply that carries the client's id again must have the label of the query, or none at all.
\<close>

locale labelling =
  fixes lab :: "'l labels"
  assumes reply_label: "2 \<le> length msg \<Longrightarrow>
    snd lab (take n (mem_put msg 0 (NS_PUT16 (uint x)))) peer \<in> {None, Some (fst lab x peer)}"
begin

lemma answer_grows:
  assumes "grows lab u D s0 s" "i < length (queries s)" "queries s ! i = Some q" "q_protocol q = ns_udp" "2 \<le> length msg"
  shows "grows lab u D s0 ((emit (Sendto (q_sock q) (take n (mem_put msg 0 (NS_PUT16 (uint (q_qid q))))) (q_addr q)) s)
    \<lparr>queries := (queries s)[i := None]\<rparr>)" (is "grows lab u D s0 ?s'")
proof -
  have "answers (snd lab) u ?s' \<subseteq># answers (snd lab) u s + (if q_sock q = u then {#fst lab (q_qid q) (q_addr q)#} else {#})"
    using reply_label [OF assms(5), of n "q_qid q" "q_addr q"]
    by (auto simp: answers_def emit_def map_filter_snoc answer_label_def)
  then have "balance lab u ?s' \<subseteq># answers (snd lab) u s + (if q_sock q = u then {#fst lab (q_qid q) (q_addr q)#} else {#})
      + owed (fst lab) u ((queries s)[i := None])"
    by (simp add: balance_def)
  also have "\<dots> = balance lab u s"
    using owed_remove [OF assms(2,3), of "fst lab" u] assms(4) by (simp add: balance_def)
  finally have "grows lab u {#} s ?s'" by (simp add: grows_def emit_def)
  from grows_trans [OF assms(1) this] show ?thesis by simp
qed

lemma reply_cb_grows:
  assumes "grows lab u D s0 s"
  shows "outcome UNIV (grows lab u D s0) (reply_cb msg n s)"
  unfolding reply_cb_def
proof (rule outcome_any)
  fix good
  have answer: "outcome UNIV (grows lab u D s0) (bindE (query_at i s) (\<lambda>q. bindE (ns_setid msg (q_qid q)) (\<lambda>msg'.
      bindE (if q_sock q > 0 then reply_send (q_sock q) (q_protocol q) msg' (int n) (q_addr q) s else Inr s)
        (\<lambda>s1. Inr (delete_query (q_id q) s1)))))"
    if i: "query_search (queries s) ident = Some i" for ident i
  proof -
    obtain q where q: "i < length (queries s)" "queries s ! i = Some q" "q_id q = ident" using i by (auto simp: query_search_Some)
    show ?thesis
    proof (cases "2 \<le> length msg")
      case True
      let ?msg = "mem_put msg 0 (NS_PUT16 (uint (q_qid q)))"
      have "outcome UNIV (grows lab u D s0) (bindE (reply_send (q_sock q) (q_protocol q) ?msg (int n) (q_addr q) s)
          (\<lambda>s1. Inr (delete_query ident s1)))"
      proof (cases "q_protocol q")
        case ns_udp
        let ?s1 = "s\<lparr>calls := calls s + 1\<rparr>"
        have "grows lab u D s0 ((emit (Sendto (q_sock q) (take n ?msg) (q_addr q)) ?s1)\<lparr>queries := (queries ?s1)[i := None]\<rparr>)"
          by (rule answer_grows) (use assms q ns_udp True in simp_all)
        then show ?thesis
          using ns_udp i by (simp add: reply_send_def send_start_def sys_ret_def rd_n_def delete_query_search emit_def)
      next
        case ns_tcp
        then have "outcome UNIV (grows lab u D s0) (reply_send (q_sock q) (q_protocol q) ?msg (int n) (q_addr q) s)"
          unfolding reply_send_def by (intro outcome_silent [OF assms] send_start_silent) simp_all
        then show ?thesis by (rule outcome_bindE) (simp add: delete_query_grows)
      qed
      then show ?thesis using True q delete_query_grows [OF assms] by (simp add: query_at_def ns_setid_ok)
    next
      case False
      then show ?thesis using q by (simp add: query_at_def ns_setid_def put_at_def)
    qed
  qed
  have "outcome UNIV (grows lab u D s0) (bindE (ns_getid msg) (\<lambda>ident. case query_search (queries s) ident of
      None \<Rightarrow> Inr s
    | Some i \<Rightarrow> bindE (query_at i s) (\<lambda>q. bindE (ns_setid msg (q_qid q)) (\<lambda>msg'.
        bindE (if q_sock q > 0 then reply_send (q_sock q) (q_protocol q) msg' (int n) (q_addr q) s else Inr s)
          (\<lambda>s1. Inr (delete_query (q_id q) s1))))))"
    using answer assms by (intro outcome_any) (auto split: option.split)
  then show "outcome UNIV (grows lab u D s0) (if \<not> good then Inr s
     else bindE (ns_getid msg) (\<lambda>ident. case query_search (queries s) ident of
         None \<Rightarrow> Inr s
       | Some i \<Rightarrow> bindE (query_at i s) (\<lambda>q.
           bindE (ns_setid msg (q_qid q)) (\<lambda>msg'.
           bindE (if q_sock q > 0 then reply_send (q_sock q) (q_protocol q) msg' (int n) (q_addr q) s else Inr s)
             (\<lambda>s1. Inr (delete_query (q_id q) s1))))))"
    using assms by simp
qed

end

sublocale labelling \<subseteq> message_account lab u on_query on_reply for u
proof
  show "outcome UNIV (grows lab u D s0) (on_query fn x s)" if "grows lab u D s0 s" for D s0 s fn x
    using query_cb_grows [OF that] by (simp add: on_query_def)
  show "outcome UNIV (grows lab u D s0) (on_reply fn msg n s)" if "grows lab u D s0 s" for D s0 s fn msg n
    using test_cb_grows [OF that] reply_cb_grows [OF that] by (simp add: on_reply_def)
qed

section \<open>Runs\<close>

text \<open>
  What happens between two states: a watcher's callback is called, a second has passed, a signal has
  come, or a round of polling begins (which clears \<open>changed\<close>).
\<close>

datatype action = Call wptr | Second | Signal | Poll

fun act :: "action \<Rightarrow> world \<Rightarrow> world cres" where
  "act (Call w) s = dispatch w s"
| "act Second s = tick_cb s"
| "act Signal s = Inr (sans_stop s)"
| "act Poll s = Inr (s\<lparr>changed := False\<rparr>)"

fun play :: "action list \<Rightarrow> world \<Rightarrow> world cres" where
  "play [] s = Inr s"
| "play (x # xs) s = bindE (act x s) (play xs)"

text \<open>The queries that are received on the way at the socket \<open>u\<close>.\<close>

fun received :: "int \<Rightarrow> action list \<Rightarrow> world \<Rightarrow> (16 word \<times> sockaddr) multiset" where
  "received u [] s = {#}"
| "received u (x # xs) s = (case x of Call w \<Rightarrow> asks u w s | _ \<Rightarrow> {#})
     + (case act x s of Inl e \<Rightarrow> {#} | Inr s' \<Rightarrow> received u xs s')"

lemma play_append: "play (xs @ ys) s = bindE (play xs s) (play ys)"
proof (induction xs arbitrary: s)
  case (Cons x xs)
  then show ?case by (cases "act x s") simp_all
qed simp

text \<open>Every run of the event loop is such a sequence.\<close>

lemma poll_try_plays:
  assumes "poll_try dispatch event fds i s = Inr (s', fired)"
  shows "\<exists>xs. play xs s = Inr s'"
proof (cases "s' = s")
  case True
  then show ?thesis by (intro exI [of _ "[]"]) simp
next
  case False
  then obtain w where "dispatch w s = Inr s'"
    using assms by (auto simp: poll_try_def bindE_Inr_iff split: option.splits if_splits)
  then show ?thesis by (intro exI [of _ "[Call w]"]) simp
qed

lemma plays_trans: "\<exists>xs. play xs s = Inr s1 \<Longrightarrow> \<exists>xs. play xs s1 = Inr s2 \<Longrightarrow> \<exists>xs. play xs s = Inr s2"
  by (metis bindE_simps(2) play_append)

lemma poll_loop_plays: "poll_loop dispatch rs ws is k s = Inr (s', n) \<Longrightarrow> \<exists>xs. play xs s = Inr s'"
proof (induction "is" arbitrary: k s)
  case Nil
  then show ?case by (intro exI [of _ "[]"]) simp
next
  case (Cons i js)
  obtain s1 fired where 1: "poll_try dispatch EV_READ rs i s = Inr (s1, fired)"
    "s' = s1 \<or> (\<exists>s2 fired' k'. poll_try dispatch EV_WRITE ws i s1 = Inr (s2, fired') \<and>
       (s' = s2 \<or> poll_loop dispatch rs ws js k' s2 = Inr (s', n)))"
    using Cons.prems by (auto simp: bindE_Inr_iff Let_def split: if_splits)
  note p1 = poll_try_plays [OF 1(1)]
  show ?case
  proof (cases "s' = s1")
    case True
    then show ?thesis using p1 by simp
  next
    case False
    then obtain s2 fired' k' where 2: "poll_try dispatch EV_WRITE ws i s1 = Inr (s2, fired')"
      "s' = s2 \<or> poll_loop dispatch rs ws js k' s2 = Inr (s', n)"
      using 1(2) by blast
    note p2 = plays_trans [OF p1 poll_try_plays [OF 2(1)]]
    from 2(2) show ?thesis
    proof
      assume "poll_loop dispatch rs ws js k' s2 = Inr (s', n)"
      from plays_trans [OF p2 Cons.IH [OF this]] show ?thesis .
    qed (use p2 in simp)
  qed
qed

lemma run_loop_plays: "run_loop dispatch tick_cb since rounds s = Inr s' \<Longrightarrow> \<exists>xs. play xs s = Inr s'"
proof (induction rounds arbitrary: since s)
  case Nil
  then show ?case by (intro exI [of _ "[]"]) simp
next
  case (Cons r rounds)
  obtain sel now signal where r: "r = (sel, now, signal)" by (cases r)
  show ?case
  proof (cases "run s")
    case False
    then show ?thesis using Cons.prems by (intro exI [of _ "[]"]) (simp add: r)
  next
    case True
    define since' where "since' = (if now - since > 1000000 then now else since)"
    obtain s1 k s2 where 1: "ev_poll dispatch sel s = Inr (s1, k)" "(if now - since > 1000000 then tick_cb s1 else Inr s1) = Inr s2"
      "run_loop dispatch tick_cb since' rounds (if signal then ev_stop s2 else s2) = Inr s'"
      using Cons.prems True by (auto simp: r bindE_Inr_iff since'_def split del: if_split)
    have "s1 = s \<or> (\<exists>rs ws. poll_loop dispatch rs ws [0..<WLIST_SIZE] 0 (s\<lparr>changed := False\<rparr>) = Inr (s1, k))"
    proof -
      obtain rf wf where sets: "poll_sets (ios s) (wlist s) {} {} = Inr (rf, wf)"
        using 1(1) by (auto simp: ev_poll_def bindE_Inr_iff)
      obtain n rs ws where "sel rf wf = (n, rs, ws)" by (cases "sel rf wf")
      then show ?thesis using 1(1) sets by (auto simp: ev_poll_def split: if_splits simp del: upt_rec_numeral)
    qed
    then have p1: "\<exists>xs. play xs s = Inr s1"
    proof
      assume "s1 = s"
      then show ?thesis by (intro exI [of _ "[]"]) simp
    next
      assume "\<exists>rs ws. poll_loop dispatch rs ws [0..<WLIST_SIZE] 0 (s\<lparr>changed := False\<rparr>) = Inr (s1, k)"
      then have "\<exists>xs. play xs (s\<lparr>changed := False\<rparr>) = Inr s1" using poll_loop_plays by blast
      then obtain xs where "play xs (s\<lparr>changed := False\<rparr>) = Inr s1" by blast
      then show ?thesis by (intro exI [of _ "Poll # xs"]) simp
    qed
    have "play (if now - since > 1000000 then [Second] else []) s1 = Inr s2" using 1(2) by (simp split: if_splits)
    then have p2: "\<exists>xs. play xs s = Inr s2" using plays_trans [OF p1] by blast
    have "play (if signal then [Signal] else []) s2 = Inr (if signal then ev_stop s2 else s2)" by (simp add: sans_stop_def)
    then have "\<exists>xs. play xs s = Inr (if signal then ev_stop s2 else s2)" using plays_trans [OF p2] by blast
    then show ?thesis using plays_trans Cons.IH [OF 1(3)] by blast
  qed
qed

section \<open>The account over a run\<close>

lemma tick_grows: "outcome UNIV (grows lab u {#} s) (tick_cb s)"
proof -
  have "grows lab u {#} s (s\<lparr>queries := query_tick (queries s)\<rparr>)" by (rule grows_fewer [OF grows_refl owed_tick])
  then show ?thesis by (auto simp: tick_cb_def Let_def intro!: outcome_any)
qed

lemma accept_grows: "outcome UNIV (grows lab u {#} s) (accept_cb w s)"
proof -
  have "outcome UNIV (grows lab u {#} s) (query_recv sock ns_tcp Query_cb s1)" if "silent s s1" for sock s1
    unfolding query_recv_def by (rule outcome_weaken [OF recv_start_silent [OF that]]) (auto intro: silent_grows)
  then show ?thesis by (auto simp: accept_cb_def io_of_def sys_ret_def Let_def split: option.split)
qed

context labelling
begin

lemma dispatch_grows: "outcome UNIV (grows lab u (asks u w s) s) (dispatch w s)"
proof (cases "ios s w")
  case (Some io)
  have quiet: "outcome UNIV (grows lab u (asks u w s) s) m" if "outcome UNIV (grows lab u {#} s) m" for m
    by (rule outcome_weaken [OF that]) (auto intro: grows_more)
  have send: "outcome UNIV (grows lab u {#} s) (tcp_send_cb closing w s)" for closing
    by (rule outcome_silent [OF grows_refl tcp_send_silent]) simp
  show ?thesis
    using query_udp_recv_grows [OF Some] quiet [OF query_tcp_recv_grows [OF Some]] quiet [OF reply_recv_grows(1)]
      quiet [OF reply_recv_grows(2)] quiet [OF accept_grows] quiet [OF send] quiet [OF connecting.async_cb_grows(1) [OF grows_refl]]
      quiet [OF connecting.async_cb_grows(2) [OF grows_refl]] quiet [OF connecting.async_cb_grows(3) [OF grows_refl]] Some
    by (cases "ev_cb io") (simp_all add: dispatch_def io_of_def query_tcp_send_cb_def reply_tcp_send_cb_def)
qed (simp add: dispatch_def io_of_def)

lemma play_grows: "play xs s = Inr s' \<Longrightarrow> grows lab u (received u xs s) s s'"
proof (induction xs arbitrary: s)
  case (Cons x xs)
  then obtain s1 where s1: "act x s = Inr s1" "play xs s1 = Inr s'" by (auto simp: bindE_Inr_iff)
  have "outcome UNIV (grows lab u (case x of Call w \<Rightarrow> asks u w s | _ \<Rightarrow> {#}) s) (act x s)"
    using dispatch_grows tick_grows by (cases x) (simp_all add: sans_stop_def ev_stop_def)
  then have "grows lab u (case x of Call w \<Rightarrow> asks u w s | _ \<Rightarrow> {#}) s s1" by (simp add: s1(1))
  from grows_trans [OF this Cons.IH [OF s1(2)]] show ?case by (simp add: s1(1))
qed simp

end

text \<open>At the start nothing is owed.\<close>

lemma sans_init_silent: "outcome UNIV (\<lambda>s'. queries s' = queries s \<and> datagrams s' = datagrams s) (sans_init conf s)"
proof -
  define P where "P = (\<lambda>s'. queries s' = queries s \<and> datagrams s' = datagrams s)"
  have upd [simp]: "P (s'\<lparr>calls := n\<rparr>) = P s'" "P (s'\<lparr>cfg := c\<rparr>) = P s'" "P (ev_init now s') = P s'"
    "P (s'\<lparr>run := b\<rparr>) = P s'" "\<not> is_datagram x \<Longrightarrow> P (emit x s') = P s'" for s' n c now b x
    by (simp_all add: P_def datagrams_def emit_def ev_init_def)
  have opt [simp]: "P (snd (setnonblock s')) = P s'" "P (snd (setreuseaddr s')) = P s'" for s'
    by (subst option_calls, simp)+
  have g: "P s' \<Longrightarrow> outcome UNIV (\<lambda>(a, s'). P s') (getaddr srv s')" for srv s' by (simp add: getaddr_def split: option.split)
  have o: "P s' \<Longrightarrow> outcome UNIV (\<lambda>(a, s'). P s') (open_socket s')" for s' by (simp add: open_socket_def sys_ret_def)
  have d: "P s' \<Longrightarrow> \<not> is_datagram x \<Longrightarrow> outcome UNIV P (must_do x s')" for x s' by (simp add: must_do_def sys_ret_def)
  have i: "P s' \<Longrightarrow> outcome UNIV P (init_socks5 srv s')" for srv s'
    by (auto simp: init_socks5_def socks5_init_def getaddr_def split: option.split)
  have r: "P s' \<Longrightarrow> P (snd (runas user s'))" for user s' by (simp add: runas_def sys_ret_def Let_def split: option.split)
  have self: "P s" by (simp add: P_def)
  have "outcome UNIV P (sans_init conf s)"
    unfolding sans_init_def
    by (intro outcome_bindE [OF g] outcome_bindE [OF o] outcome_bindE [OF d] outcome_bindE [OF i] | clarify | simp add: self r)+
  then show ?thesis by (simp add: P_def)
qed

lemma start_watching_silent: "outcome UNIV (silent s) (start_watching s)"
proof -
  have r: "silent s s' \<Longrightarrow> outcome UNIV (silent s) (query_recv sock protocol cb s')"
    "silent s s' \<Longrightarrow> outcome UNIV (silent s) (reply_recv sock protocol cb s')" for sock protocol cb s'
    unfolding query_recv_def reply_recv_def by (rule recv_start_silent; assumption)+
  have l: "silent s s' \<Longrightarrow> outcome UNIV (silent s) (ev_io_init s' w fn fd event)"
    "silent s s' \<Longrightarrow> outcome UNIV (silent s) (ev_io_start s' w)" for s' w fn fd event
    by simp_all
  show ?thesis
    unfolding start_watching_def Let_def
    by (intro outcome_bindE [OF l(1)] outcome_bindE [OF l(2)] outcome_bindE [OF r(1)] outcome_bindE [OF r(2)] r(2)) simp_all
qed

lemma balance_at_start:
  assumes "sans_init conf (world_zero e rs) = Inr s0" "start_watching s0 = Inr s1"
  shows "balance lab u s1 = {#}" "cfg s1 = cfg s0"
proof -
  have "queries s0 = qlist_init" "datagrams s0 = []"
    using sans_init_silent [of "world_zero e rs" conf] assms(1) by (simp_all add: world_zero_def datagrams_def)
  moreover have "silent s0 s1" using start_watching_silent [of s0] assms(2) by simp
  ultimately show "balance lab u s1 = {#}" "cfg s1 = cfg s0"
    by (simp_all add: balance_def answers_datagrams silent_def owed_def map_filter_simps)
qed

text \<open>The two labellings: by the id and the address, and by the address alone.\<close>

definition reply_id :: "byte list \<Rightarrow> sockaddr \<Rightarrow> (16 word \<times> sockaddr) option" where
  "reply_id data peer = (case ns_getid data of Inl e \<Rightarrow> None | Inr x \<Rightarrow> Some (x, peer))"

interpretation by_id: labelling "(Pair, reply_id)"
proof
  fix msg :: "byte list" and n :: nat and x :: "16 word" and peer :: sockaddr
  assume msg: "2 \<le> length msg"
  let ?m = "mem_put msg 0 (NS_PUT16 (uint x))"
  have "ns_getid (take n ?m) = Inr x" if "2 \<le> n"
  proof -
    have "take n ?m = (NS_PUT16 (uint x) @ take (n - 2) (drop 2 msg)) @ []"
      using that msg by (simp add: mem_put_def numeral_2_eq_2)
    then show ?thesis by (simp only: getid_reply)
  qed
  moreover have "\<exists>e. ns_getid (take n ?m) = Inl e" if "\<not> 2 \<le> n"
    using that by (simp add: ns_getid_def NS_GET16_def rd_def)
  ultimately show "snd (Pair, reply_id) (take n ?m) peer \<in> {None, Some (fst (Pair, reply_id) x peer)}"
    by (cases "2 \<le> n") (auto simp: reply_id_def)
qed

interpretation by_address: labelling "(\<lambda>x peer. peer, \<lambda>data peer. Some peer)"
  by standard simp

section \<open>A sample exchange\<close>

text \<open>The sample network, in which the verdict on \<open>ar\<close> is known: a query comes, and then the server's answer.\<close>

definition sample_exchange :: world where
  "sample_exchange = (sample_net (\<lambda>i. if i = 1 then Some (query_msg 7 [Plain [0x61, 0x72]] 1) else Some (NS_PUT16 11 @ [1, 2]))
     [11, 12])\<lparr>htab := sample_cache\<rparr>"

lemma sample_exchange_plays:
  "\<exists>s'. play [Call (0, F_w), Call (2, F_w)] sample_exchange = Inr s'
    \<and> trace s' = [Sendto 7 (query_msg 11 [Plain [0x61, 0x72]] 1) (sample_peer 3), Sendto 5 (NS_PUT16 7 @ [1, 2]) (sample_peer 9)]"
proof -
  have c: "cache_search (htab sample_exchange) (text_name [Plain [0x61, 0x72]]) ns_t_block = Inr (Some item_ar)"
    by (simp add: sample_plain sample_cache_search sample_exchange_def)
  have r: "by_udp (cfg sample_exchange) (Some item_ar)" "route (cfg sample_exchange) (Some item_ar) 1 = (7, sample_peer 3, 1)"
    by (simp_all add: sample_exchange_def sample_net_facts by_udp_def route_def sample_settings_def item_ar_def)
  have "bindE m Inr = m" for m :: "world cres" by (cases m) simp_all
  then have "play [Call (0, F_w), Call (2, F_w)] s = bindE (dispatch (0, F_w) s) (dispatch (2, F_w))" for s
    by (cases "dispatch (0, F_w) s") (simp_all add: bindE_def split: sum.split)
  then show ?thesis
    using udp_exchange_steps [of sample_exchange "(0, F_w)" 5 "(2, F_w)" 7 "[Plain [0x61, 0x72]]" 1 7 11 12 "[]" item_ar 7 "sample_peer 3" "[1, 2]",
        OF _ _ _ _ sample_plain(1) _ _ _ _ _ _ _ _ c r]
    by (simp add: sample_exchange_def sample_net_facts sample_ids) (auto simp: sample_settings_def)
qed

text \<open>The program of the sample system listens at a socket of its own.\<close>

lemma sample_listens:
  "\<exists>s. sans_init conf (world_zero sample_os rs) = Inr s \<and> listens (sock_udp (cfg s)) (cfg s)"
  by (cases "hd (addr (cf_socks5 conf)) = 0")
    (simp_all add: sans_init_def getaddr_def open_socket_def must_do_def sys_ret_def init_socks5_def socks5_init_def ev_init_def
      setnonblock_def setreuseaddr_def runas_def emit_def world_zero_def sample_os_def quiet_def Let_def listens_def)

section \<open>Properties\<close>

text \<open>
  C3. Only queries are answered, and each at most once: whatever happens between two states, the
  datagrams the program sends from the socket it listens at, and the queries that came in there and are
  still pending, are covered one to one by the queries received there, by the pending ones and the
  datagrams from before. Queries and answers are compared by the client's id and by its address, so an
  answer goes to a client that has asked, under the id it has asked with.
\<close>

theorem answers_match_queries:
  assumes "play xs s = Inr s'" "listens u (cfg s)"
  shows "answers reply_id u s' + owed Pair u (queries s')
    \<subseteq># answers reply_id u s + owed Pair u (queries s) + received u xs s"
  using by_id.play_grows [OF assms(1), of u] assms(2) by (simp add: grows_def balance_def)

lemma answers_match_queries_witness:
  "\<exists>s'. play [Call (0, F_w), Call (2, F_w)] sample_exchange = Inr s' \<and> answers reply_id 5 s' = {#(7, sample_peer 9)#}
    \<and> (7, sample_peer 9) \<in># received 5 [Call (0, F_w), Call (2, F_w)] sample_exchange"
proof -
  have l: "listens 5 (cfg sample_exchange)"
    by (simp add: sample_exchange_def sample_net_facts listens_def sample_settings_def)
  obtain s' where s': "play [Call (0, F_w), Call (2, F_w)] sample_exchange = Inr s'"
    "trace s' = [Sendto 7 (query_msg 11 [Plain [0x61, 0x72]] 1) (sample_peer 3), Sendto 5 (NS_PUT16 7 @ [1, 2]) (sample_peer 9)]"
    using sample_exchange_plays by blast
  have "ns_getid (NS_PUT16 7 @ [1, 2]) = Inr 7" using getid_reply [of 7 "[1, 2]" "[]"] by simp
  then have a: "answers reply_id 5 s' = {#(7, sample_peer 9)#}"
    by (simp add: answers_def s'(2) map_filter_simps answer_label_def reply_id_def)
  have "answers reply_id 5 sample_exchange = {#}" "owed Pair 5 (queries sample_exchange) = {#}"
    by (simp_all add: sample_exchange_def sample_net_facts sample_ids answers_def map_filter_simps owed_def)
  then have "{#(7, sample_peer 9)#} + owed Pair 5 (queries s') \<subseteq># received 5 [Call (0, F_w), Call (2, F_w)] sample_exchange"
    using answers_match_queries [OF s'(1) l] a by simp
  then have "(7, sample_peer 9) \<in># received 5 [Call (0, F_w), Call (2, F_w)] sample_exchange"
    by (rule mset_subset_eqD) simp
  then show ?thesis using s'(1) a by blast
qed

text \<open>
  C4. No amplification: over a whole run of the program, from its start through any number of rounds of
  the event loop, it never sends more datagrams to an address from the socket it listens at than it has
  received queries from that address there.
\<close>

theorem no_amplification:
  assumes "sans_init conf (world_zero e rs) = Inr s0" "sans_run rounds s0 = Inr s" "u = sock_udp (cfg s0)" "listens u (cfg s0)"
  shows "\<exists>s1 xs s2. start_watching s0 = Inr s1 \<and> play xs s1 = Inr s2 \<and> s = (if run s2 then s2 else close_all (cfg s0) s2)
    \<and> (\<forall>a. length (filter (\<lambda>x. \<exists>data. x = Sendto u data a) (trace s)) \<le> count (image_mset snd (received u xs s1)) a)"
proof -
  obtain s1 s2 where s1: "start_watching s0 = Inr s1" "run_loop dispatch tick_cb (tv s1) rounds s1 = Inr s2"
    "s = (if run s2 then s2 else close_all (cfg s0) s2)"
    using assms(2) by (auto simp: sans_run_def ev_run_def bindE_Inr_iff)
  obtain xs where xs: "play xs s1 = Inr s2" using run_loop_plays [OF s1(2)] by blast
  note start = balance_at_start [OF assms(1) s1(1)]
  let ?lab = "(\<lambda>x peer. peer, \<lambda>data peer. Some peer) :: sockaddr labels"
  have snd: "(\<lambda>(x, a). fst ?lab x a) = snd" by (rule ext) (simp split: prod.split)
  have "grows ?lab u (received u xs s1) s1 s2" by (rule by_address.play_grows [OF xs])
  then have "balance ?lab u s2 \<subseteq># image_mset snd (received u xs s1)"
    using assms(4) start(1) [of ?lab u] start(2) by (simp only: grows_def snd) simp
  then have sub: "answers (\<lambda>data peer. Some peer) u s2 \<subseteq># image_mset snd (received u xs s1)"
    by (rule subset_mset.order_trans [rotated]) (simp add: balance_def)
  have count: "count (mset (List.map_filter (answer_label (\<lambda>data peer. Some peer) u) es)) a
      = length (filter (\<lambda>x. \<exists>data. x = Sendto u data a) es)" for es a
  proof (induction es)
    case (Cons x es)
    then show ?case by (cases x) (auto simp: map_filter_simps answer_label_def)
  qed (simp add: map_filter_simps)
  have "filter (\<lambda>x. \<exists>data. x = Sendto u data a) (trace s) = filter (\<lambda>x. \<exists>data. x = Sendto u data a) (trace s2)" for a
    by (simp add: s1(3) close_all_def emit_def)
  then have "length (filter (\<lambda>x. \<exists>data. x = Sendto u data a) (trace s)) \<le> count (image_mset snd (received u xs s1)) a" for a
    using mset_subset_eq_count [OF sub, of a] count [of "trace s2" a] by (simp add: answers_def)
  then show ?thesis using s1(1,3) xs by blast
qed

lemma no_amplification_witness:
  "\<exists>s0 s s1 xs s2. sans_init conf_zero (world_zero sample_os []) = Inr s0 \<and> sans_run [(\<lambda>r w. (0, {}, {}), 0, True)] s0 = Inr s
    \<and> start_watching s0 = Inr s1 \<and> play xs s1 = Inr s2
    \<and> (\<forall>a. length (filter (\<lambda>x. \<exists>data. x = Sendto (sock_udp (cfg s0)) data a) (trace s)) \<le> count (image_mset snd (received (sock_udp (cfg s0)) xs s1)) a)"
proof -
  obtain s0 s where s: "sans_init conf_zero (world_zero sample_os []) = Inr s0" "sans_run [(\<lambda>r w. (0, {}, {}), 0, True)] s0 = Inr s"
    using sample_run by blast
  have l: "listens (sock_udp (cfg s0)) (cfg s0)" using sample_listens [of conf_zero "[]"] s(1) by auto
  from no_amplification [OF s refl l] show ?thesis using s by blast
qed

end
