(* ===== verification/Spec2Isabelle.thy ===== *)
theory Spec2Isabelle
  imports Nametext Dns Compress Query Cache Event Log World Utils Dnsmsg Async Conf Sans Safety Forward Connect Proxy Start Answers
begin

text \<open>
  \<^bold>\<open>sans, a DNS forwarder that evades spoofed answers.\<close> The program (src/src) receives queries over UDP
  and TCP. For a name it knows nothing about it asks a test server for the SOA record: an answer with
  an A record can only be forged, so the name is blocked. The verdict is kept for six days. Queries for
  blocked names go to \<open>server\<close>, over a TCP connection, through a SOCKS5 proxy, or (\<open>nspresolver\<close>) over
  UDP; all others go to \<open>cn_server\<close>. This development models the program from the bytes of a message up
  to \<open>main\<close>, and proves what its parts and the whole do.

  \<^bold>\<open>The theories and the code.\<close>
    \<^item> Prelude: bytes, C strings, the result type \<open>cres\<close> (ordinary failure, access outside an object, use
      of freed memory, failed assertion, endless loop), checked reads and writes, \<open>outcome\<close>, which says
      with what a computation may end.
    \<^item> Wire, Unpack, Names, Pton, Pack, Message: resolv.c and resolv.h. Fields and label lengths; the
      decompression of names with compression pointers; names as text with escapes and bit string
      labels, out and in; compression; the message handle and its records. Nametext: the text the RFCs
      give a name, against what the code prints. Compress: what compressed names denote.
    \<^item> Dns: dns.c and dns.h. Making a query, parsing queries and replies. \<open>ns_newid\<close> is in Query.
    \<^item> Query: query.c, the table of pending queries, 128 slots searched in order.
    \<^item> Cache: cache.c, the hash table of verdicts with its chains on an explicit heap.
    \<^item> Event: event.c, the list of watchers, a round of polling, and the loop.
    \<^item> Conf: conf.c, the configuration file, the command line, and the defaults.
    \<^item> Log: log.c, what is printed on which stream.
    \<^item> World: the state of the whole program. The record \<open>world\<close> extends the event loop's record by the
      contexts on the heap (\<open>objs\<close>), the table of queries, the table of verdicts, the settings of sans.c,
      the answers of the system, the random numbers to come, and the log of what others can see.
    \<^item> Utils: utils.c, socket options, change of user, daemon.
    \<^item> Dnsmsg: dnsmsg.c, messages over UDP and TCP; Async: async_connect.c, connections and the SOCKS5
      handshake. The callbacks the contexts point to are arguments of the definitions.
    \<^item> Sans: sans.c and main.c, the program's callbacks, \<open>dispatch\<close> (the call through a watcher),
      start, run and \<open>main\<close>.
    \<^item> Safety, Forward, Connect, Proxy, Start, Answers: what the program as a whole does.
  Structures are records with the fields of the code, tagged values are datatypes, integers with a
  width are words where the width shows; a definition has the name of the function it models, and the
  loops of a function are recursive functions of their own. Pointers to functions are names
  (\<open>watcher_fn\<close>, \<open>user_fn\<close>), which \<open>dispatch\<close>, \<open>on_query\<close>, \<open>on_reply\<close> and \<open>on_connect\<close> resolve.

  \<^bold>\<open>The interfaces.\<close> The locale \<open>loop_client\<close> (Event) says what the event loop needs from its callbacks,
  \<open>dnsmsg_client\<close> (Dnsmsg) and \<open>connect_client\<close> (Async) what the two layers need from those of sans.c,
  \<open>id_table\<close> (Query) what \<open>ns_newid\<close> needs from the table, and \<open>verdict_store\<close> (Cache) what its users
  need from the cache. Each is interpreted on the model's definitions: the last two in their own
  theories, the first three in Safety. Answers has three more, for what it counts: \<open>connect_account\<close> and
  \<open>message_account\<close> say what the layers need from the callbacks of sans.c so that only queries are
  answered, and \<open>labelling\<close> by what queries and answers are compared.

  \<^bold>\<open>What is proved.\<close>
    \<^item> For names: \<open>ns_name_unpack\<close> returns on every message, stays in its buffers, and yields the labels
      that the inductive relation \<open>name_at\<close> reads off the message; printing and reading names are
      inverse for ordinary labels, and what is printed is the text of the RFCs but for some bit strings; what \<open>ns_name_pack\<close> writes, compressed or not, denotes in the sense of
      \<open>name_at\<close> the name it was given.
    \<^item> For messages: \<open>ns_initparse\<close> accepts exactly the messages that are laid out as the RFC has it and finds
      their sections (\<open>laid_out\<close>); \<open>ns_parserr\<close> returns safely in any order of calls, also after calls that
      failed; \<open>ns_parse_query\<close> returns the question, \<open>ns_mkquery\<close> asks one that is parsed back.
    \<^item> For the tables: adding, finding, deleting and expiring queries as operations on a bag of queries;
      fresh ids; the cache refines a map and its search a linear search.
    \<^item> For the configuration: all arrays stay terminated; a file is read back as it was written.
    \<^item> For the program: the invariant \<open>winv\<close> (every context is either in the hands of the running
      callback or owns exactly one listed watcher, ids are distinct, watchers are in states that fit their
      contexts) is kept by every callback; hence between two callbacks no reachable state has a dangling
      watcher or a lost context, and there are never more than 128 contexts and queries. A callback uses
      memory that is not its own in two cases only, which the theorems name: a byte behind a message that
      fills its buffer, and the entry of a verdict that expires. What clients and servers see of an exchange, over UDP, over a connection to the server,
      through a SOCKS5 proxy, and over a connection from the client, is proved as an equation on the log of effects. Over whole
      runs, with any number of clients and servers that send what they like in any order, the answers that
      go out as datagrams are covered one to one by queries that came in (\<open>answers_match_queries\<close>,
      \<open>no_amplification\<close>).
    \<^item> Where the code falls short, theorems say so: a verdict that expires (\<open>cache_tick_correct\<close>), late
      connections, ids that clash, messages in pieces, descriptors closed too early, a proxy's short reply,
      bit string labels.

  \<^bold>\<open>Bounds and the environment.\<close> The system's answers are functions of the number of the call (\<open>os\<close>), so
  that statements about an exchange name the call by its place in the sequence; other statements hold for
  all answers. The rounds of the event loop are a list: \<open>select\<close>'s answer, the time, and whether a signal
  came; every finite run is one of these lists, and nothing is said about a run as a whole beyond its
  prefixes. The random numbers are a list, and where it ends the model says \<open>Diverge\<close>; \<open>ns_newid_ends\<close>
  shows that 130 different numbers are enough. No answer of the system is
  excluded. \<open>fills\<close> says that a receive fills the 2048 bytes of a packet buffer: then the reader of a bit
  string label may look one byte behind it, and the statements on memory say so. The invariant counts the
  ticks for which no verdict expires, 518400 from the start (six days); with the index 0 it holds for any
  number of them, and what a tick does at an expiry is stated by itself (\<open>tick_cb_inv\<close>). Addresses are never given out twice, so that a pointer to freed memory is recognised.
  \<open>listens\<close>, in the statements on answers, says that the socket the program listens at is none of those
  on which it asks its servers, as the system promises of descriptors that are open together.

  \<^bold>\<open>Not modelled.\<close> The calls of \<open>LOG\<close> and \<open>ERROR\<close> in the program (their functions are in Log); what
  \<open>help\<close> prints; the parts for Windows, win.h, and \<open>setnosigpipe\<close>, which other systems compile; the
  limit of \<open>fd_set\<close>; \<open>umask\<close> and the closing of streams in \<open>daemonize\<close>; the lengths of socket addresses
  other than that of a client; \<open>query_t\<close> objects that are not in the table, so that their leaks do not
  show. A cut in the middle of a callback by a signal has no effect but that on \<open>run\<close>. The host is
  little-endian.
\<close>

end
